(* ===== verification/Pet_Prelude.thy ===== *)
theory Pet_Prelude
  imports Main "HOL-Library.Word"
begin

text \<open>
  Shared vocabulary of the development: the machine integer types of the C++ sources
  (\<open>src/src/base/base.h\<close>), the outcome type of operations that may end the process
  (a failed \<open>CHECK\<close>, a \<open>LOG(FATAL)\<close>, a null dereference) or never return, and the
  generic facts on words, bit masks, power-of-two probing and lists that the component
  theories rest on.
\<close>

unbundle bit_operations_syntax

section \<open>Machine integers and outcomes\<close>

type_synonym u8 = "8 word"
type_synonym u32 = "32 word"
type_synonym u64 = "64 word"

text \<open>
  Why an operation does not return normally: \<open>CheckFailed\<close> is a glog \<open>CHECK\<close> whose
  condition is false, \<open>LogFatal\<close> a \<open>LOG(FATAL)\<close>, \<open>NullDeref\<close> the use of a null
  pointer, \<open>Undefined\<close> an operation C++ leaves undefined, \<open>Uncaught\<close> an exception that
  nobody catches.
\<close>

datatype fatal = CheckFailed string | LogFatal string | NullDeref string | Undefined string | Uncaught string

datatype 'a run = Returns 'a | Aborts fatal | Diverges

fun run_bind :: "'a run \<Rightarrow> ('a \<Rightarrow> 'b run) \<Rightarrow> 'b run" where
  "run_bind (Returns x) f = f x"
| "run_bind (Aborts e) f = Aborts e"
| "run_bind Diverges f = Diverges"

definition run_check :: "bool \<Rightarrow> string \<Rightarrow> unit run" where
  "run_check b msg = (if b then Returns () else Aborts (CheckFailed msg))"

definition run_of_option :: "'a option \<Rightarrow> 'a run" where
  "run_of_option r = (case r of None \<Rightarrow> Diverges | Some x \<Rightarrow> Returns x)"

named_theorems run_simps \<open>evaluation of outcomes\<close>
named_theorems word_facts \<open>conversions of word expressions to natural numbers\<close>

lemma run_bind_eq_Returns [run_simps]:
  "run_bind m f = Returns y \<longleftrightarrow> (\<exists>x. m = Returns x \<and> f x = Returns y)"
  by (cases m) auto

lemma run_check_Returns [run_simps]: "run_check b msg = Returns u \<longleftrightarrow> b"
  by (simp add: run_check_def)

lemma run_check_True [simp]: "run_check True msg = Returns ()"
  by (simp add: run_check_def)

lemma run_check_False [simp]: "run_check False msg = Aborts (CheckFailed msg)"
  by (simp add: run_check_def)

lemma run_of_option_simps [simp]:
  "run_of_option None = Diverges" "run_of_option (Some x) = Returns x"
  by (simp_all add: run_of_option_def)

lemma run_bind_cong [fundef_cong]:
  "m = m' \<Longrightarrow> (\<And>x. m' = Returns x \<Longrightarrow> f x = f' x) \<Longrightarrow> run_bind m f = run_bind m' f'"
  by (cases m') auto

section \<open>Bit masks\<close>

text \<open>\<open>__builtin_ctz\<close>: the index of the lowest set bit (the argument is not zero).\<close>

definition ctz :: "'a::len word \<Rightarrow> nat" where
  "ctz w = length (takeWhile (\<lambda>i. \<not> bit w i) [0..<LENGTH('a)])"

lemma word_nonzero_bit:
  fixes w :: "'a::len word"
  assumes "w \<noteq> 0"
  shows "\<exists>i < LENGTH('a). bit w i"
  using assms by (metis bit_eqI bit_imp_le_length bit_0_eq bot_apply bot_bool_def)

lemma ctz_bit:
  fixes w :: "'a::len word"
  assumes "w \<noteq> 0"
  shows "ctz w < LENGTH('a)" and "bit w (ctz w)"
proof -
  from word_nonzero_bit [OF assms] obtain i where i: "i < LENGTH('a)" "bit w i" by blast
  have "takeWhile (\<lambda>i. \<not> bit w i) [0..<LENGTH('a)] \<noteq> [0..<LENGTH('a)]"
    using i by auto
  then have lt: "length (takeWhile (\<lambda>i. \<not> bit w i) [0..<LENGTH('a)]) < length [0..<LENGTH('a)]"
    by (metis length_takeWhile_le order_le_imp_less_or_eq take_all_iff takeWhile_eq_take le_refl)
  then show "ctz w < LENGTH('a)" by (simp add: ctz_def)
  from lt nth_length_takeWhile [OF lt] show "bit w (ctz w)" by (simp add: ctz_def)
qed

lemma ctz_below:
  fixes w :: "'a::len word"
  assumes "j < ctz w"
  shows "\<not> bit w j"
proof -
  from assms have "[0..<LENGTH('a)] ! j \<in> set (takeWhile (\<lambda>i. \<not> bit w i) [0..<LENGTH('a)])"
    unfolding ctz_def by (metis nth_mem takeWhile_nth)
  moreover have "j < LENGTH('a)"
    using assms length_takeWhile_le [of "\<lambda>i. \<not> bit w i" "[0..<LENGTH('a)]"]
    by (simp add: ctz_def)
  ultimately show ?thesis by (auto dest: set_takeWhileD)
qed

text \<open>\<open>w & (w - 1)\<close> clears exactly the lowest set bit.\<close>

lemma clear_lowest_bit:
  fixes w :: "'a::len word"
  assumes "w \<noteq> 0"
  shows "bit (w AND (w - 1)) i \<longleftrightarrow> bit w i \<and> i \<noteq> ctz w"
proof -
  let ?t = "ctz w" and ?u = "unset_bit (ctz w) w"
  have bt: "bit w ?t" and tl: "?t < LENGTH('a)" using ctz_bit [OF assms] by auto
  have "w = ?u OR set_bit ?t 0"
    by (rule bit_eqI) (use bt in \<open>auto simp: bit_simps\<close>)
  also have "\<dots> = ?u + set_bit ?t 0"
    by (rule disjunctive_add [symmetric]) (auto simp: bit_simps)
  also have "set_bit ?t 0 = (2 ^ ?t :: 'a word)"
    by (rule bit_eqI) (auto simp: bit_simps)
  finally have "w - 1 = ?u + (2 ^ ?t - 1)" by (metis add_diff_eq)
  also have "\<dots> = ?u + mask ?t" by (simp add: mask_eq_exp_minus_1)
  also have "\<dots> = ?u OR mask ?t"
    by (rule disjunctive_add) (auto simp: bit_simps dest: ctz_below)
  finally show ?thesis
    using bt by (auto simp: bit_simps dest: ctz_below bit_imp_le_length)
qed

lemma clear_lowest_less:
  fixes w :: "'a::len word"
  assumes "w \<noteq> 0"
  shows "unat (w AND (w - 1)) < unat w"
proof -
  have "w AND (w - 1) \<le> w" by (rule word_and_le2)
  moreover have "w AND (w - 1) \<noteq> w"
    using clear_lowest_bit [OF assms, of "ctz w"] ctz_bit [OF assms] by metis
  ultimately show ?thesis by (simp add: word_less_nat_alt [symmetric])
qed

section \<open>Power-of-two tables\<close>

lemma unat_and_pow2_minus_1 [word_facts]:
  fixes w cn :: "'a::len word"
  assumes "unat cn = 2 ^ k"
  shows "unat (w AND (cn - 1)) = unat w mod 2 ^ k"
proof -
  have "cn = of_nat (unat cn)" by simp
  then have "cn - 1 = mask k" using assms by (simp add: mask_eq_exp_minus_1)
  then have "w AND (cn - 1) = take_bit k w" by (simp only: take_bit_eq_mask)
  then have "unat (w AND (cn - 1)) = take_bit k (unat w)" by (simp only: unsigned_take_bit_eq)
  then show ?thesis by (simp add: take_bit_eq_mod)
qed

lemma unat_nat_u64: "n < 2 ^ 64 \<Longrightarrow> unat (of_nat n :: u64) = n"
  by (simp add: unsigned_of_nat take_bit_nat_eq_self)

lemma sint_unat:
  fixes w :: u64
  assumes "unat w < 2 ^ 63"
  shows "sint w = int (unat w)"
proof -
  have "int (unat w) < int (2 ^ 63)" using assms by (simp only: of_nat_less_iff)
  then have "uint w < 2 ^ 63" by simp
  moreover have "- (2 ^ 63) \<le> uint w" by (rule order_trans [of _ 0]) simp_all
  ultimately have "signed_take_bit 63 (uint w) = uint w" by (intro signed_take_bit_int_eq_self)
  then show ?thesis by (simp add: sint_uint)
qed

text \<open>
  An odd step visits every residue modulo a power of two exactly once in \<open>2 ^ k\<close> steps:
  the reason a probe sequence covers the whole chunk table.
\<close>

lemma odd_step_inj:
  assumes "odd s"
  shows "inj_on (\<lambda>m. (h + m * s) mod 2 ^ k) {..<(2 ^ k :: nat)}"
proof (rule inj_onI)
  fix x y :: nat
  assume xy: "x \<in> {..<2 ^ k}" "y \<in> {..<2 ^ k}"
    and eq: "(h + x * s) mod 2 ^ k = (h + y * s) mod 2 ^ k"
  from eq have "int ((h + x * s) mod 2 ^ k) = int ((h + y * s) mod 2 ^ k)" by simp
  then have "(int h + int x * int s) mod 2 ^ k = (int h + int y * int s) mod 2 ^ k"
    by (simp add: zmod_int)
  then have "(2 ^ k :: int) dvd (int h + int x * int s) - (int h + int y * int s)"
    by (simp only: mod_eq_dvd_iff)
  then have "(2 ^ k :: int) dvd (int x - int y) * int s"
    by (simp add: algebra_simps)
  moreover have "coprime (2 ^ k :: int) (int s)"
    using assms by simp
  ultimately have d: "(2 ^ k :: int) dvd int x - int y"
    by (simp add: coprime_dvd_mult_left_iff)
  have "int x < 2 ^ k" "int y < 2 ^ k" using xy by auto
  then have "\<bar>int x - int y\<bar> < 2 ^ k" by linarith
  with d show "x = y" using dvd_imp_le_int [of "int x - int y" "2 ^ k"] by (cases "x = y") auto
qed

lemma odd_step_covers:
  assumes "odd s" and "p < 2 ^ k"
  shows "\<exists>m < 2 ^ k. (h + m * s) mod 2 ^ k = (p :: nat)"
proof -
  let ?f = "\<lambda>m. (h + m * s) mod 2 ^ k"
  have "?f ` {..<2 ^ k} = {..<2 ^ k}"
    by (rule endo_inj_surj) (auto intro: odd_step_inj [OF assms(1)])
  then show ?thesis using assms(2) by (metis (no_types, lifting) imageE lessThan_iff)
qed

section \<open>Lists updated at one index\<close>

declare upt_rec_numeral [simp del]

lemma nth_list_update_any:
  "j < length xs \<Longrightarrow> xs[i := x] ! j = (if j = i then x else xs ! j)"
  by (cases "i < length xs") auto

lemma length_filter_update:
  "i < length xs \<Longrightarrow>
   length (filter P (xs[i := y])) + of_bool (P (xs ! i)) = length (filter P xs) + of_bool (P y)"
proof (induction xs arbitrary: i)
  case Nil
  then show ?case by simp
next
  case (Cons x xs)
  then show ?case by (cases i) force+
qed

lemma filter_upt_restrict:
  assumes "m \<le> n" and "\<And>i. P i \<Longrightarrow> i < m"
  shows "filter P [0..<n] = filter P [0..<m]"
proof -
  have "[0..<n] = [0..<m] @ [m..<n]"
    using assms(1) by (metis le0 le_add_diff_inverse upt_add_eq_append)
  moreover have "filter P [m..<n] = []"
    using assms(2) by (metis atLeastLessThan_iff filter_False leD set_upt)
  ultimately show ?thesis by simp
qed

lemma filter_upt_first:
  assumes "t < n" and "P t" and "\<And>j. j < t \<Longrightarrow> \<not> P j"
  shows "filter P [0..<n] = t # filter (\<lambda>i. P i \<and> i \<noteq> t) [0..<n]"
proof -
  have "[0..<n] = [0..<t] @ t # [Suc t..<n]"
    using assms(1) by (metis le0 less_or_eq_imp_le upt_add_eq_append upt_conv_Cons le_add_diff_inverse)
  moreover have "filter P [0..<t] = []" "filter (\<lambda>i. P i \<and> i \<noteq> t) [0..<t] = []"
    using assms(3) by (auto simp: filter_empty_conv)
  moreover have "filter P [Suc t..<n] = filter (\<lambda>i. P i \<and> i \<noteq> t) [Suc t..<n]"
    by (rule filter_cong) auto
  ultimately show ?thesis using assms(2) by simp
qed

lemma filter_length_lt_ex:
  assumes "length (filter P xs) < length xs"
  shows "\<exists>i < length xs. \<not> P (xs ! i)"
  using assms by (metis filter_True in_set_conv_nth less_irrefl)

lemma find_Some_first:
  "find P xs = Some x \<Longrightarrow> x \<in> set xs \<and> P x"
  by (induction xs) (auto split: if_splits)

lemma find_None_all:
  "find P xs = None \<longleftrightarrow> (\<forall>x \<in> set xs. \<not> P x)"
  by (induction xs) auto

lemma sum_filter_product:
  "sum_list (map (\<lambda>c. length (filter (\<lambda>i. P (c, i)) ys)) cs) = length (filter P (List.product cs ys))"
proof (induction cs)
  case (Cons c cs)
  have "length (filter (\<lambda>i. P (c, i)) ys) = length (filter P (map (Pair c) ys))"
    by (simp add: filter_map o_def)
  then show ?case using Cons by simp
qed simp

end
