(* ===== verification/Pet_Chunk.thy ===== *)
theory Pet_Chunk
  imports Pet_Prelude
begin

text \<open>
  The chunk of the PetHash index (\<open>src/src/pet_kv/pet_hash.h\<close>, lines 18-114):
  \<open>EntryT\<close>, \<open>SparseMaskIter\<close> and \<open>F14Chunk\<close>. A chunk holds fourteen slots, each with
  a one-byte tag (0 marks a free slot), a counter of the used slots and a saturating
  counter of the keys that probed past the chunk. The lock and the prefetches have no
  effect on the values and are left out; \<open>clflushopt_range\<close> changes no value either.
\<close>

section \<open>Definitions\<close>

record EntryT =
  first :: u64
  second :: u64

record F14Chunk =
  tags :: "u8 list"
  ch_size :: u8
  overflow_count :: u8
  is_migrating :: bool
  vals :: "EntryT list"

definition kMaxSize :: nat where
  "kMaxSize = 14"

definition kFullMask :: u32 where
  "kFullMask = push_bit kMaxSize 1 - 1"

text \<open>
  \<open>MatchTag\<close> loads the sixteen bytes that start at \<open>tags_\<close> (the fourteen tags,
  \<open>size_\<close> and a padding byte), compares each with the tag and gathers the results into
  a bit mask, of which it keeps the low fourteen bits.
\<close>

definition movemask :: "bool list \<Rightarrow> u32" where
  "movemask bs = horner_sum of_bool 2 bs"

definition MatchTag :: "F14Chunk \<Rightarrow> u8 \<Rightarrow> u32" where
  "MatchTag c tag = movemask (map (\<lambda>t. t = tag) (tags c @ [ch_size c, 0])) AND kFullMask"

definition HasNext :: "u32 \<Rightarrow> bool" where
  "HasNext msk = (msk \<noteq> 0)"

text \<open>\<open>SparseMaskIter::Next\<close>: the index of the lowest set bit and the mask without it.\<close>

definition Next :: "u32 \<Rightarrow> nat \<times> u32" where
  "Next msk = (ctz msk, msk AND (msk - 1))"

text \<open>
  The loop over the candidate slots that \<open>F14Chunk::Find\<close>, \<open>PetHash::GetInternal\<close> and
  \<open>PetHash::Insert\<close> share: the first slot of the mask whose key is the one looked for.
\<close>

function find_match :: "F14Chunk \<Rightarrow> u64 \<Rightarrow> u32 \<Rightarrow> nat option" where
  "find_match c key it =
     (if HasNext it
      then (let (sid, it') = Next it in
            if key = first (vals c ! sid) then Some sid else find_match c key it')
      else None)"
  by pat_completeness auto
termination
  by (relation "measure (\<lambda>(c, key, it). unat it)")
    (auto simp: HasNext_def Next_def clear_lowest_less)

declare find_match.simps [simp del]

definition Find :: "F14Chunk \<Rightarrow> u64 \<Rightarrow> u8 \<Rightarrow> int" where
  "Find c key tag =
     (case find_match c key (MatchTag c tag) of None \<Rightarrow> -1 | Some sid \<Rightarrow> int sid)"

definition ChunkSet :: "F14Chunk \<Rightarrow> nat \<Rightarrow> u8 \<Rightarrow> EntryT \<Rightarrow> F14Chunk" where
  "ChunkSet c i tag val =
     c\<lparr>vals := (vals c)[i := val], tags := (tags c)[i := tag]\<rparr>"

text \<open>
  \<open>F14Chunk::Insert\<close> returns the chunk and the slot whose address the code returns. The
  size counter is raised before the free slot is looked for.
\<close>

definition ChunkInsert :: "F14Chunk \<Rightarrow> u64 \<Rightarrow> u64 \<Rightarrow> u8 \<Rightarrow> (F14Chunk \<times> nat) run" where
  "ChunkInsert c key value sign =
     run_bind (run_check (unat (ch_size c) < kMaxSize) ''Size() < kMaxSize'') (\<lambda>_.
     let c1 = c\<lparr>ch_size := ch_size c + 1\<rparr>;
         it = MatchTag c1 0
     in run_bind (run_check (HasNext it) ''it.HasNext()'') (\<lambda>_.
        let i = fst (Next it)
        in Returns (ChunkSet c1 i sign \<lparr>first = key, second = value\<rparr>, i)))"

definition IncOverflow :: "F14Chunk \<Rightarrow> F14Chunk" where
  "IncOverflow c =
     (if overflow_count c \<noteq> 255 then c\<lparr>overflow_count := overflow_count c + 1\<rparr> else c)"

definition DecOverflow :: "F14Chunk \<Rightarrow> F14Chunk" where
  "DecOverflow c =
     (if overflow_count c \<noteq> 255 then c\<lparr>overflow_count := overflow_count c - 1\<rparr> else c)"

definition ChunkDelete :: "F14Chunk \<Rightarrow> nat \<Rightarrow> F14Chunk" where
  "ChunkDelete c i =
     c\<lparr>tags := (tags c)[i := 0],
       vals := (vals c)[i := (vals c ! i)\<lparr>first := -1\<rparr>],
       ch_size := ch_size c - 1\<rparr>"

definition InUse :: "F14Chunk \<Rightarrow> nat \<Rightarrow> bool" where
  "InUse c i = (tags c ! i \<noteq> 0)"

definition ChunkInitialize :: "F14Chunk \<Rightarrow> F14Chunk" where
  "ChunkInitialize c = c\<lparr>vals := map (\<lambda>e. e\<lparr>first := -1\<rparr>) (vals c)\<rparr>"

text \<open>A chunk of zero bytes, as \<open>memset\<close> leaves it.\<close>

definition zero_chunk :: F14Chunk where
  "zero_chunk = \<lparr>tags = replicate kMaxSize 0, ch_size = 0, overflow_count = 0,
     is_migrating = False, vals = replicate kMaxSize \<lparr>first = 0, second = 0\<rparr>\<rparr>"

section \<open>Well-formed chunks\<close>

text \<open>The representation invariant of one chunk: its size field counts the used slots.\<close>

definition chunk_wf :: "F14Chunk \<Rightarrow> bool" where
  "chunk_wf c \<longleftrightarrow> length (tags c) = kMaxSize \<and> length (vals c) = kMaxSize \<and>
     unat (ch_size c) = length (filter (\<lambda>t. t \<noteq> 0) (tags c))"

lemma chunk_wfD:
  assumes "chunk_wf c"
  shows "length (tags c) = 14" "length (vals c) = 14" "unat (ch_size c) \<le> 14"
  using assms length_filter_le [of "\<lambda>t. t \<noteq> 0" "tags c"]
  by (auto simp: chunk_wf_def kMaxSize_def)

lemma kFullMask_mask: "kFullMask = mask 14"
  by (simp add: kFullMask_def kMaxSize_def mask_eq_exp_minus_1)

lemma kFullMask_bit: "bit kFullMask i \<longleftrightarrow> i < 14"
  by (auto simp only: kFullMask_mask bit_mask_iff possible_bit_word) simp

lemma MatchTag_bit:
  assumes "length (tags c) = 14"
  shows "bit (MatchTag c tag) i \<longleftrightarrow> i < 14 \<and> tags c ! i = tag"
  using assms
  by (auto simp: MatchTag_def movemask_def bit_and_iff kFullMask_bit
      bit_horner_sum_bit_word_iff nth_append)

lemma MatchTag_slots:
  assumes "length (tags c) = 14"
  shows "filter (bit (MatchTag c tag)) [0..<32] = filter (\<lambda>i. tags c ! i = tag) [0..<14]"
proof -
  have "filter (bit (MatchTag c tag)) [0..<32] = filter (bit (MatchTag c tag)) [0..<14]"
    by (rule filter_upt_restrict) (auto simp: MatchTag_bit [OF assms])
  also have "\<dots> = filter (\<lambda>i. tags c ! i = tag) [0..<14]"
    by (rule filter_cong) (auto simp: MatchTag_bit [OF assms])
  finally show ?thesis .
qed

text \<open>The mask iteration visits the set bits in ascending order.\<close>

lemma find_match_find:
  "find_match c key it =
   find (\<lambda>sid. key = first (vals c ! sid)) (filter (bit it) [0..<32])"
proof (induction c key it rule: find_match.induct)
  case (1 c key it)
  show ?case
  proof (cases "it = 0")
    case True
    then show ?thesis by (subst find_match.simps) (simp add: HasNext_def)
  next
    case False
    have t: "ctz it < 32" "bit it (ctz it)" using ctz_bit [OF False] by simp_all
    have "filter (bit it) [0..<32] = ctz it # filter (\<lambda>i. bit it i \<and> i \<noteq> ctz it) [0..<32]"
      by (rule filter_upt_first) (use t ctz_below in auto)
    also have "filter (\<lambda>i. bit it i \<and> i \<noteq> ctz it) [0..<32] = filter (bit (it AND (it - 1))) [0..<32]"
      by (rule filter_cong) (simp_all add: clear_lowest_bit [OF False])
    finally have step: "filter (bit it) [0..<32] = ctz it # filter (bit (it AND (it - 1))) [0..<32]" .
    show ?thesis
    proof (cases "key = first (vals c ! ctz it)")
      case True
      then show ?thesis using False
        by (subst find_match.simps) (simp add: step HasNext_def Next_def)
    next
      case neq: False
      have "find_match c key it = find_match c key (it AND (it - 1))"
        using False neq by (simp add: find_match.simps [of c key it] HasNext_def Next_def)
      moreover have "find_match c key (it AND (it - 1)) =
        find (\<lambda>sid. key = first (vals c ! sid)) (filter (bit (it AND (it - 1))) [0..<32])"
        by (rule "1.IH" [of "(ctz it, it AND (it - 1))" "ctz it"])
          (use False neq in \<open>simp_all add: HasNext_def Next_def\<close>)
      ultimately show ?thesis using neq by (simp only: step find.simps if_False)
    qed
  qed
qed

lemma find_match_tag:
  assumes "length (tags c) = 14"
  shows "find_match c key (MatchTag c tag) =
    find (\<lambda>sid. key = first (vals c ! sid)) (filter (\<lambda>i. tags c ! i = tag) [0..<14])"
  by (simp add: find_match_find MatchTag_slots [OF assms])

lemma find_match_SomeD:
  assumes "length (tags c) = 14" and "find_match c key (MatchTag c tag) = Some i"
  shows "i < 14" "tags c ! i = tag" "first (vals c ! i) = key"
  using assms by (auto simp: find_match_tag dest!: find_Some_first)

lemma find_match_NoneD:
  assumes "length (tags c) = 14" and "find_match c key (MatchTag c tag) = None"
    and "i < 14" and "tags c ! i = tag"
  shows "first (vals c ! i) \<noteq> key"
  using assms by (auto simp: find_match_tag find_None_all)

section \<open>Operations on well-formed chunks\<close>

lemma free_slot_mask:
  assumes "chunk_wf c" and "unat (ch_size c) < 14"
  shows "HasNext (MatchTag c 0)"
    and "ctz (MatchTag c 0) < 14" and "tags c ! ctz (MatchTag c 0) = 0"
proof -
  have len: "length (tags c) = 14" using chunk_wfD [OF assms(1)] by simp
  have "length (filter (\<lambda>t. t \<noteq> 0) (tags c)) < length (tags c)"
    using assms len by (simp add: chunk_wf_def)
  from filter_length_lt_ex [OF this] obtain i where "i < 14" "tags c ! i = 0"
    using len by auto
  then have "bit (MatchTag c 0) i" by (simp add: MatchTag_bit [OF len])
  then have nz: "MatchTag c 0 \<noteq> 0" by auto
  then show "HasNext (MatchTag c 0)" by (simp add: HasNext_def)
  show "ctz (MatchTag c 0) < 14" "tags c ! ctz (MatchTag c 0) = 0"
    using ctz_bit(2) [OF nz] by (auto simp: MatchTag_bit [OF len])
qed

lemma MatchTag_size_update [simp]:
  "length (tags c) = 14 \<Longrightarrow> MatchTag (c\<lparr>ch_size := s\<rparr>) tag = MatchTag c tag"
  by (rule bit_eqI) (simp add: MatchTag_bit)

lemma chunk_wf_use_slot:
  assumes "chunk_wf c" and "i < 14" and "tags c ! i = 0" and "sign \<noteq> 0"
  shows "chunk_wf (ChunkSet (c\<lparr>ch_size := ch_size c + 1\<rparr>) i sign e)"
proof -
  have len: "length (tags c) = 14" using chunk_wfD [OF assms(1)] by simp
  have "length (filter (\<lambda>t. t \<noteq> 0) ((tags c)[i := sign])) =
        length (filter (\<lambda>t. t \<noteq> 0) (tags c)) + 1"
    using length_filter_update [of i "tags c" "\<lambda>t. t \<noteq> 0" sign] assms len by simp
  moreover have "unat (ch_size c + 1) = unat (ch_size c) + 1"
    using chunk_wfD(3) [OF assms(1)] by (simp add: unat_word_ariths)
  ultimately show ?thesis using assms(1) by (simp add: chunk_wf_def ChunkSet_def)
qed

lemma ChunkInsert_Returns:
  assumes "chunk_wf c" and "unat (ch_size c) < 14" and "sign \<noteq> 0"
  shows "ChunkInsert c key value sign =
    Returns (ChunkSet (c\<lparr>ch_size := ch_size c + 1\<rparr>) (ctz (MatchTag c 0)) sign
               \<lparr>first = key, second = value\<rparr>, ctz (MatchTag c 0))"
  using assms free_slot_mask [OF assms(1,2)] chunk_wfD [OF assms(1)]
  by (simp add: ChunkInsert_def Next_def kMaxSize_def Let_def)

lemma chunk_wf_ChunkDelete:
  assumes "chunk_wf c" and "i < 14" and "InUse c i"
  shows "chunk_wf (ChunkDelete c i)"
proof -
  have len: "length (tags c) = 14" using chunk_wfD [OF assms(1)] by simp
  have f: "length (filter (\<lambda>t. t \<noteq> 0) ((tags c)[i := 0])) + 1 =
        length (filter (\<lambda>t. t \<noteq> 0) (tags c))"
    using length_filter_update [of i "tags c" "\<lambda>t. t \<noteq> 0" 0] assms len by (simp add: InUse_def)
  then have "unat (ch_size c) \<ge> 1" using assms(1) by (simp add: chunk_wf_def)
  then have "unat (ch_size c - 1) = unat (ch_size c) - 1"
    by (metis unat_1 unat_sub word_le_nat_alt)
  with f show ?thesis using assms(1) by (simp add: chunk_wf_def ChunkDelete_def)
qed

lemma chunk_wf_overflow [simp]:
  "chunk_wf (IncOverflow c) \<longleftrightarrow> chunk_wf c" "chunk_wf (DecOverflow c) \<longleftrightarrow> chunk_wf c"
  by (simp_all add: chunk_wf_def IncOverflow_def DecOverflow_def)

lemma chunk_wf_initialized: "chunk_wf (ChunkInitialize zero_chunk)"
  by (simp add: chunk_wf_def ChunkInitialize_def zero_chunk_def kMaxSize_def)

lemma overflow_fields [simp]:
  "tags (IncOverflow c) = tags c" "vals (IncOverflow c) = vals c"
  "ch_size (IncOverflow c) = ch_size c" "is_migrating (IncOverflow c) = is_migrating c"
  "tags (DecOverflow c) = tags c" "vals (DecOverflow c) = vals c"
  "ch_size (DecOverflow c) = ch_size c" "is_migrating (DecOverflow c) = is_migrating c"
  by (simp_all add: IncOverflow_def DecOverflow_def)

lemma full_chunk_InUse:
  assumes "chunk_wf c" and "\<not> unat (ch_size c) < 14" and "i < 14"
  shows "InUse c i"
proof (rule ccontr)
  assume "\<not> InUse c i"
  have len: "length (tags c) = 14" using chunk_wfD [OF assms(1)] by simp
  have "length (filter (\<lambda>t. t \<noteq> 0) (tags c)) < length (tags c)"
    by (rule length_filter_less [of "tags c ! i"])
      (use \<open>\<not> InUse c i\<close> assms(3) len in \<open>auto simp: InUse_def in_set_conv_nth\<close>)
  then show False using assms len by (simp add: chunk_wf_def)
qed

end
