(* ===== verification/Pet_Hash.thy ===== *)
theory Pet_Hash
  imports Pet_Chunk
begin

text \<open>
  The PetHash index (\<open>src/src/pet_kv/pet_hash.h\<close>, lines 116-628): lookup, insertion,
  deletion and the accessors of the open-addressing table of chunks. The table is the
  record \<open>PetHash\<close>; a pointer to an entry is its location, the pair of the chunk's index
  and the slot in it. Retrying a lookup (\<open>goto RETRY\<close>) and walking the probe chain in
  \<open>Delete\<close> are loops without a bound in the code and are \<open>partial_function (option)\<close>s
  here: \<open>None\<close> is a loop that never ends.
\<close>

section \<open>State and hashing\<close>

record PetHash =
  capacity :: u64
  chunk_num :: u64
  dict_size :: u64
  chunk_table :: "F14Chunk list"

type_synonym location = "nat \<times> nat"
type_synonym CheckFuncT = "(u64 \<Rightarrow> u64 \<Rightarrow> bool \<Rightarrow> bool) option"

definition kChunkSize :: nat where
  "kChunkSize = kMaxSize"

definition kMaxLoadFactor :: u64 where
  "kMaxLoadFactor = 90"

text \<open>
  The SSE4.2 instruction behind \<open>_mm_crc32_u64\<close>: CRC-32C (reflected polynomial
  \<open>0x82F63B78\<close>) over the eight bytes of the operand, lowest byte first.
\<close>

definition crc32c_bit :: "u32 \<Rightarrow> u32" where
  "crc32c_bit crc = (if bit crc 0 then drop_bit 1 crc XOR 0x82F63B78 else drop_bit 1 crc)"

definition crc32c_byte :: "u32 \<Rightarrow> u8 \<Rightarrow> u32" where
  "crc32c_byte crc b = (crc32c_bit ^^ 8) (crc XOR ucast b)"

definition mm_crc32_u64 :: "u32 \<Rightarrow> u64 \<Rightarrow> u64" where
  "mm_crc32_u64 crc v =
     ucast (foldl (\<lambda>acc i. crc32c_byte acc (ucast (drop_bit (8 * i) v))) crc [0..<8])"

definition Sign :: "u64 \<Rightarrow> u8" where
  "Sign key = ucast ((drop_bit 24 (mm_crc32_u64 0 key) OR 0x80) AND 0xFF)"

definition Hash :: "u64 \<Rightarrow> u64" where
  "Hash key = key * 0xc6a4a7935bd1e995"

definition ProbeDelta :: "u64 \<Rightarrow> u64" where
  "ProbeDelta key = key * 2 OR 1"

definition upd_chunk :: "PetHash \<Rightarrow> nat \<Rightarrow> (F14Chunk \<Rightarrow> F14Chunk) \<Rightarrow> PetHash" where
  "upd_chunk h c f = h\<lparr>chunk_table := (chunk_table h)[c := f (chunk_table h ! c)]\<rparr>"

section \<open>Lookup\<close>

text \<open>
  The \<open>for\<close> loop of \<open>GetInternal\<close>: the location of the key, if a probed chunk holds it,
  and whether a probed chunk was being migrated. The first argument counts the iterations
  that are left.
\<close>

fun get_loop :: "nat \<Rightarrow> PetHash \<Rightarrow> u64 \<Rightarrow> u8 \<Rightarrow> u64 \<Rightarrow> u64 \<Rightarrow> bool \<Rightarrow> location option \<times> bool" where
  "get_loop 0 h key sign step pos touch = (None, touch)"
| "get_loop (Suc r) h key sign step pos touch =
     (let chunk = chunk_table h ! unat pos;
          touch' = (touch \<or> is_migrating chunk)
      in case find_match chunk key (MatchTag chunk sign) of
           Some sid \<Rightarrow> (Some (unat pos, sid), touch')
         | None \<Rightarrow>
             if overflow_count chunk = 0 then (None, touch')
             else get_loop r h key sign step ((pos + step) AND (chunk_num h - 1)) touch')"

definition get_pass :: "PetHash \<Rightarrow> u64 \<Rightarrow> location option \<times> bool" where
  "get_pass h key =
     (let hash_value = Hash key;
          sign = Sign hash_value;
          step = ProbeDelta (ucast sign);
          pos = hash_value AND (chunk_num h - 1)
      in get_loop (unat (chunk_num h)) h key sign step pos False)"

partial_function (option) GetInternal :: "PetHash \<Rightarrow> u64 \<Rightarrow> location option option" where
  "GetInternal h key =
     (case get_pass h key of
        (Some loc, _) \<Rightarrow> Some (Some loc)
      | (None, touch_migrating_chunk) \<Rightarrow>
          if touch_migrating_chunk then GetInternal h key else Some None)"

definition val_at :: "PetHash \<Rightarrow> location \<Rightarrow> u64" where
  "val_at h s = second (vals (chunk_table h ! fst s) ! snd s)"

definition key_at :: "PetHash \<Rightarrow> location \<Rightarrow> u64" where
  "key_at h s = first (vals (chunk_table h ! fst s) ! snd s)"

text \<open>\<open>Get\<close> returns the value and the flag \<open>exists\<close>: here an optional value.\<close>

definition PetHash_Get :: "PetHash \<Rightarrow> u64 \<Rightarrow> u64 option run" where
  "PetHash_Get h key = run_bind (run_of_option (GetInternal h key)) (\<lambda>r. Returns (map_option (val_at h) r))"

definition GetReturnPtr :: "PetHash \<Rightarrow> u64 \<Rightarrow> location option run" where
  "GetReturnPtr h key = run_of_option (GetInternal h key)"

text \<open>The flat index of an entry, as \<open>GetInternal\<close> stores it through \<open>item_pos\<close>.\<close>

definition item_pos :: "location \<Rightarrow> u64" where
  "item_pos s = of_nat (fst s) * of_nat kChunkSize + of_nat (snd s)"

definition Lookup :: "PetHash \<Rightarrow> u64 \<Rightarrow> int run" where
  "Lookup h key =
     run_bind (run_of_option (GetInternal h key)) (\<lambda>r.
       Returns (case r of Some s \<Rightarrow> sint (item_pos s) | None \<Rightarrow> -1))"

definition GetById :: "PetHash \<Rightarrow> u64 \<Rightarrow> EntryT" where
  "GetById h pos =
     vals (chunk_table h ! unat (pos div of_nat kChunkSize)) ! unat (pos mod of_nat kChunkSize)"

definition IndexInUse :: "PetHash \<Rightarrow> u64 \<Rightarrow> bool" where
  "IndexInUse h pos =
     (if pos \<ge> capacity h then False
      else InUse (chunk_table h ! unat (pos div of_nat kChunkSize)) (unat (pos mod of_nat kChunkSize)))"

text \<open>\<open>Size()\<close> and \<open>Capacity()\<close> return 32-bit integers.\<close>

definition PetHash_Size :: "PetHash \<Rightarrow> u32" where
  "PetHash_Size h = ucast (dict_size h)"

definition PetHash_Capacity :: "PetHash \<Rightarrow> u32" where
  "PetHash_Capacity h = ucast (capacity h)"

definition Full :: "PetHash \<Rightarrow> bool" where
  "Full h = (dict_size h * 100 \<ge> capacity h * kMaxLoadFactor)"

definition HomeChunk :: "PetHash \<Rightarrow> u64 \<Rightarrow> u64" where
  "HomeChunk h key = Hash key AND (chunk_num h - 1)"

text \<open>Writing through a pointer to a value of the table.\<close>

definition store_val :: "PetHash \<Rightarrow> location \<Rightarrow> u64 \<Rightarrow> PetHash" where
  "store_val h s value =
     upd_chunk h (fst s) (\<lambda>c. c\<lparr>vals := (vals c)[snd s := (vals c ! snd s)\<lparr>second := value\<rparr>]\<rparr>)"

section \<open>Deletion\<close>

text \<open>The \<open>while\<close> loop of \<open>Delete\<close>, which lowers the overflow counters on the probe chain.\<close>

partial_function (option) dec_walk :: "PetHash \<Rightarrow> u64 \<Rightarrow> u64 \<Rightarrow> u64 \<Rightarrow> PetHash option" where
  "dec_walk h step chunk_id pos =
     (if pos = chunk_id then Some h
      else dec_walk (upd_chunk h (unat pos) DecOverflow) step chunk_id
             ((pos + step) AND (chunk_num h - 1)))"

text \<open>\<open>Delete\<close> returns true on both paths; the model returns the table.\<close>

definition PetHash_Delete :: "PetHash \<Rightarrow> u64 \<Rightarrow> PetHash run" where
  "PetHash_Delete h key =
     run_bind (run_of_option (GetInternal h key)) (\<lambda>r.
       case r of None \<Rightarrow> Returns h
       | Some s \<Rightarrow>
           (let pos = item_pos s;
                hash_value = Hash key;
                step = ProbeDelta (ucast (Sign hash_value));
                chunk_id = pos div of_nat kChunkSize;
                chunk_offset = pos mod of_nat kChunkSize
            in run_bind (run_of_option
                   (dec_walk h step chunk_id (hash_value AND (chunk_num h - 1)))) (\<lambda>h1.
                 let h2 = upd_chunk h1 (unat chunk_id) (\<lambda>c. ChunkDelete c (unat chunk_offset))
                 in Returns (h2\<lparr>dict_size := dict_size h2 - 1\<rparr>))))"

section \<open>Insertion\<close>

text \<open>The scan of one chunk that deletes the entries the caller's check reports as expired.\<close>

fun expire_scan :: "(u64 \<Rightarrow> u64 \<Rightarrow> bool \<Rightarrow> bool) \<Rightarrow> nat list \<Rightarrow> nat \<Rightarrow> PetHash \<Rightarrow> PetHash run" where
  "expire_scan check [] c h = Returns h"
| "expire_scan check (sid # sids) c h =
     (if InUse (chunk_table h ! c) sid
      then let it = vals (chunk_table h ! c) ! sid in
           if \<not> check (first it) (second it) False
           then run_bind (PetHash_Delete h (first it)) (expire_scan check sids c)
           else expire_scan check sids c h
      else expire_scan check sids c h)"

definition expire_chunk :: "CheckFuncT \<Rightarrow> nat \<Rightarrow> PetHash \<Rightarrow> PetHash run" where
  "expire_chunk check_func c h =
     (case check_func of
        Some check \<Rightarrow>
          if unat (ch_size (chunk_table h ! c)) \<ge> kChunkSize - 2
          then expire_scan check [0..<kChunkSize] c h else Returns h
      | None \<Rightarrow> Returns h)"

text \<open>
  The \<open>for\<close> loop of \<open>Insert\<close>; the first argument counts the iterations that are left and
  \<open>i\<close> those that are done. The forced eviction deletes one entry of the full chunk and
  tries the same chunk again. (The check function is also called on the evicted entry, its
  result is not used.)
\<close>

fun Insert_loop ::
  "CheckFuncT \<Rightarrow> bool \<Rightarrow> u64 \<Rightarrow> u64 \<Rightarrow> u8 \<Rightarrow> u64 \<Rightarrow> nat \<Rightarrow> u64 \<Rightarrow> u64 \<Rightarrow> PetHash \<Rightarrow> (PetHash \<times> location) run" where
  "Insert_loop check_func force_insert key value sign step 0 i pos h = Aborts (LogFatal ''dict OOM'')"
| "Insert_loop check_func force_insert key value sign step (Suc r) i pos h =
     run_bind (expire_chunk check_func (unat pos) h) (\<lambda>h1.
       let chunk = chunk_table h1 ! unat pos in
       case find_match chunk key (MatchTag chunk sign) of
         Some sid \<Rightarrow>
           Returns (store_val h1 (unat pos, sid) value, (unat pos, sid))
       | None \<Rightarrow>
           if unat (ch_size chunk) < kChunkSize then
             run_bind (ChunkInsert chunk key value sign) (\<lambda>(chunk', sid).
               let h2 = upd_chunk h1 (unat pos) (\<lambda>_. chunk')
               in Returns (h2\<lparr>dict_size := dict_size h2 + 1\<rparr>, (unat pos, sid)))
           else if Full h1 then
             if \<not> force_insert then Aborts (LogFatal ''dict OOM'')
             else let it = vals chunk ! unat ((ucast sign + i) mod of_nat kChunkSize) in
                  run_bind (PetHash_Delete h1 (first it))
                    (Insert_loop check_func force_insert key value sign step r (i + 1) pos)
           else
             Insert_loop check_func force_insert key value sign step r (i + 1)
               ((pos + step) AND (chunk_num h1 - 1)) (upd_chunk h1 (unat pos) IncOverflow))"

definition PetHash_Insert ::
  "PetHash \<Rightarrow> u64 \<Rightarrow> u64 \<Rightarrow> CheckFuncT \<Rightarrow> bool \<Rightarrow> (PetHash \<times> location) run" where
  "PetHash_Insert h key value check_func force_insert =
     (let hash_value = Hash key;
          sign = Sign hash_value;
          step = ProbeDelta (ucast sign)
      in Insert_loop check_func force_insert key value sign step (unat (chunk_num h)) 0 (HomeChunk h key) h)"

definition PetHash_Set ::
  "PetHash \<Rightarrow> u64 \<Rightarrow> u64 \<Rightarrow> CheckFuncT \<Rightarrow> bool \<Rightarrow> (PetHash \<times> location) run" where
  "PetHash_Set h key value check_func is_force =
     run_bind (GetReturnPtr h key) (\<lambda>r.
       case r of
         Some s \<Rightarrow> Returns (store_val h s value, s)
       | None \<Rightarrow> PetHash_Insert h key value check_func is_force)"

end
