(* ===== verification/Pet_Probe.thy ===== *)
theory Pet_Probe
  imports Pet_Hash
begin

text \<open>
  The probe sequence of PetHash and the invariant of the table. The chunks a key may live
  in are \<open>path n key 0, path n key 1, ...\<close>; since the step is odd and the number of chunks
  is a power of two, the first \<open>n\<close> of them are all the chunks, each once. The invariant
  says that a chunk's overflow counter is at least the number of stored keys that lie
  further on their probe sequence (or is stuck at its maximum), which is what lets a lookup
  stop at a chunk whose counter is zero.
\<close>

section \<open>Probe sequences\<close>

definition stp :: "u64 \<Rightarrow> nat" where
  "stp key = unat (ProbeDelta (ucast (Sign (Hash key))))"

definition path :: "nat \<Rightarrow> u64 \<Rightarrow> nat \<Rightarrow> nat" where
  "path n key m = (unat (Hash key) + m * stp key) mod n"

text \<open>The chunks probed before chunk \<open>c\<close>.\<close>

definition trail :: "nat \<Rightarrow> u64 \<Rightarrow> nat \<Rightarrow> nat list" where
  "trail n key c = takeWhile (\<lambda>p. p \<noteq> c) (map (path n key) [0..<n])"

lemma ProbeDelta_odd: "odd (unat (ProbeDelta x))"
proof -
  have "bit (ProbeDelta x) 0" by (simp add: ProbeDelta_def bit_or_iff)
  then have "bit (unat (ProbeDelta x)) 0" by (simp add: bit_unsigned_iff)
  then show ?thesis by (simp add: bit_0)
qed

lemma stp_odd: "odd (stp key)"
  by (simp add: stp_def ProbeDelta_odd)

lemma Sign_nonzero: "Sign key \<noteq> 0"
proof -
  have "bit (Sign key) 7"
    by (simp add: Sign_def bit_simps bit_numeral_rec)
  then show ?thesis by auto
qed

lemma path_inj: "n = 2 ^ k \<Longrightarrow> inj_on (path n key) {..<n}"
  using odd_step_inj [OF stp_odd, where h = "unat (Hash key)" and k = k] by (simp add: path_def [abs_def])

lemma path_eq_iff:
  assumes "n = 2 ^ k" and "a < n" and "b < n"
  shows "path n key a = path n key b \<longleftrightarrow> a = b"
  using path_inj [OF assms(1)] assms(2,3) by (auto dest: inj_onD)

lemma path_covers: "n = 2 ^ k \<Longrightarrow> p < n \<Longrightarrow> \<exists>m < n. path n key m = p"
  using odd_step_covers [OF stp_odd] by (simp add: path_def)

lemma path_less: "0 < n \<Longrightarrow> path n key m < n"
  by (simp add: path_def)

lemma path_mod: "path n key (m mod n) = path n key m"
  unfolding path_def by (metis mod_add_right_eq mod_mult_left_eq)

text \<open>Any window of fewer than \<open>n\<close> further steps visits other chunks than the one it starts from.\<close>

lemma path_window:
  assumes "n = 2 ^ k" and "a < b" and "b < a + n"
  shows "path n key a \<noteq> path n key b"
proof
  assume "path n key a = path n key b"
  then have "path n key (a mod n) = path n key (b mod n)" by (simp only: path_mod)
  moreover have "0 < n" using assms(1) by simp
  ultimately have "a mod n = b mod n" using path_eq_iff [OF assms(1), of "a mod n" "b mod n" key] by simp
  then have "n dvd b - a" using assms(2) mod_eq_dvd_iff_nat [of a b n] by simp
  then show False using assms(2,3) by (auto dest: dvd_imp_le)
qed

lemma trail_path:
  assumes "n = 2 ^ k" and "m < n"
  shows "trail n key (path n key m) = map (path n key) [0..<m]"
proof -
  have "[0..<n] = [0..<m] @ m # [Suc m..<n]"
    using assms(2) by (metis le0 less_or_eq_imp_le upt_add_eq_append upt_conv_Cons le_add_diff_inverse)
  moreover have "\<forall>p \<in> set (map (path n key) [0..<m]). p \<noteq> path n key m"
    using assms(2) by (auto simp: path_eq_iff [OF assms(1)])
  ultimately show ?thesis
    unfolding trail_def by (simp, subst takeWhile_append2) auto
qed

lemma unat_pow2_bound:
  fixes cn :: u64
  assumes "unat cn = 2 ^ k"
  shows "k < 64"
proof -
  have "unat cn < 2 ^ LENGTH(64)" by (rule unsigned_less)
  then have "(2 :: nat) ^ k < 2 ^ 64" using assms by simp
  then show ?thesis by (rule power_less_imp_less_exp [rotated]) simp
qed

lemma word_path_0:
  assumes "unat cn = 2 ^ k"
  shows "unat (Hash key AND (cn - 1)) = path (2 ^ k) key 0"
  using assms by (simp add: unat_and_pow2_minus_1 path_def)

lemma word_path_Suc:
  assumes "unat cn = 2 ^ k" and "unat pos = path (2 ^ k) key m"
  shows "unat ((pos + ProbeDelta (ucast (Sign (Hash key)))) AND (cn - 1)) = path (2 ^ k) key (Suc m)"
proof -
  have "k < 64"
    by (rule unat_pow2_bound [OF assms(1)])
  then have d: "(2 ^ k :: nat) dvd 2 ^ 64" by (intro le_imp_power_dvd) simp
  have "unat ((pos + ProbeDelta (ucast (Sign (Hash key)))) AND (cn - 1)) =
        (unat pos + stp key) mod 2 ^ 64 mod 2 ^ k"
    using assms(1) by (simp add: unat_and_pow2_minus_1 unat_word_ariths stp_def)
  also have "\<dots> = (unat pos + stp key) mod 2 ^ k"
    using d by (rule mod_mod_cancel)
  finally show ?thesis using assms(2)
    by (simp add: path_def mod_simps add.assoc add.commute add.left_commute)
qed

section \<open>The stored entries and the map they stand for\<close>

definition nchunks :: "PetHash \<Rightarrow> nat" where
  "nchunks h = length (chunk_table h)"

definition used_list :: "PetHash \<Rightarrow> location list" where
  "used_list h =
     filter (\<lambda>(c, i). InUse (chunk_table h ! c) i) (List.product [0..<nchunks h] [0..<14])"

definition used :: "PetHash \<Rightarrow> location set" where
  "used h = set (used_list h)"

definition tag_at :: "PetHash \<Rightarrow> location \<Rightarrow> u8" where
  "tag_at h s = tags (chunk_table h ! fst s) ! snd s"

definition abs_map :: "PetHash \<Rightarrow> u64 \<Rightarrow> u64 option" where
  "abs_map h = map_of (map (\<lambda>s. (key_at h s, val_at h s)) (used_list h))"

text \<open>The stored entries whose probe sequence goes past chunk \<open>p\<close>.\<close>

definition passing :: "PetHash \<Rightarrow> nat \<Rightarrow> location set" where
  "passing h p = {s \<in> used h. p \<in> set (trail (nchunks h) (key_at h s) (fst s))}"

text \<open>
  The sizes of the table: a power of two of chunks, few enough that the products in
  \<open>Full\<close> do not wrap around.
\<close>

definition shape :: "PetHash \<Rightarrow> bool" where
  "shape h \<longleftrightarrow> (\<exists>k \<in> {0..53}. nchunks h = 2 ^ k) \<and> unat (chunk_num h) = nchunks h \<and>
     unat (capacity h) = 14 * nchunks h"

definition overflow_bound :: "PetHash \<Rightarrow> nat set \<Rightarrow> nat \<Rightarrow> bool" where
  "overflow_bound h P p \<longleftrightarrow> overflow_count (chunk_table h ! p) = 255 \<or>
     card (passing h p) + of_bool (p \<in> P) \<le> unat (overflow_count (chunk_table h ! p))"

text \<open>
  The invariant with a set \<open>P\<close> of chunks whose counter has been raised for an entry that
  is about to be stored; between operations \<open>P\<close> is empty.
\<close>

definition pet_invp :: "nat set \<Rightarrow> PetHash \<Rightarrow> bool" where
  "pet_invp P h \<longleftrightarrow> shape h \<and> (\<forall>c \<in> set (chunk_table h). chunk_wf c) \<and>
     (\<forall>s \<in> used h. tag_at h s = Sign (Hash (key_at h s))) \<and>
     inj_on (key_at h) (used h) \<and>
     unat (dict_size h) = card (used h) \<and>
     (\<forall>p \<in> {..<nchunks h}. overflow_bound h P p)"

abbreviation pet_inv :: "PetHash \<Rightarrow> bool" where
  "pet_inv \<equiv> pet_invp {}"

text \<open>No chunk is being migrated.\<close>

definition settled :: "PetHash \<Rightarrow> bool" where
  "settled h \<longleftrightarrow> (\<forall>c \<in> set (chunk_table h). \<not> is_migrating c)"

text \<open>The free slots are exactly those whose key is -1, the mark that \<open>Initialize\<close> and
  \<open>Delete\<close> leave in a slot and that recovery relies on.\<close>

definition marked :: "PetHash \<Rightarrow> bool" where
  "marked h \<longleftrightarrow> (\<forall>c \<in> set (chunk_table h). \<forall>i \<in> {..<14}. tags c ! i = 0 \<longleftrightarrow> first (vals c ! i) = -1)"

lemma used_iff:
  "s \<in> used h \<longleftrightarrow> fst s < nchunks h \<and> snd s < 14 \<and> InUse (chunk_table h ! fst s) (snd s)"
  by (cases s) (auto simp: used_def used_list_def)

lemma finite_used [simp]: "finite (used h)"
  by (simp add: used_def)

lemma finite_passing [simp]: "finite (passing h p)"
  by (simp add: passing_def)

lemma distinct_used_list: "distinct (used_list h)"
  unfolding used_list_def by (intro distinct_filter distinct_product) simp_all

lemma card_used: "card (used h) = length (used_list h)"
  by (simp add: used_def distinct_card distinct_used_list)

lemma abs_map_SomeD:
  "abs_map h k = Some v \<Longrightarrow> \<exists>s \<in> used h. key_at h s = k \<and> val_at h s = v"
  by (auto simp: abs_map_def used_def dest!: map_of_SomeD)

lemma abs_map_None: "abs_map h k = None \<longleftrightarrow> k \<notin> key_at h ` used h"
  by (auto simp: abs_map_def map_of_eq_None_iff used_def image_image)

lemma abs_map_SomeI:
  assumes "inj_on (key_at h) (used h)" and "s \<in> used h"
  shows "abs_map h (key_at h s) = Some (val_at h s)"
proof -
  have "abs_map h (key_at h s) \<noteq> None" using assms(2) by (simp add: abs_map_None)
  then obtain s' where "s' \<in> used h" "key_at h s' = key_at h s"
      "abs_map h (key_at h s) = Some (val_at h s')"
    using abs_map_SomeD by blast
  then show ?thesis using assms by (auto dest: inj_onD)
qed

lemma abs_map_Some_iff:
  assumes "inj_on (key_at h) (used h)"
  shows "abs_map h k = Some v \<longleftrightarrow> (\<exists>s \<in> used h. key_at h s = k \<and> val_at h s = v)"
  using abs_map_SomeD abs_map_SomeI [OF assms] by metis

lemma pet_invpD:
  assumes "pet_invp P h"
  shows "shape h" "c < nchunks h \<Longrightarrow> chunk_wf (chunk_table h ! c)"
    "s \<in> used h \<Longrightarrow> tag_at h s = Sign (Hash (key_at h s))"
    "inj_on (key_at h) (used h)" "unat (dict_size h) = card (used h)"
    "p < nchunks h \<Longrightarrow> overflow_bound h P p"
  using assms by (auto simp: pet_invp_def nchunks_def)

lemma shapeE:
  assumes "shape h"
  obtains k where "nchunks h = 2 ^ k" "unat (chunk_num h) = 2 ^ k" "k \<le> 53"
    "unat (capacity h) = 14 * 2 ^ k"
  using assms by (auto simp: shape_def)

text \<open>Two tables with the same sizes.\<close>

lemma shape_cong:
  assumes "nchunks h' = nchunks h" "chunk_num h' = chunk_num h" "capacity h' = capacity h"
  shows "shape h' \<longleftrightarrow> shape h"
  using assms by (simp add: shape_def)

text \<open>Removing and adding one entry, seen through the abstraction.\<close>

lemma abs_map_remove:
  assumes "inj_on (key_at h) (used h)" and "s \<in> used h" and "used h' = used h - {s}"
    and "\<And>t. t \<in> used h' \<Longrightarrow> key_at h' t = key_at h t \<and> val_at h' t = val_at h t"
  shows "abs_map h' = (abs_map h)(key_at h s := None)" and "inj_on (key_at h') (used h')"
proof -
  show i: "inj_on (key_at h') (used h')"
    using assms by (simp add: inj_on_def)
  show "abs_map h' = (abs_map h)(key_at h s := None)"
  proof
    fix k
    show "abs_map h' k = ((abs_map h)(key_at h s := None)) k"
    proof (cases "abs_map h' k")
      case None
      then have "k \<noteq> key_at h s \<Longrightarrow> abs_map h k = None"
        using assms by (auto simp: abs_map_None image_iff)
      then show ?thesis using None by simp
    next
      case (Some v)
      then obtain t where t: "t \<in> used h'" "key_at h' t = k" "val_at h' t = v"
        by (auto dest: abs_map_SomeD)
      then have "key_at h t \<noteq> key_at h s" using assms(1-3) by (auto dest: inj_onD)
      then show ?thesis using t Some assms abs_map_SomeI [OF assms(1), of t] by auto
    qed
  qed
qed

lemma abs_map_add:
  assumes "inj_on (key_at h) (used h)" and "used h' = insert s (used h)" and "s \<notin> used h"
    and "\<And>t. t \<in> used h \<Longrightarrow> key_at h' t = key_at h t \<and> val_at h' t = val_at h t"
    and "key_at h' s \<notin> key_at h ` used h"
  shows "abs_map h' = (abs_map h)(key_at h' s \<mapsto> val_at h' s)" and "inj_on (key_at h') (used h')"
proof -
  show i: "inj_on (key_at h') (used h')"
    using assms by (auto simp: inj_on_def image_iff)
  show "abs_map h' = (abs_map h)(key_at h' s \<mapsto> val_at h' s)"
  proof
    fix k
    show "abs_map h' k = ((abs_map h)(key_at h' s \<mapsto> val_at h' s)) k"
    proof (cases "abs_map h' k")
      case None
      then have "k \<noteq> key_at h' s" "abs_map h k = None"
        using assms by (auto simp: abs_map_None image_iff)
      then show ?thesis using None by simp
    next
      case (Some v)
      then obtain t where t: "t \<in> used h'" "key_at h' t = k" "val_at h' t = v"
        by (auto dest: abs_map_SomeD)
      show ?thesis
      proof (cases "t = s")
        case True
        then show ?thesis using t Some by simp
      next
        case False
        then have "t \<in> used h" using t assms(2) by simp
        then have "key_at h t = k" "val_at h t = v" using t assms(4) by auto
        then have "k \<noteq> key_at h' s" "abs_map h k = Some v"
          using \<open>t \<in> used h\<close> assms(5) abs_map_SomeI [OF assms(1) \<open>t \<in> used h\<close>]
          by (metis image_eqI, simp)
        then show ?thesis using Some by simp
      qed
    qed
  qed
qed

end
