(* ===== verification/Pet_Lookup.thy ===== *)
theory Pet_Lookup
  imports Pet_Probe
begin

text \<open>
  Correctness of the lookups and of deletion: on a table that satisfies the invariant a
  lookup finds exactly the stored entries, it ends unless it misses at a chunk that is being
  migrated, and \<open>Delete\<close> removes exactly the entry of its key and keeps the invariant.
\<close>

section \<open>The probe loop\<close>

lemma used_match:
  assumes inv: "pet_invp P h" and c: "c < nchunks h"
    and f: "find_match (chunk_table h ! c) key (MatchTag (chunk_table h ! c) (Sign (Hash key))) = Some i"
  shows "(c, i) \<in> used h" and "key_at h (c, i) = key"
proof -
  have "length (tags (chunk_table h ! c)) = 14" using chunk_wfD pet_invpD(2) [OF inv c] by blast
  from find_match_SomeD [OF this f] show "(c, i) \<in> used h" "key_at h (c, i) = key"
    using c by (auto simp: used_iff InUse_def key_at_def Sign_nonzero)
qed

lemma stored_match:
  assumes inv: "pet_invp P h" and s: "s \<in> used h" and k: "key_at h s = key"
  shows "find_match (chunk_table h ! fst s) key (MatchTag (chunk_table h ! fst s) (Sign (Hash key))) = Some (snd s)"
proof -
  let ?c = "chunk_table h ! fst s"
  have c: "fst s < nchunks h" and i: "snd s < 14" using s by (auto simp: used_iff)
  have len: "length (tags ?c) = 14" using chunk_wfD pet_invpD(2) [OF inv c] by blast
  have t: "tags ?c ! snd s = Sign (Hash key)"
    using pet_invpD(3) [OF inv s] k by (simp add: tag_at_def)
  show ?thesis
  proof (cases "find_match ?c key (MatchTag ?c (Sign (Hash key)))")
    case None
    from find_match_NoneD [OF len None i t] k show ?thesis by (simp add: key_at_def)
  next
    case (Some j)
    from used_match [OF inv c Some] have "(fst s, j) = s"
      using pet_invpD(4) [OF inv] s k by (auto dest: inj_onD)
    then have "j = snd s" by (metis snd_conv)
    then show ?thesis using Some by simp
  qed
qed

lemma passing_counted:
  assumes inv: "pet_invp P h" and s: "s \<in> passing h p" and p: "p < nchunks h"
  shows "overflow_count (chunk_table h ! p) \<noteq> 0"
proof -
  have "card (passing h p) \<noteq> 0" using s by auto
  then show ?thesis using pet_invpD(6) [OF inv p] by (auto simp: overflow_bound_def)
qed

text \<open>The place of a stored entry on its probe sequence, and the entries it passes.\<close>

lemma depth_ex:
  assumes inv: "pet_invp P h" and s: "s \<in> used h"
  obtains d where "d < nchunks h" "path (nchunks h) (key_at h s) d = fst s"
    "trail (nchunks h) (key_at h s) (fst s) = map (path (nchunks h) (key_at h s)) [0..<d]"
proof -
  obtain k where k: "nchunks h = 2 ^ k" using pet_invpD(1) [OF inv] by (rule shapeE)
  have "fst s < nchunks h" using s by (simp add: used_iff)
  from path_covers [OF k this] obtain d
    where "d < nchunks h" "path (nchunks h) (key_at h s) d = fst s" by blast
  then show thesis using trail_path [OF k, of d "key_at h s"] that by simp
qed

lemma get_loop_hit:
  assumes inv: "pet_invp P h" and s: "s \<in> used h" and key: "key_at h s = key"
    and d: "d < nchunks h" "path (nchunks h) key d = fst s"
  shows "m \<le> d \<Longrightarrow> d < r + m \<Longrightarrow> unat pos = path (nchunks h) key m \<Longrightarrow>
    \<exists>t. get_loop r h key (Sign (Hash key)) (ProbeDelta (ucast (Sign (Hash key)))) pos touch = (Some s, t)"
proof (induction r arbitrary: m pos touch)
  case 0
  then show ?case by simp
next
  case (Suc r)
  obtain k where k: "nchunks h = 2 ^ k" "unat (chunk_num h) = 2 ^ k"
    using pet_invpD(1) [OF inv] by (rule shapeE)
  let ?c = "chunk_table h ! unat pos"
  have p: "unat pos < nchunks h" using Suc.prems(3) path_less k(1) by simp
  show ?case
  proof (cases "find_match ?c key (MatchTag ?c (Sign (Hash key)))")
    case (Some j)
    from used_match [OF inv p Some] have "(unat pos, j) = s"
      using pet_invpD(4) [OF inv] s key by (auto dest: inj_onD)
    then show ?thesis using Some by (auto simp: Let_def)
  next
    case None
    then have "unat pos \<noteq> fst s" using stored_match [OF inv s key] by auto
    then have md: "m < d" using Suc.prems(1,3) d(2) by (cases "m = d") auto
    have "trail (nchunks h) key (fst s) = map (path (nchunks h) key) [0..<d]"
      using trail_path [OF k(1) d(1), of key] d(2) by simp
    then have "s \<in> passing h (unat pos)"
      using s key md Suc.prems(3) by (auto simp: passing_def)
    from passing_counted [OF inv this p] have o: "overflow_count ?c \<noteq> 0" .
    have "unat ((pos + ProbeDelta (ucast (Sign (Hash key)))) AND (chunk_num h - 1)) = path (nchunks h) key (Suc m)"
      using word_path_Suc [OF k(2)] Suc.prems(3) k(1) by simp
    from Suc.IH [OF _ _ this] md Suc.prems(2) None o show ?thesis by (simp add: Let_def)
  qed
qed

lemma get_loop_miss:
  assumes inv: "pet_invp P h" and key: "key \<notin> key_at h ` used h"
  shows "unat pos = path (nchunks h) key m \<Longrightarrow>
    \<exists>t. get_loop r h key (Sign (Hash key)) (ProbeDelta (ucast (Sign (Hash key)))) pos touch = (None, t)
      \<and> (settled h \<longrightarrow> t = touch)"
proof (induction r arbitrary: m pos touch)
  case 0
  then show ?case by simp
next
  case (Suc r)
  obtain k where k: "nchunks h = 2 ^ k" "unat (chunk_num h) = 2 ^ k"
    using pet_invpD(1) [OF inv] by (rule shapeE)
  let ?c = "chunk_table h ! unat pos"
  have p: "unat pos < nchunks h" using Suc.prems path_less k(1) by simp
  have None: "find_match ?c key (MatchTag ?c (Sign (Hash key))) = None"
    using used_match [OF inv p] key by (metis image_eqI option.exhaust)
  have mig: "settled h \<Longrightarrow> \<not> is_migrating ?c"
    using p by (simp add: settled_def nchunks_def)
  have "unat ((pos + ProbeDelta (ucast (Sign (Hash key)))) AND (chunk_num h - 1)) = path (nchunks h) key (Suc m)"
    using word_path_Suc [OF k(2)] Suc.prems k(1) by simp
  from Suc.IH [OF this, of "touch \<or> is_migrating ?c"] mig None show ?case
    by (auto simp: Let_def)
qed

text \<open>Once set, the mark that a migrating chunk was met stays set.\<close>

lemma get_loop_touch: "get_loop r h key sign step pos True = (loc, t) \<Longrightarrow> t"
  by (induction r arbitrary: pos) (auto simp: Let_def split: option.splits if_splits)

section \<open>Lookups\<close>

lemma get_pass_hit:
  assumes inv: "pet_invp P h" and s: "s \<in> used h"
  shows "\<exists>t. get_pass h (key_at h s) = (Some s, t)"
proof -
  obtain k where k: "nchunks h = 2 ^ k" "unat (chunk_num h) = 2 ^ k"
    using pet_invpD(1) [OF inv] by (rule shapeE)
  obtain d where "d < nchunks h" "path (nchunks h) (key_at h s) d = fst s"
    using depth_ex [OF inv s] by blast
  from get_loop_hit [OF inv s refl this, of 0 "unat (chunk_num h)"] this k
  show ?thesis by (simp add: get_pass_def Let_def word_path_0)
qed

lemma get_pass_miss:
  assumes inv: "pet_invp P h" and key: "key \<notin> key_at h ` used h"
  shows "\<exists>t. get_pass h key = (None, t) \<and> (settled h \<longrightarrow> \<not> t)"
proof -
  obtain k where k: "nchunks h = 2 ^ k" "unat (chunk_num h) = 2 ^ k"
    using pet_invpD(1) [OF inv] by (rule shapeE)
  have "unat (Hash key AND (chunk_num h - 1)) = path (nchunks h) key 0"
    using word_path_0 [OF k(2)] k(1) by simp
  from get_loop_miss [OF inv key this, of "unat (chunk_num h)" False]
  show ?thesis by (simp add: get_pass_def Let_def)
qed

lemma GetInternal_hit:
  assumes "pet_invp P h" and "s \<in> used h"
  shows "GetInternal h (key_at h s) = Some (Some s)"
  using get_pass_hit [OF assms] by (auto simp: GetInternal.simps [of h "key_at h s"])

lemma GetInternal_miss:
  assumes "pet_invp P h" and "key \<notin> key_at h ` used h" and "settled h"
  shows "GetInternal h key = Some None"
  using get_pass_miss [OF assms(1,2)] assms(3) by (auto simp: GetInternal.simps [of h key])

text \<open>A lookup that misses at a chunk left in migration retries for ever.\<close>

lemma GetInternal_spins:
  assumes "get_pass h key = (None, True)"
  shows "GetInternal h key = None"
proof (rule ccontr)
  assume "GetInternal h key \<noteq> None"
  then obtain y where "GetInternal h key = Some y" by auto
  then have "\<not> (h = h \<and> key = key \<and> get_pass h key = (None, True))"
    by (rule GetInternal.raw_induct [rotated]) (auto split: prod.splits option.splits if_splits)
  with assms show False by simp
qed

lemma get_pass_touch:
  assumes inv: "pet_invp P h" and new: "abs_map h key = None"
    and mig: "is_migrating (chunk_table h ! unat (HomeChunk h key))"
  shows "get_pass h key = (None, True)"
proof -
  obtain t where t: "get_pass h key = (None, t)"
    using get_pass_miss [OF inv] new by (auto simp: abs_map_None)
  obtain r where "unat (chunk_num h) = Suc r"
    using pet_invpD(1) [OF inv]
    by (metis shapeE gr0_implies_Suc zero_less_power zero_less_numeral)
  then show ?thesis using t mig
    by (auto simp: get_pass_def Let_def HomeChunk_def split: option.splits if_splits dest: get_loop_touch)
qed

lemma PetHash_Get_stored:
  assumes "pet_invp P h" and "abs_map h key = Some v"
  shows "PetHash_Get h key = Returns (Some v)"
proof -
  obtain s where "s \<in> used h" "key_at h s = key" "val_at h s = v"
    using abs_map_SomeD [OF assms(2)] by blast
  then show ?thesis using GetInternal_hit [OF assms(1), of s] by (simp add: PetHash_Get_def)
qed

lemma PetHash_Get_abs:
  assumes "pet_invp P h" and "settled h"
  shows "PetHash_Get h key = Returns (abs_map h key)"
proof (cases "abs_map h key")
  case None
  then have "GetInternal h key = Some None"
    using GetInternal_miss assms by (simp add: abs_map_None)
  then show ?thesis using None by (simp add: PetHash_Get_def)
next
  case (Some v)
  then show ?thesis using PetHash_Get_stored [OF assms(1)] by simp
qed

end
