(* ===== verification/Pet_Delete.thy ===== *)
theory Pet_Delete
  imports Pet_Lookup
begin

text \<open>
  Correctness of \<open>Delete\<close>: it ends, it removes exactly the entry of its key, it takes the
  entry out of the overflow counters of the chunks the entry had passed, and it keeps the
  invariant.
\<close>

section \<open>Updates of single chunks\<close>

lemma upd_chunk_fields [simp]:
  "nchunks (upd_chunk h c f) = nchunks h" "chunk_num (upd_chunk h c f) = chunk_num h"
  "capacity (upd_chunk h c f) = capacity h" "dict_size (upd_chunk h c f) = dict_size h"
  by (simp_all add: upd_chunk_def nchunks_def)

lemma dict_size_update_fields [simp]:
  "nchunks (h\<lparr>dict_size := x\<rparr>) = nchunks h" "used (h\<lparr>dict_size := x\<rparr>) = used h"
  "key_at (h\<lparr>dict_size := x\<rparr>) = key_at h" "val_at (h\<lparr>dict_size := x\<rparr>) = val_at h"
  "tag_at (h\<lparr>dict_size := x\<rparr>) = tag_at h"
  by (auto simp: nchunks_def key_at_def val_at_def tag_at_def used_iff)

lemma nth_upd_chunk:
  "q < nchunks h \<Longrightarrow>
   chunk_table (upd_chunk h c f) ! q = (if q = c then f (chunk_table h ! c) else chunk_table h ! q)"
  by (auto simp: upd_chunk_def nchunks_def nth_list_update)

lemma all_chunks_iff: "(\<forall>c \<in> set (chunk_table h). Q c) \<longleftrightarrow> (\<forall>q < nchunks h. Q (chunk_table h ! q))"
  by (auto simp: nchunks_def all_set_conv_all_nth)

section \<open>The walk along the probe chain\<close>

definition dec_all :: "PetHash \<Rightarrow> nat list \<Rightarrow> PetHash" where
  "dec_all h ps = foldl (\<lambda>g p. upd_chunk g p DecOverflow) h ps"

lemma dec_all_fields [simp]:
  "nchunks (dec_all h ps) = nchunks h" "chunk_num (dec_all h ps) = chunk_num h"
  "capacity (dec_all h ps) = capacity h" "dict_size (dec_all h ps) = dict_size h"
  by (induction ps arbitrary: h) (simp_all add: dec_all_def)

lemma nth_dec_all:
  assumes "distinct ps" and "q < nchunks h"
  shows "chunk_table (dec_all h ps) ! q =
    (if q \<in> set ps then DecOverflow (chunk_table h ! q) else chunk_table h ! q)"
  using assms
proof (induction ps arbitrary: h)
  case Nil
  then show ?case by (simp add: dec_all_def)
next
  case (Cons p ps)
  have "dec_all h (p # ps) = dec_all (upd_chunk h p DecOverflow) ps" by (simp add: dec_all_def)
  with Cons show ?case by (auto simp: nth_upd_chunk)
qed

lemma dec_walk_all:
  assumes sh: "shape h" and d: "d < nchunks h" and c: "unat chunk_id = path (nchunks h) key d"
  shows "m \<le> d \<Longrightarrow> unat pos = path (nchunks h) key m \<Longrightarrow>
    dec_walk h (ProbeDelta (ucast (Sign (Hash key)))) chunk_id pos =
    Some (dec_all h (map (path (nchunks h) key) [m..<d]))"
  using sh d c
proof (induction "d - m" arbitrary: h m pos)
  case 0
  then have "pos = chunk_id" by (simp add: word_unat_eq_iff)
  then show ?case using 0 by (simp add: dec_walk.simps [of h] dec_all_def)
next
  case (Suc x)
  obtain k where k: "nchunks h = 2 ^ k" "unat (chunk_num h) = 2 ^ k"
    using Suc.prems(3) by (rule shapeE)
  have md: "m < d" using Suc.hyps(2) by simp
  have "path (nchunks h) key m \<noteq> path (nchunks h) key d"
    using path_eq_iff [OF k(1), of m d key] md Suc.prems(4) by simp
  then have ne: "pos \<noteq> chunk_id" using Suc.prems(2,5) by auto
  let ?h = "upd_chunk h (unat pos) DecOverflow"
  let ?pos = "(pos + ProbeDelta (ucast (Sign (Hash key)))) AND (chunk_num h - 1)"
  have "unat ?pos = path (nchunks ?h) key (Suc m)"
    using word_path_Suc [OF k(2)] Suc.prems(2) k(1) by simp
  moreover have "shape ?h" using Suc.prems(3) by (simp add: shape_cong [of ?h h])
  ultimately have "dec_walk ?h (ProbeDelta (ucast (Sign (Hash key)))) chunk_id ?pos =
      Some (dec_all ?h (map (path (nchunks ?h) key) [Suc m..<d]))"
    using Suc.hyps md Suc.prems(4,5) by (intro Suc.hyps(1)) simp_all
  moreover have "dec_all h (map (path (nchunks h) key) [m..<d]) =
      dec_all ?h (map (path (nchunks ?h) key) [Suc m..<d])"
    using md Suc.prems(2) by (simp add: upt_conv_Cons dec_all_def)
  ultimately show ?case using ne by (simp add: dec_walk.simps [of h])
qed

lemma item_pos_parts:
  assumes "fst s < 2 ^ 53" and "snd s < 14"
  shows "unat (item_pos s div of_nat kChunkSize) = fst s"
    and "unat (item_pos s mod of_nat kChunkSize) = snd s"
proof -
  have "unat (item_pos s) = fst s * 14 + snd s"
    using assms by (simp add: item_pos_def kChunkSize_def kMaxSize_def unat_word_ariths unat_of_nat)
  then show "unat (item_pos s div of_nat kChunkSize) = fst s"
    "unat (item_pos s mod of_nat kChunkSize) = snd s"
    using assms by (simp_all add: kChunkSize_def kMaxSize_def unat_div_distrib unat_mod_distrib)
qed

section \<open>Deletion\<close>

definition deleted :: "PetHash \<Rightarrow> location \<Rightarrow> PetHash" where
  "deleted h s =
     (let h1 = upd_chunk (dec_all h (trail (nchunks h) (key_at h s) (fst s))) (fst s)
                 (\<lambda>c. ChunkDelete c (snd s))
      in h1\<lparr>dict_size := dict_size h1 - 1\<rparr>)"

lemma used_bounds:
  assumes "pet_invp P h" and "s \<in> used h"
  shows "fst s < 2 ^ 53" "snd s < 14" "fst s < nchunks h"
proof -
  obtain k where "nchunks h = 2 ^ k" "k \<le> 53" using pet_invpD(1) [OF assms(1)] by (rule shapeE)
  moreover have "(2 :: nat) ^ k \<le> 2 ^ 53" using \<open>k \<le> 53\<close> by (intro power_increasing) simp_all
  ultimately show "fst s < 2 ^ 53" "snd s < 14" "fst s < nchunks h"
    using assms(2) by (auto simp: used_iff)
qed

lemma PetHash_Delete_hit:
  assumes inv: "pet_invp P h" and s: "s \<in> used h"
  shows "PetHash_Delete h (key_at h s) = Returns (deleted h s)"
proof -
  obtain k where k: "nchunks h = 2 ^ k" "unat (chunk_num h) = 2 ^ k"
    using pet_invpD(1) [OF inv] by (rule shapeE)
  obtain d where d: "d < nchunks h" "path (nchunks h) (key_at h s) d = fst s"
      "trail (nchunks h) (key_at h s) (fst s) = map (path (nchunks h) (key_at h s)) [0..<d]"
    using depth_ex [OF inv s] .
  note b = item_pos_parts [OF used_bounds(1,2) [OF inv s]]
  have w: "unat (Hash (key_at h s) AND (chunk_num h - 1)) = path (nchunks h) (key_at h s) 0"
    using word_path_0 [OF k(2)] k(1) by simp
  have "dec_walk h (ProbeDelta (ucast (Sign (Hash (key_at h s))))) (item_pos s div of_nat kChunkSize)
          (Hash (key_at h s) AND (chunk_num h - 1)) =
        Some (dec_all h (trail (nchunks h) (key_at h s) (fst s)))"
    using dec_walk_all [OF pet_invpD(1) [OF inv] d(1) _ _ w] b(1) d(2,3) by simp
  then show ?thesis
    by (simp add: PetHash_Delete_def GetInternal_hit [OF inv s] Let_def b deleted_def)
qed

lemma PetHash_Delete_miss:
  assumes "pet_invp P h" and "settled h" and "key \<notin> key_at h ` used h"
  shows "PetHash_Delete h key = Returns h"
  using GetInternal_miss [OF assms(1,3,2)] by (simp add: PetHash_Delete_def)

lemma distinct_trail:
  assumes "n = 2 ^ k"
  shows "distinct (trail n key c)"
proof -
  have "distinct (map (path n key) [0..<n])"
    using path_inj [OF assms] by (simp add: distinct_map atLeast0LessThan)
  then show ?thesis unfolding trail_def by (rule distinct_takeWhile)
qed

lemma trail_avoids: "c \<notin> set (trail n key c)"
  by (auto simp: trail_def dest: set_takeWhileD)

lemma nth_deleted:
  assumes "pet_invp P h" and "q < nchunks h"
  shows "chunk_table (deleted h s) ! q =
    (if q = fst s then ChunkDelete (chunk_table h ! q) (snd s)
     else if q \<in> set (trail (nchunks h) (key_at h s) (fst s)) then DecOverflow (chunk_table h ! q)
     else chunk_table h ! q)"
proof -
  obtain k where k: "nchunks h = 2 ^ k" using pet_invpD(1) [OF assms(1)] by (rule shapeE)
  show ?thesis
    using assms(2) trail_avoids [of "fst s" "nchunks h" "key_at h s"]
    by (auto simp: deleted_def Let_def nth_upd_chunk nth_dec_all [OF distinct_trail [OF k]])
qed

lemma deleted_fields [simp]:
  "nchunks (deleted h s) = nchunks h" "chunk_num (deleted h s) = chunk_num h"
  "capacity (deleted h s) = capacity h" "dict_size (deleted h s) = dict_size h - 1"
  by (simp_all add: deleted_def Let_def)

lemma used_deleted:
  assumes inv: "pet_invp P h" and s: "s \<in> used h"
  shows "used (deleted h s) = used h - {s}"
proof -
  have "t \<in> used (deleted h s) \<longleftrightarrow> t \<in> used h \<and> t \<noteq> s" for t
  proof (cases "fst t < nchunks h \<and> snd t < 14")
    case True
    have "length (tags (chunk_table h ! fst s)) = 14" "snd s < 14"
      using chunk_wfD(1) pet_invpD(2) [OF inv] s by (auto simp: used_iff)
    with True show ?thesis
      by (cases t; cases s) (auto simp: used_iff nth_deleted [OF inv] InUse_def ChunkDelete_def nth_list_update)
  qed (auto simp: used_iff)
  then show ?thesis by blast
qed

lemma entry_deleted:
  assumes inv: "pet_invp P h" and s: "s \<in> used h" and "t \<in> used (deleted h s)"
  shows "key_at (deleted h s) t = key_at h t" "val_at (deleted h s) t = val_at h t"
    "tag_at (deleted h s) t = tag_at h t"
proof -
  have "t \<noteq> s" "fst t < nchunks h" using assms(3) by (auto simp: used_deleted [OF inv s] used_iff)
  then show "key_at (deleted h s) t = key_at h t" "val_at (deleted h s) t = val_at h t"
      "tag_at (deleted h s) t = tag_at h t"
    by (cases t; cases s;
        auto simp: key_at_def val_at_def tag_at_def nth_deleted [OF inv] ChunkDelete_def nth_list_update)+
qed

lemma passing_deleted:
  assumes inv: "pet_invp P h" and s: "s \<in> used h"
  shows "passing (deleted h s) p = passing h p - {s}"
  using entry_deleted(1) [OF inv s] by (auto simp: passing_def used_deleted [OF inv s])

lemma overflow_deleted:
  assumes inv: "pet_invp P h" and s: "s \<in> used h" and p: "p < nchunks h"
  shows "overflow_bound (deleted h s) P p"
proof -
  have b: "overflow_bound h P p" using pet_invpD(6) [OF inv p] .
  let ?c = "chunk_table h ! p"
  show ?thesis
  proof (cases "p \<in> set (trail (nchunks h) (key_at h s) (fst s))")
    case True
    then have ne: "p \<noteq> fst s" using trail_avoids by metis
    have pas: "s \<in> passing h p" using True s by (simp add: passing_def)
    then have c: "card (passing h p - {s}) + 1 = card (passing h p)"
      by (metis Suc_eq_plus1 card_Suc_Diff1 finite_passing)
    have "overflow_count ?c \<noteq> 0" using passing_counted [OF inv pas p] .
    then have "unat (overflow_count ?c - 1) = unat (overflow_count ?c) - 1"
      by (simp add: unat_minus_one)
    then show ?thesis using b c True ne
      by (auto simp: overflow_bound_def passing_deleted [OF inv s] nth_deleted [OF inv p] DecOverflow_def)
  next
    case False
    then have "overflow_count (chunk_table (deleted h s) ! p) = overflow_count ?c"
      by (simp add: nth_deleted [OF inv p] ChunkDelete_def)
    moreover have "card (passing h p - {s}) \<le> card (passing h p)"
      by (rule card_mono) auto
    ultimately show ?thesis using b by (auto simp: overflow_bound_def passing_deleted [OF inv s])
  qed
qed

lemma inv_deleted:
  assumes inv: "pet_invp P h" and s: "s \<in> used h"
  shows "pet_invp P (deleted h s)"
proof -
  have "inj_on (key_at (deleted h s)) (used (deleted h s))"
    using abs_map_remove(2) [OF pet_invpD(4) [OF inv] s used_deleted [OF inv s]] entry_deleted [OF inv s] by blast
  moreover have "chunk_wf (chunk_table (deleted h s) ! q)" if "q < nchunks h" for q
    using pet_invpD(2) [OF inv that] s chunk_wf_ChunkDelete
    by (auto simp: nth_deleted [OF inv that] used_iff)
  moreover have "unat (dict_size h - 1) = card (used h - {s})"
  proof -
    have c: "card (used h - {s}) + 1 = card (used h)"
      using s by (metis Suc_eq_plus1 card_Suc_Diff1 finite_used)
    then have "dict_size h \<noteq> 0" using pet_invpD(5) [OF inv] by auto
    then show ?thesis using c pet_invpD(5) [OF inv] by (simp add: unat_minus_one)
  qed
  ultimately show ?thesis
    using pet_invpD(1,3) [OF inv] entry_deleted [OF inv s] overflow_deleted [OF inv s]
    by (auto simp: pet_invp_def all_chunks_iff used_deleted [OF inv s] shape_cong [of "deleted h s" h])
qed

lemma abs_deleted:
  assumes inv: "pet_invp P h" and s: "s \<in> used h"
  shows "abs_map (deleted h s) = (abs_map h)(key_at h s := None)"
  using abs_map_remove(1) [OF pet_invpD(4) [OF inv] s used_deleted [OF inv s]] entry_deleted [OF inv s] by blast

lemma migrating_deleted:
  assumes inv: "pet_invp P h"
  shows "q < nchunks h \<Longrightarrow> is_migrating (chunk_table (deleted h s) ! q) = is_migrating (chunk_table h ! q)"
  by (simp add: nth_deleted [OF inv] ChunkDelete_def)

lemma marked_iff:
  "marked h \<longleftrightarrow> (\<forall>q < nchunks h. \<forall>i < 14.
     tags (chunk_table h ! q) ! i = 0 \<longleftrightarrow> first (vals (chunk_table h ! q) ! i) = -1)"
  by (auto simp: marked_def all_chunks_iff)

lemma marked_deleted:
  assumes inv: "pet_invp P h" and m: "marked h"
  shows "marked (deleted h s)"
proof -
  have "length (tags (chunk_table h ! q)) = 14" "length (vals (chunk_table h ! q)) = 14" if "q < nchunks h" for q
    using chunk_wfD(1,2) pet_invpD(2) [OF inv that] by auto
  then show ?thesis using m
    by (auto simp: marked_iff nth_deleted [OF inv] ChunkDelete_def nth_list_update_any)
qed

lemma settled_iff: "settled h \<longleftrightarrow> (\<forall>q < nchunks h. \<not> is_migrating (chunk_table h ! q))"
  by (simp add: settled_def all_chunks_iff)

lemma PetHash_Delete_abs:
  assumes inv: "pet_invp P h" and set: "settled h"
  shows "\<exists>h'. PetHash_Delete h key = Returns h' \<and> pet_invp P h' \<and> settled h' \<and>
    nchunks h' = nchunks h \<and> abs_map h' = (abs_map h)(key := None)"
proof (cases "key \<in> key_at h ` used h")
  case True
  then obtain s where s: "s \<in> used h" and key: "key = key_at h s" by auto
  have "settled (deleted h s)" using set migrating_deleted [OF inv] by (simp add: settled_iff)
  then show ?thesis
    using PetHash_Delete_hit [OF inv s] inv_deleted [OF inv s] abs_deleted [OF inv s] key by simp
next
  case False
  then have "(abs_map h)(key := None) = abs_map h" by (auto simp: abs_map_None [symmetric])
  then show ?thesis using PetHash_Delete_miss [OF inv set False] inv set by simp
qed

end
