(* ===== verification/Pet_Insert.thy ===== *)
theory Pet_Insert
  imports Pet_Delete
begin

text \<open>
  Correctness of \<open>Insert\<close> and \<open>Set\<close>: with room in the table, or with a forced insertion
  in a table of at least two chunks, they return, store the pair and keep the invariant;
  without expired entries and below the load limit no other entry is lost, and a forced
  insertion into a full table evicts one entry at most.
\<close>

section \<open>Writing a value\<close>

lemma store_val_fields [simp]:
  "q < nchunks h \<Longrightarrow> tags (chunk_table (store_val h s v) ! q) = tags (chunk_table h ! q)"
  "q < nchunks h \<Longrightarrow> ch_size (chunk_table (store_val h s v) ! q) = ch_size (chunk_table h ! q)"
  "q < nchunks h \<Longrightarrow> overflow_count (chunk_table (store_val h s v) ! q) = overflow_count (chunk_table h ! q)"
  "q < nchunks h \<Longrightarrow> is_migrating (chunk_table (store_val h s v) ! q) = is_migrating (chunk_table h ! q)"
  "nchunks (store_val h s v) = nchunks h" "chunk_num (store_val h s v) = chunk_num h"
  "capacity (store_val h s v) = capacity h" "dict_size (store_val h s v) = dict_size h"
  by (simp_all add: store_val_def nth_upd_chunk)

lemma store_val_entries:
  assumes inv: "pet_invp P h" and s: "s \<in> used h"
  shows "used (store_val h s v) = used h"
    and "t \<in> used h \<Longrightarrow> key_at (store_val h s v) t = key_at h t"
    and "t \<in> used h \<Longrightarrow> val_at (store_val h s v) t = (if t = s then v else val_at h t)"
    and "t \<in> used h \<Longrightarrow> tag_at (store_val h s v) t = tag_at h t"
proof -
  have l: "length (vals (chunk_table h ! fst s)) = 14" "snd s < 14"
    using chunk_wfD(2) pet_invpD(2) [OF inv] s by (auto simp: used_iff)
  show "used (store_val h s v) = used h"
    by (auto simp: used_iff set_eq_iff InUse_def)
  assume "t \<in> used h"
  then have "fst t < nchunks h" by (simp add: used_iff)
  with l show "key_at (store_val h s v) t = key_at h t"
    "val_at (store_val h s v) t = (if t = s then v else val_at h t)"
    "tag_at (store_val h s v) t = tag_at h t"
    by (cases t; cases s;
        auto simp: key_at_def val_at_def tag_at_def store_val_def nth_upd_chunk nth_list_update)+
qed

lemma inv_store_val:
  assumes inv: "pet_invp P h" and s: "s \<in> used h"
  shows "pet_invp P (store_val h s v)"
proof -
  note e = store_val_entries [OF inv s]
  have "passing (store_val h s v) p = passing h p" for p
    using e by (auto simp: passing_def)
  then have "overflow_bound (store_val h s v) P p" if "p < nchunks h" for p
    using pet_invpD(6) [OF inv that] that by (simp add: overflow_bound_def)
  moreover have "inj_on (key_at (store_val h s v)) (used h)"
    using pet_invpD(4) [OF inv] e(2) by (simp add: inj_on_def)
  moreover have "chunk_wf (chunk_table (store_val h s v) ! q)" if "q < nchunks h" for q
    using pet_invpD(2) [OF inv that] that by (auto simp: store_val_def nth_upd_chunk chunk_wf_def)
  moreover have "shape (store_val h s v)"
    using pet_invpD(1) [OF inv] by (simp add: shape_cong [of "store_val h s v" h])
  ultimately show ?thesis
    using pet_invpD(3,5) [OF inv] e by (simp add: pet_invp_def all_chunks_iff)
qed

lemma abs_store_val:
  assumes inv: "pet_invp P h" and s: "s \<in> used h"
  shows "abs_map (store_val h s v) = (abs_map h)(key_at h s \<mapsto> v)"
proof
  note e = store_val_entries [OF inv s]
  note i = pet_invpD(4) [OF inv_store_val [OF inv s]] and j = pet_invpD(4) [OF inv]
  fix k
  show "abs_map (store_val h s v) k = ((abs_map h)(key_at h s \<mapsto> v)) k"
  proof (cases "abs_map (store_val h s v) k")
    case None
    then have "k \<notin> key_at h ` used h" using e by (auto simp: abs_map_None)
    moreover from this have "k \<noteq> key_at h s" using s by auto
    ultimately show ?thesis using None by (simp add: abs_map_None [symmetric])
  next
    case (Some w)
    then obtain t where t: "t \<in> used h" "key_at h t = k" "val_at (store_val h s v) t = w"
      using abs_map_SomeD [OF Some] e by auto
    show ?thesis
    proof (cases "t = s")
      case True
      then show ?thesis using t e(3) [OF s, of v] Some by simp
    next
      case False
      then have "k \<noteq> key_at h s" using t(1,2) s j by (metis inj_onD)
      then show ?thesis using Some t False e(3) [OF t(1), of v] abs_map_SomeI [OF j t(1)] by simp
    qed
  qed
qed

lemma settled_store_val [simp]: "settled (store_val h s v) \<longleftrightarrow> settled h"
  by (simp add: settled_iff)

lemma marked_store_val:
  assumes inv: "pet_invp P h" and m: "marked h"
  shows "marked (store_val h s v)"
proof -
  have "length (vals (chunk_table h ! q)) = 14" if "q < nchunks h" for q
    using chunk_wfD(2) pet_invpD(2) [OF inv that] by auto
  then show ?thesis using m
    by (auto simp: marked_iff store_val_def nth_upd_chunk nth_list_update_any)
qed

section \<open>Raising an overflow counter\<close>

lemma inc_fields [simp]:
  "q < nchunks h \<Longrightarrow> tags (chunk_table (upd_chunk h p IncOverflow) ! q) = tags (chunk_table h ! q)"
  "q < nchunks h \<Longrightarrow> vals (chunk_table (upd_chunk h p IncOverflow) ! q) = vals (chunk_table h ! q)"
  "q < nchunks h \<Longrightarrow> ch_size (chunk_table (upd_chunk h p IncOverflow) ! q) = ch_size (chunk_table h ! q)"
  "q < nchunks h \<Longrightarrow> is_migrating (chunk_table (upd_chunk h p IncOverflow) ! q) = is_migrating (chunk_table h ! q)"
  by (simp_all add: nth_upd_chunk)

lemma inc_entries:
  shows "used (upd_chunk h p IncOverflow) = used h"
    and "t \<in> used h \<Longrightarrow> key_at (upd_chunk h p IncOverflow) t = key_at h t"
    and "t \<in> used h \<Longrightarrow> val_at (upd_chunk h p IncOverflow) t = val_at h t"
    and "t \<in> used h \<Longrightarrow> tag_at (upd_chunk h p IncOverflow) t = tag_at h t"
  by (auto simp: used_iff InUse_def key_at_def val_at_def tag_at_def)

lemma abs_inc: "abs_map (upd_chunk h p IncOverflow) = abs_map h"
proof -
  have "used_list (upd_chunk h p IncOverflow) = used_list h"
    unfolding used_list_def by (rule filter_cong) (auto simp: InUse_def)
  moreover have "map (\<lambda>s. (key_at (upd_chunk h p IncOverflow) s, val_at (upd_chunk h p IncOverflow) s)) (used_list h) =
      map (\<lambda>s. (key_at h s, val_at h s)) (used_list h)"
    by (rule map_cong) (auto simp: inc_entries used_def)
  ultimately show ?thesis unfolding abs_map_def by (simp only:)
qed

lemma u8_Suc:
  fixes c :: u8
  assumes "c \<noteq> 255"
  shows "unat (c + 1) = unat c + 1"
proof -
  have "unat c < 2 ^ LENGTH(8)" by (rule unsigned_less)
  moreover have "unat c \<noteq> 255" using assms by (simp add: word_unat_eq_iff)
  ultimately show ?thesis by (simp add: unat_word_ariths)
qed

lemma inv_inc:
  assumes inv: "pet_invp P h" and p: "p < nchunks h" and new: "p \<notin> P"
  shows "pet_invp (insert p P) (upd_chunk h p IncOverflow)"
proof -
  let ?h = "upd_chunk h p IncOverflow"
  note e = inc_entries [where h = h and p = p]
  have pas: "passing ?h q = passing h q" for q
    using e by (auto simp: passing_def)
  have "overflow_bound ?h (insert p P) q" if q: "q < nchunks h" for q
  proof (cases "q = p")
    case True
    have "overflow_count (chunk_table h ! p) \<noteq> 255 \<Longrightarrow>
        unat (overflow_count (chunk_table h ! p) + 1) = unat (overflow_count (chunk_table h ! p)) + 1"
      by (rule u8_Suc)
    then show ?thesis using pet_invpD(6) [OF inv p] new True p
      by (auto simp: overflow_bound_def pas IncOverflow_def nth_upd_chunk)
  next
    case False
    then show ?thesis using pet_invpD(6) [OF inv q] q by (simp add: overflow_bound_def pas nth_upd_chunk)
  qed
  moreover have "inj_on (key_at ?h) (used h)"
    using pet_invpD(4) [OF inv] e(2) by (simp add: inj_on_def)
  moreover have "chunk_wf (chunk_table ?h ! q)" if "q < nchunks h" for q
    using pet_invpD(2) [OF inv that] that by (auto simp: nth_upd_chunk)
  ultimately show ?thesis
    using pet_invpD(1,3,5) [OF inv] e
    by (simp add: pet_invp_def all_chunks_iff shape_cong [of ?h h])
qed

lemma settled_inc [simp]: "settled (upd_chunk h p IncOverflow) \<longleftrightarrow> settled h"
  by (simp add: settled_iff)

lemma marked_inc [simp]: "marked (upd_chunk h p IncOverflow) \<longleftrightarrow> marked h"
  by (simp add: marked_iff)

section \<open>Using a free slot\<close>

text \<open>The table after \<open>F14Chunk::Insert\<close> put an entry into chunk \<open>c\<close>.\<close>

definition placed :: "PetHash \<Rightarrow> nat \<Rightarrow> u64 \<Rightarrow> u64 \<Rightarrow> PetHash" where
  "placed h c key value =
     (let h1 = upd_chunk h c (\<lambda>ch. ChunkSet (ch\<lparr>ch_size := ch_size ch + 1\<rparr>)
                 (ctz (MatchTag ch 0)) (Sign (Hash key)) \<lparr>first = key, second = value\<rparr>)
      in h1\<lparr>dict_size := dict_size h1 + 1\<rparr>)"

definition free_slot :: "PetHash \<Rightarrow> nat \<Rightarrow> location" where
  "free_slot h c = (c, ctz (MatchTag (chunk_table h ! c) 0))"

lemma placed_fields [simp]:
  "nchunks (placed h c key v) = nchunks h" "chunk_num (placed h c key v) = chunk_num h"
  "capacity (placed h c key v) = capacity h" "dict_size (placed h c key v) = dict_size h + 1"
  "q < nchunks h \<Longrightarrow> overflow_count (chunk_table (placed h c key v) ! q) = overflow_count (chunk_table h ! q)"
  "q < nchunks h \<Longrightarrow> is_migrating (chunk_table (placed h c key v) ! q) = is_migrating (chunk_table h ! q)"
  by (simp_all add: placed_def Let_def nth_upd_chunk ChunkSet_def)

lemma settled_placed [simp]: "settled (placed h c key v) \<longleftrightarrow> settled h"
  by (simp add: settled_iff)

lemma free_slotD:
  assumes "pet_invp P h" and "c < nchunks h" and "unat (ch_size (chunk_table h ! c)) < 14"
  shows "free_slot h c \<notin> used h" "snd (free_slot h c) < 14"
  using free_slot_mask [OF pet_invpD(2) [OF assms(1,2)] assms(3)]
  by (auto simp: free_slot_def used_iff InUse_def)

lemma placed_entries:
  assumes inv: "pet_invp P h" and c: "c < nchunks h" and sz: "unat (ch_size (chunk_table h ! c)) < 14"
  shows "used (placed h c key v) = insert (free_slot h c) (used h)"
    and "t \<in> used h \<Longrightarrow> key_at (placed h c key v) t = key_at h t"
    and "t \<in> used h \<Longrightarrow> val_at (placed h c key v) t = val_at h t"
    and "t \<in> used h \<Longrightarrow> tag_at (placed h c key v) t = tag_at h t"
    and "key_at (placed h c key v) (free_slot h c) = key"
    and "val_at (placed h c key v) (free_slot h c) = v"
    and "tag_at (placed h c key v) (free_slot h c) = Sign (Hash key)"
proof -
  let ?i = "ctz (MatchTag (chunk_table h ! c) 0)"
  have i: "?i < 14" using free_slotD(2) [OF assms] by (simp add: free_slot_def)
  have l: "length (vals (chunk_table h ! c)) = 14" "length (tags (chunk_table h ! c)) = 14"
    using chunk_wfD(1,2) pet_invpD(2) [OF inv c] by auto
  note d = placed_def Let_def nth_upd_chunk ChunkSet_def free_slot_def
  have "t \<in> used (placed h c key v) \<longleftrightarrow> t = free_slot h c \<or> t \<in> used h" for t
    using i l c by (cases t) (auto simp: used_iff InUse_def d nth_list_update Sign_nonzero split: if_splits)
  then show "used (placed h c key v) = insert (free_slot h c) (used h)" by blast
  show "key_at (placed h c key v) (free_slot h c) = key"
    "val_at (placed h c key v) (free_slot h c) = v"
    "tag_at (placed h c key v) (free_slot h c) = Sign (Hash key)"
    using i l c by (simp_all add: key_at_def val_at_def tag_at_def d)
  assume t: "t \<in> used h"
  then have "t \<noteq> (c, ?i)" using free_slotD(1) [OF assms] by (auto simp: free_slot_def)
  then have "fst t = c \<Longrightarrow> ?i \<noteq> snd t" by (cases t) auto
  moreover have "fst t < nchunks h" using t by (simp add: used_iff)
  ultimately show "key_at (placed h c key v) t = key_at h t"
    "val_at (placed h c key v) t = val_at h t" "tag_at (placed h c key v) t = tag_at h t"
    using i l c by (auto simp: key_at_def val_at_def tag_at_def d)
qed

lemma marked_placed:
  assumes inv: "pet_invp P h" and m: "marked h" and key: "key \<noteq> -1"
  shows "marked (placed h c key v)"
proof -
  have "length (tags (chunk_table h ! q)) = 14" "length (vals (chunk_table h ! q)) = 14" if "q < nchunks h" for q
    using chunk_wfD(1,2) pet_invpD(2) [OF inv that] by auto
  then show ?thesis using m key Sign_nonzero
    by (auto simp: marked_iff placed_def Let_def nth_upd_chunk ChunkSet_def nth_list_update_any)
qed

lemma abs_placed:
  assumes inv: "pet_invp P h" and c: "c < nchunks h" and sz: "unat (ch_size (chunk_table h ! c)) < 14"
    and new: "key \<notin> key_at h ` used h"
  shows "abs_map (placed h c key v) = (abs_map h)(key \<mapsto> v)"
    and "inj_on (key_at (placed h c key v)) (used (placed h c key v))"
  using abs_map_add [OF pet_invpD(4) [OF inv] placed_entries(1) [OF inv c sz] free_slotD(1) [OF inv c sz]]
    placed_entries [OF inv c sz] new by simp_all

lemma card_used_le:
  "card (used h) \<le> 14 * nchunks h"
proof -
  have "length (used_list h) \<le> length (List.product [0..<nchunks h] [0..<14])"
    unfolding used_list_def by (rule length_filter_le)
  then show ?thesis by (simp add: card_used mult.commute)
qed

lemma inv_placed:
  assumes inv: "pet_invp P h" and c: "c < nchunks h" and sz: "unat (ch_size (chunk_table h ! c)) < 14"
    and new: "key \<notin> key_at h ` used h" and P: "set (trail (nchunks h) key c) \<subseteq> P"
  shows "pet_inv (placed h c key v)"
proof -
  let ?h = "placed h c key v" and ?s = "free_slot h c"
  note e = placed_entries [OF inv c sz, where key = key and v = v]
  have pas: "passing ?h p = (if p \<in> set (trail (nchunks h) key c) then insert ?s (passing h p) else passing h p)" for p
    using e by (auto simp: passing_def free_slot_def)
  have "overflow_bound ?h {} p" if p: "p < nchunks h" for p
    using pet_invpD(6) [OF inv p] P p card_insert_le_m1 [of "card (passing h p) + 1" "passing h p" ?s]
    by (auto simp: overflow_bound_def pas card_insert_if)
  moreover have "chunk_wf (chunk_table ?h ! q)" if q: "q < nchunks h" for q
    using pet_invpD(2) [OF inv q] q free_slot_mask [OF pet_invpD(2) [OF inv c] sz]
      chunk_wf_use_slot Sign_nonzero
    by (auto simp: placed_def Let_def nth_upd_chunk)
  moreover have "unat (dict_size h + 1) = card (used ?h)"
  proof -
    obtain k where k: "nchunks h = 2 ^ k" "k \<le> 53" using pet_invpD(1) [OF inv] by (rule shapeE)
    then have "nchunks h \<le> 2 ^ 53" by (simp only: power_increasing)
    then have "unat (dict_size h) + 1 < 2 ^ 64"
      using card_used_le [of h] pet_invpD(5) [OF inv] by simp
    then show ?thesis
      using free_slotD(1) [OF inv c sz] e(1) pet_invpD(5) [OF inv] by (simp add: unat_word_ariths)
  qed
  ultimately show ?thesis
    using pet_invpD(1,3) [OF inv] e abs_placed(2) [OF inv c sz new, of v]
    by (simp add: pet_invp_def all_chunks_iff shape_cong [of ?h h])
qed

end
