(* ===== verification/Pet_Insert_Loop.thy ===== *)
theory Pet_Insert_Loop
  imports Pet_Insert
begin

text \<open>
  The loop of \<open>Insert\<close>: the scan for expired entries, the walk along the probe sequence,
  the forced eviction, and the theorem that the loop stores its pair and returns.
\<close>

section \<open>Full chunks and full tables\<close>

definition chunk_full :: "PetHash \<Rightarrow> nat \<Rightarrow> bool" where
  "chunk_full h c \<longleftrightarrow> unat (ch_size (chunk_table h ! c)) \<ge> 14"

lemma chunk_full_iff:
  assumes inv: "pet_invp P h" and c: "c < nchunks h"
  shows "chunk_full h c \<longleftrightarrow> (\<forall>i < 14. (c, i) \<in> used h)"
proof
  assume "chunk_full h c"
  then show "\<forall>i < 14. (c, i) \<in> used h"
    using full_chunk_InUse [OF pet_invpD(2) [OF inv c]] c by (simp add: chunk_full_def used_iff)
next
  assume a: "\<forall>i < 14. (c, i) \<in> used h"
  show "chunk_full h c"
  proof (rule ccontr)
    assume "\<not> chunk_full h c"
    then have "unat (ch_size (chunk_table h ! c)) < 14" by (simp add: chunk_full_def)
    from free_slotD [OF inv c this] a show False by (auto simp: free_slot_def)
  qed
qed

lemma Full_iff:
  assumes inv: "pet_invp P h"
  shows "Full h \<longleftrightarrow> 100 * card (used h) \<ge> 1260 * nchunks h"
proof -
  obtain k where k: "nchunks h = 2 ^ k" "k \<le> 53" "unat (capacity h) = 14 * 2 ^ k"
    using pet_invpD(1) [OF inv] by (rule shapeE)
  then have n: "nchunks h \<le> 2 ^ 53" by (simp only: power_increasing)
  have "unat (dict_size h * 100) = 100 * card (used h)"
    using card_used_le [of h] pet_invpD(5) [OF inv] n by (simp add: unat_word_ariths)
  moreover have "unat (capacity h * kMaxLoadFactor) = 1260 * nchunks h"
    using k(1,3) n by (simp add: unat_word_ariths kMaxLoadFactor_def)
  ultimately show ?thesis by (simp add: Full_def word_le_nat_alt)
qed

lemma Full_mono:
  assumes "pet_invp P h" and "pet_invp Q h'" and "nchunks h' = nchunks h" and "used h' \<subseteq> used h"
    and "Full h'"
  shows "Full h"
proof -
  have "card (used h') \<le> card (used h)" using assms(4) by (simp add: card_mono)
  then show ?thesis using assms(3,5) Full_iff [OF assms(1)] Full_iff [OF assms(2)] by simp
qed

lemma all_full_Full:
  assumes inv: "pet_invp P h" and all: "\<And>q. q < nchunks h \<Longrightarrow> chunk_full h q"
  shows "Full h"
proof -
  have "{..<nchunks h} \<times> {..<14} \<subseteq> used h"
    using chunk_full_iff [OF inv] all by auto
  then have "card ({..<nchunks h} \<times> {..<14 :: nat}) \<le> card (used h)"
    by (intro card_mono) simp_all
  then show ?thesis using Full_iff [OF inv] by simp
qed

section \<open>Removing entries of one chunk\<close>

text \<open>
  \<open>thinned c h h'\<close>: \<open>h'\<close> is \<open>h\<close> after some entries of chunk \<open>c\<close> have been deleted.
\<close>

definition thinned :: "nat \<Rightarrow> PetHash \<Rightarrow> PetHash \<Rightarrow> bool" where
  "thinned c h h' \<longleftrightarrow> nchunks h' = nchunks h \<and> chunk_num h' = chunk_num h \<and>
     capacity h' = capacity h \<and>
     (\<forall>q < nchunks h. is_migrating (chunk_table h' ! q) = is_migrating (chunk_table h ! q)) \<and>
     used h' \<subseteq> used h \<and> (\<forall>s \<in> used h - used h'. fst s = c) \<and> (marked h \<longrightarrow> marked h') \<and>
     (\<exists>D. abs_map h' = abs_map h |` (- D))"

lemma thinned_refl [simp]: "thinned c h h"
proof -
  have "abs_map h = abs_map h |` (- {})" by (simp add: restrict_map_def)
  then show ?thesis unfolding thinned_def by blast
qed

lemma thinned_trans:
  assumes a: "thinned c h h1" and b: "thinned c h1 h2"
  shows "thinned c h h2"
proof -
  obtain D1 D2 where "abs_map h1 = abs_map h |` (- D1)" "abs_map h2 = abs_map h1 |` (- D2)"
    using a b unfolding thinned_def by blast
  then have "abs_map h2 = abs_map h |` (- (D1 \<union> D2))" by (simp add: Compl_Un)
  then have "\<exists>D. abs_map h2 = abs_map h |` (- D)" by blast
  then show ?thesis using a b unfolding thinned_def by (simp, blast)
qed

lemma thinned_deleted:
  assumes inv: "pet_invp P h" and s: "s \<in> used h"
  shows "thinned (fst s) h (deleted h s)"
proof -
  have "abs_map (deleted h s) = abs_map h |` (- {key_at h s})"
    using abs_deleted [OF inv s] by (simp add: restrict_complement_singleton_eq)
  then show ?thesis unfolding thinned_def
    using migrating_deleted [OF inv] used_deleted [OF inv s] marked_deleted [OF inv] by auto
qed

lemma expire_scan_ok:
  assumes "pet_invp P h" and "c < nchunks h" and "set sids \<subseteq> {..<14}"
  shows "\<exists>h'. expire_scan check sids c h = Returns h' \<and> pet_invp P h' \<and> thinned c h h'"
  using assms
proof (induction sids arbitrary: h)
  case Nil
  then show ?case by simp
next
  case (Cons i sids)
  let ?e = "vals (chunk_table h ! c) ! i"
  show ?case
  proof (cases "InUse (chunk_table h ! c) i \<and> \<not> check (first ?e) (second ?e) False")
    case True
    then have s: "(c, i) \<in> used h" using Cons.prems by (simp add: used_iff)
    have key: "first ?e = key_at h (c, i)" by (simp add: key_at_def)
    have "expire_scan check (i # sids) c h = expire_scan check sids c (deleted h (c, i))"
      using True PetHash_Delete_hit [OF Cons.prems(1) s] by (simp add: Let_def key)
    moreover obtain h' where "expire_scan check sids c (deleted h (c, i)) = Returns h'"
        "pet_invp P h'" "thinned c (deleted h (c, i)) h'"
      using Cons.IH [OF inv_deleted [OF Cons.prems(1) s]] Cons.prems(2,3) by auto
    ultimately show ?thesis
      using thinned_deleted [OF Cons.prems(1) s] thinned_trans by auto
  next
    case False
    then have "expire_scan check (i # sids) c h = expire_scan check sids c h"
      by (auto simp: Let_def)
    then show ?thesis using Cons.IH [OF Cons.prems(1,2)] Cons.prems(3) by simp
  qed
qed

lemma expire_chunk_ok:
  assumes "pet_invp P h" and "c < nchunks h"
  shows "\<exists>h'. expire_chunk cf c h = Returns h' \<and> pet_invp P h' \<and> thinned c h h' \<and>
    (cf = None \<longrightarrow> h' = h)"
proof (cases cf)
  case None
  then show ?thesis using assms by (simp add: expire_chunk_def)
next
  case (Some check)
  have "set [0..<kChunkSize] \<subseteq> {..<14}" by (auto simp: kChunkSize_def kMaxSize_def)
  from expire_scan_ok [OF assms this, of check] Some assms show ?thesis
    by (auto simp: expire_chunk_def)
qed

section \<open>The loop\<close>

text \<open>
  What an insertion of \<open>key\<close> achieves: the pair is stored at \<open>s\<close>, the invariant holds, and
  the other keys keep their values or, for a set \<open>D\<close> of keys, are lost.
\<close>

definition stored :: "PetHash \<Rightarrow> u64 \<Rightarrow> u64 \<Rightarrow> u64 set \<Rightarrow> PetHash \<Rightarrow> location \<Rightarrow> bool" where
  "stored h key value D h' s \<longleftrightarrow> pet_inv h' \<and> s \<in> used h' \<and> key_at h' s = key \<and> val_at h' s = value \<and>
     abs_map h' = (abs_map h |` (- D))(key \<mapsto> value) \<and>
     nchunks h' = nchunks h \<and> (settled h \<longrightarrow> settled h') \<and> (marked h \<and> key \<noteq> -1 \<longrightarrow> marked h')"

lemma stored_thinned:
  assumes "thinned c h h1" and "stored h1 key v D h' s"
  shows "\<exists>D'. stored h key v D' h' s"
proof -
  obtain D1 where "abs_map h1 = abs_map h |` (- D1)" using assms(1) unfolding thinned_def by blast
  then have "abs_map h' = (abs_map h |` (- (D1 \<union> D)))(key \<mapsto> v)"
    using assms(2) by (simp add: stored_def Compl_Un)
  moreover have "settled h \<Longrightarrow> settled h1" using assms(1) by (simp add: thinned_def settled_iff)
  ultimately have "stored h key v (D1 \<union> D) h' s"
    using assms by (simp add: stored_def thinned_def)
  then show ?thesis ..
qed

lemma stored_deleted:
  assumes inv: "pet_invp P h" and e: "e \<in> used h" and st: "stored (deleted h e) key v {} h' s"
  shows "stored h key v {key_at h e} h' s"
proof -
  have "settled h \<Longrightarrow> settled (deleted h e)" using migrating_deleted [OF inv] by (simp add: settled_iff)
  then show ?thesis
    using st abs_deleted [OF inv e]
    by (auto simp: stored_def restrict_map_def fun_upd_def fun_eq_iff marked_deleted [OF inv])
qed

text \<open>The last iteration: the chunk has a free slot.\<close>

lemma place_stored:
  assumes inv: "pet_invp (path (nchunks h) key ` {..<m}) h" and m: "m < nchunks h"
    and new: "abs_map h key = None" and room: "\<not> chunk_full h (path (nchunks h) key m)"
  shows "stored h key v {} (placed h (path (nchunks h) key m) key v) (free_slot h (path (nchunks h) key m))"
proof -
  let ?c = "path (nchunks h) key m"
  obtain k where k: "nchunks h = 2 ^ k" using pet_invpD(1) [OF inv] by (rule shapeE)
  have c: "?c < nchunks h" using path_less m by simp
  have sz: "unat (ch_size (chunk_table h ! ?c)) < 14" using room by (simp add: chunk_full_def)
  have nk: "key \<notin> key_at h ` used h" using new by (simp add: abs_map_None)
  have "set (trail (nchunks h) key ?c) \<subseteq> path (nchunks h) key ` {..<m}"
    using trail_path [OF k m, of key] by auto
  note i = inv_placed [OF inv c sz nk this]
  show ?thesis
    using i placed_entries [OF inv c sz, where key = key and v = v] abs_placed(1) [OF inv c sz nk]
      marked_placed [OF inv] by (simp add: stored_def restrict_map_def)
qed

lemma absent_no_match:
  assumes "pet_invp P h" and "c < nchunks h" and "abs_map h key = None"
  shows "find_match (chunk_table h ! c) key (MatchTag (chunk_table h ! c) (Sign (Hash key))) = None"
  using used_match [OF assms(1,2)] assms(3) by (metis abs_map_None image_eqI option.exhaust)

lemma ChunkInsert_placed:
  assumes "pet_invp P h" and "c < nchunks h" and "\<not> chunk_full h c"
  shows "run_bind (ChunkInsert (chunk_table h ! c) key v (Sign (Hash key))) (\<lambda>(chunk', sid).
      let h2 = upd_chunk h c (\<lambda>_. chunk') in Returns (h2\<lparr>dict_size := dict_size h2 + 1\<rparr>, (c, sid))) =
    Returns (placed h c key v, free_slot h c)"
  using ChunkInsert_Returns [OF pet_invpD(2) [OF assms(1,2)] _ Sign_nonzero, of key v "Hash key"] assms(3)
  by (simp add: chunk_full_def placed_def free_slot_def upd_chunk_def Let_def)

lemma thinned_full:
  assumes "pet_invp P h" and "pet_invp P h'" and "thinned c h h'" and "q < nchunks h"
  shows "chunk_full h' q \<Longrightarrow> chunk_full h q" and "q \<noteq> c \<Longrightarrow> chunk_full h q \<Longrightarrow> chunk_full h' q"
proof -
  have t: "nchunks h' = nchunks h" "used h' \<subseteq> used h" "\<forall>s \<in> used h - used h'. fst s = c"
    using assms(3) by (auto simp: thinned_def)
  have q: "q < nchunks h'" using assms(4) t by simp
  note f = chunk_full_iff [OF assms(1,4)] chunk_full_iff [OF assms(2) q]
  show "chunk_full h' q \<Longrightarrow> chunk_full h q" using t f by blast
  show "q \<noteq> c \<Longrightarrow> chunk_full h q \<Longrightarrow> chunk_full h' q" using t(3) f
    by (metis DiffI fst_conv)
qed

text \<open>
  Why the loop never runs out of iterations: either the current chunk has room, or every
  chunk before it is full while the table is not, or a forced insertion is still at its
  home chunk and has a second iteration.
\<close>

definition progress :: "PetHash \<Rightarrow> bool \<Rightarrow> u64 \<Rightarrow> nat \<Rightarrow> nat \<Rightarrow> bool" where
  "progress h force key m r \<longleftrightarrow>
     r \<ge> 1 \<and> m < nchunks h \<and> \<not> chunk_full h (path (nchunks h) key m) \<or>
     \<not> Full h \<and> (\<forall>j < m. chunk_full h (path (nchunks h) key j)) \<and> r + m = nchunks h \<or>
     force \<and> m = 0 \<and> r = nchunks h \<and> 2 \<le> nchunks h"

lemma progress_bounds:
  assumes inv: "pet_invp P h" and p: "progress h force key m r"
  shows "1 \<le> r" "m < nchunks h"
proof -
  obtain k where k: "nchunks h = 2 ^ k" using pet_invpD(1) [OF inv] by (rule shapeE)
  have "r \<noteq> 0" if nf: "\<not> Full h" "\<forall>j < m. chunk_full h (path (nchunks h) key j)" "r + m = nchunks h"
  proof
    assume "r = 0"
    then have "chunk_full h q" if "q < nchunks h" for q
      using path_covers [OF k that, of key] nf(2,3) by auto
    then show False using all_full_Full [OF inv] nf(1) by blast
  qed
  then show "1 \<le> r" "m < nchunks h" using p unfolding progress_def by (auto simp: Suc_le_eq)
qed

end
