(* ===== verification/Pet_Set.thy ===== *)
theory Pet_Set
  imports Pet_Insert_Loop
begin

text \<open>
  Correctness of \<open>Insert\<close> and \<open>Set\<close>: the loop of \<open>Insert\<close> makes progress, stores its
  pair and returns.
\<close>

lemma evicted_not_full:
  assumes inv: "pet_invp P h" and e: "e \<in> used h"
  shows "\<not> chunk_full (deleted h e) (fst e)"
proof -
  have c: "fst e < nchunks (deleted h e)" using e by (simp add: used_iff)
  have "snd e < 14" "e \<notin> used (deleted h e)"
    using e used_deleted [OF inv e] by (simp_all add: used_iff)
  then show ?thesis
    using chunk_full_iff [OF inv_deleted [OF inv e] c] by (metis prod.collapse)
qed

lemma stored_evicted:
  assumes inv: "pet_invp P h" and e: "e \<in> used h" and st: "stored (deleted h e) key v D h' s"
  shows "\<exists>D'. stored h key v D' h' s \<and> (D = {} \<longrightarrow> D' = {key_at h e})"
  using stored_deleted [OF inv e] stored_thinned [OF thinned_deleted [OF inv e] st] st
  by (cases "D = {}") auto

lemma probe_next:
  assumes inv: "pet_invp P h" and "unat pos = path (nchunks h) key m" and "m < nchunks h"
  shows "unat ((pos + ProbeDelta (ucast (Sign (Hash key)))) AND (chunk_num h - 1)) = path (nchunks h) key (Suc m)"
    and "path (nchunks h) key m \<notin> path (nchunks h) key ` {..<m}"
proof -
  obtain k where k: "nchunks h = 2 ^ k" "unat (chunk_num h) = 2 ^ k"
    using pet_invpD(1) [OF inv] by (rule shapeE)
  show "unat ((pos + ProbeDelta (ucast (Sign (Hash key)))) AND (chunk_num h - 1)) = path (nchunks h) key (Suc m)"
    using word_path_Suc [OF k(2)] assms(2) k(1) by simp
  show "path (nchunks h) key m \<notin> path (nchunks h) key ` {..<m}"
    using path_eq_iff [OF k(1), where key = key] assms(3) by auto
qed

lemma progress_walk:
  assumes inv: "pet_invp P h" and inv1: "pet_invp P h1" and th: "thinned (path (nchunks h) key m) h h1"
    and p: "progress h force key m (Suc r)"
    and full: "chunk_full h1 (path (nchunks h) key m)" and nF: "\<not> Full h1"
  shows "progress (upd_chunk h1 (path (nchunks h) key m) IncOverflow) force key (Suc m) r"
proof -
  obtain k where k: "nchunks h = 2 ^ k" using pet_invpD(1) [OF inv] by (rule shapeE)
  let ?c = "path (nchunks h) key m"
  let ?h = "upd_chunk h1 ?c IncOverflow"
  have n: "nchunks h1 = nchunks h" using th by (simp add: thinned_def)
  have m: "m < nchunks h" using progress_bounds [OF inv p] by simp
  then have c: "?c < nchunks h" using path_less by simp
  have "chunk_full h ?c" using thinned_full(1) [OF inv inv1 th c full] .
  then have earlier: "\<forall>j < m. chunk_full h (path (nchunks h) key j)" and r: "Suc r + m = nchunks h"
    using p by (auto simp: progress_def)
  have "chunk_full h1 (path (nchunks h) key j)" if "j < Suc m" for j
  proof (cases "j = m")
    case False
    then have "path (nchunks h) key j \<noteq> ?c" using path_eq_iff [OF k, of j m key] m that by simp
    then show ?thesis using thinned_full(2) [OF inv inv1 th] earlier that False path_less m by simp
  qed (use full in simp)
  moreover have "\<not> Full ?h" using nF by (simp add: Full_def)
  ultimately show ?thesis
    using r n path_less [of "nchunks h" key] m by (simp add: progress_def chunk_full_def)
qed

abbreviation key_loop :: "CheckFuncT \<Rightarrow> bool \<Rightarrow> u64 \<Rightarrow> u64 \<Rightarrow> nat \<Rightarrow> u64 \<Rightarrow> u64 \<Rightarrow> PetHash \<Rightarrow> (PetHash \<times> location) run" where
  "key_loop cf force key v \<equiv>
     Insert_loop cf force key v (Sign (Hash key)) (ProbeDelta (ucast (Sign (Hash key))))"

text \<open>One iteration of the loop, for a key that is not stored.\<close>

definition victim :: "u64 \<Rightarrow> u64 \<Rightarrow> nat" where
  "victim key i = unat ((ucast (Sign (Hash key)) + i) mod of_nat kChunkSize)"

lemma victim_less: "victim key i < 14"
  by (simp add: victim_def kChunkSize_def kMaxSize_def unat_mod_distrib)

lemma Insert_loop_Suc:
  assumes "pet_invp P h1" and "unat pos < nchunks h1" and "abs_map h1 key = None"
    and "expire_chunk cf (unat pos) h = Returns h1"
  shows "key_loop cf force key v (Suc r) i pos h =
    (if \<not> chunk_full h1 (unat pos) then Returns (placed h1 (unat pos) key v, free_slot h1 (unat pos))
     else if Full h1 then
       if \<not> force then Aborts (LogFatal ''dict OOM'')
       else run_bind (PetHash_Delete h1 (key_at h1 (unat pos, victim key i)))
              (key_loop cf force key v r (i + 1) pos)
     else key_loop cf force key v r (i + 1)
            ((pos + ProbeDelta (ucast (Sign (Hash key)))) AND (chunk_num h1 - 1))
            (upd_chunk h1 (unat pos) IncOverflow))"
proof (cases "chunk_full h1 (unat pos)")
  case False
  note n = absent_no_match [OF assms(1-3)]
  have "unat (ch_size (chunk_table h1 ! unat pos)) < kChunkSize"
    using False by (simp add: chunk_full_def kChunkSize_def kMaxSize_def)
  then show ?thesis using False ChunkInsert_placed [OF assms(1,2) False, of key v]
    by (simp only: Insert_loop.simps assms(4) run_bind.simps Let_def n option.case if_True if_False not_False_eq_True)
next
  case True
  note n = absent_no_match [OF assms(1-3)]
  have "\<not> unat (ch_size (chunk_table h1 ! unat pos)) < kChunkSize"
    using True by (simp add: chunk_full_def kChunkSize_def kMaxSize_def)
  then show ?thesis using True
    by (simp add: assms(4) n Let_def key_at_def victim_def)
qed

text \<open>The two ways the loop goes on, given that the rest of the loop succeeds.\<close>

definition insert_ok :: "CheckFuncT \<Rightarrow> bool \<Rightarrow> u64 \<Rightarrow> u64 \<Rightarrow> PetHash \<Rightarrow> nat \<Rightarrow> (PetHash \<times> location) run \<Rightarrow> bool" where
  "insert_ok cf force key v h m res \<longleftrightarrow> (\<exists>h' s D. res = Returns (h', s) \<and> stored h key v D h' s \<and>
     (cf = None \<longrightarrow> D = {} \<or>
        Full h \<and> chunk_full h (path (nchunks h) key m) \<and> force \<and> (\<exists>k. D = {k})))"

lemma insert_ok_evict:
  assumes inv: "pet_invp P h" and e: "e \<in> used h" "fst e = path (nchunks h) key m"
    and full: "chunk_full h (path (nchunks h) key m)" "Full h" "force"
    and rest: "insert_ok cf force key v (deleted h e) m res"
  shows "insert_ok cf force key v h m res"
proof -
  obtain h' s D where r: "res = Returns (h', s)" "stored (deleted h e) key v D h' s" "cf = None \<longrightarrow> D = {}"
    using rest evicted_not_full [OF inv e(1)] e(2) by (auto simp: insert_ok_def)
  from stored_evicted [OF inv e(1) r(2)] r(1,3) full show ?thesis
    unfolding insert_ok_def by blast
qed

lemma insert_ok_walk:
  assumes "\<not> Full h" and "insert_ok cf force key v (upd_chunk h c IncOverflow) (Suc m) res"
  shows "insert_ok cf force key v h m res"
  using assms by (auto simp: insert_ok_def stored_def abs_inc Full_def)

lemma insert_ok_thinned:
  assumes "thinned c h h1" and "cf = None \<longrightarrow> h1 = h" and "insert_ok cf force key v h1 m res"
  shows "insert_ok cf force key v h m res"
  using assms stored_thinned [OF assms(1)] unfolding insert_ok_def by metis

lemma Insert_loop_ok:
  assumes "pet_invp (path (nchunks h) key ` {..<m}) h" and "unat pos = path (nchunks h) key m"
    and "abs_map h key = None" and "progress h force key m r"
  shows "insert_ok cf force key v h m (key_loop cf force key v r i pos h)"
  using assms
  supply Insert_loop.simps(2) [simp del]
proof (induction r arbitrary: h m pos i)
  case 0
  then show ?case using progress_bounds [OF "0.prems"(1,4)] by simp
next
  case (Suc r)
  let ?n = "nchunks h" and ?c = "path (nchunks h) key m"
  note inv = Suc.prems(1) and pos = Suc.prems(2) and pr = Suc.prems(4)
  have m: "m < ?n" and c: "?c < ?n" using progress_bounds [OF inv pr] path_less by simp_all
  obtain h1 where h1: "expire_chunk cf (unat pos) h = Returns h1" "pet_invp (path ?n key ` {..<m}) h1"
      "thinned ?c h h1" "cf = None \<longrightarrow> h1 = h"
    using expire_chunk_ok [OF inv c, of cf] pos by auto
  have n1: "nchunks h1 = ?n" and new: "abs_map h1 key = None"
    using h1(3) Suc.prems(3) by (auto simp: thinned_def restrict_map_def)
  note step = Insert_loop_Suc [OF h1(2) _ new h1(1), unfolded pos n1, OF c, of force v r i]
  have "insert_ok cf force key v h1 m (key_loop cf force key v (Suc r) i pos h)"
  proof (cases "chunk_full h1 ?c")
    case False
    then show ?thesis using step place_stored [of h1 key m v] h1(2) n1 m new
      by (auto simp: insert_ok_def)
  next
    case full: True
    show ?thesis
    proof (cases "Full h1")
      case True
      have "Full h" using Full_mono [OF inv h1(2) n1 _ True] h1(3) by (simp add: thinned_def)
      moreover have "chunk_full h ?c" using thinned_full(1) [OF inv h1(2,3) c full] .
      ultimately have f: "force" "1 \<le> r" using pr by (auto simp: progress_def)
      let ?e = "(?c, victim key i)"
      have e: "?e \<in> used h1"
        using chunk_full_iff [OF h1(2), unfolded n1, OF c] full victim_less by simp
      have "progress (deleted h1 ?e) force key m r"
        using evicted_not_full [OF h1(2) e] n1 m f by (simp add: progress_def)
      then have "insert_ok cf force key v (deleted h1 ?e) m (key_loop cf force key v r (i + 1) pos (deleted h1 ?e))"
        using Suc.IH inv_deleted [OF h1(2) e] abs_deleted [OF h1(2) e] new n1 pos by simp
      then show ?thesis
        using insert_ok_evict [OF h1(2) e] step n1 full True f PetHash_Delete_hit [OF h1(2) e] by simp
    next
      case False
      have "pet_invp (path ?n key ` {..<Suc m}) (upd_chunk h1 ?c IncOverflow)"
        using inv_inc [OF h1(2)] probe_next(2) [OF inv pos m] c n1 by (simp add: lessThan_Suc)
      then have "insert_ok cf force key v (upd_chunk h1 ?c IncOverflow) (Suc m) (key_loop cf force key v r (i + 1)
          ((pos + ProbeDelta (ucast (Sign (Hash key)))) AND (chunk_num h1 - 1)) (upd_chunk h1 ?c IncOverflow))"
        using Suc.IH progress_walk [OF inv h1(2,3) pr full False]
          probe_next(1) [OF h1(2), of pos key m] pos n1 m new by (simp add: abs_inc)
      then show ?thesis using insert_ok_walk [OF False] step full False by simp
    qed
  qed
  then show ?case by (rule insert_ok_thinned [OF h1(3,4)])
qed

section \<open>Insert and Set\<close>

text \<open>The condition under which an insertion cannot fail.\<close>

definition can_insert :: "PetHash \<Rightarrow> bool \<Rightarrow> bool" where
  "can_insert h force \<longleftrightarrow> \<not> Full h \<or> force \<and> 2 \<le> nchunks h"

lemma HomeChunk_path:
  assumes "pet_invp P h"
  shows "unat (HomeChunk h key) = path (nchunks h) key 0"
proof -
  obtain k where k: "nchunks h = 2 ^ k" "unat (chunk_num h) = 2 ^ k"
    using pet_invpD(1) [OF assms] by (rule shapeE)
  show ?thesis using word_path_0 [OF k(2)] k(1) by (simp add: HomeChunk_def)
qed

lemma chunk_num_nchunks: "pet_invp P h \<Longrightarrow> unat (chunk_num h) = nchunks h"
  by (simp add: pet_invp_def shape_def)

lemma PetHash_Insert_ok:
  assumes inv: "pet_inv h" and new: "abs_map h key = None" and can: "can_insert h force"
  shows "insert_ok cf force key v h 0 (PetHash_Insert h key v cf force)"
proof -
  have "progress h force key 0 (nchunks h)"
    using can by (auto simp: can_insert_def progress_def)
  then show ?thesis
    using Insert_loop_ok [of h key 0 "HomeChunk h key" force "nchunks h" cf v 0] inv new HomeChunk_path [OF inv]
    by (simp add: PetHash_Insert_def Let_def chunk_num_nchunks [OF inv])
qed

lemma PetHash_Set_hit:
  assumes inv: "pet_inv h" and s: "s \<in> used h"
  shows "PetHash_Set h (key_at h s) v cf force = Returns (store_val h s v, s)"
    and "stored h (key_at h s) v {} (store_val h s v) s"
proof -
  show "PetHash_Set h (key_at h s) v cf force = Returns (store_val h s v, s)"
    by (simp add: PetHash_Set_def GetReturnPtr_def GetInternal_hit [OF inv s])
  show "stored h (key_at h s) v {} (store_val h s v) s"
    using inv_store_val [OF inv s] abs_store_val [OF inv s] store_val_entries [OF inv s] s
      marked_store_val [OF inv] by (simp add: stored_def restrict_map_def)
qed

lemma PetHash_Set_miss:
  assumes "pet_inv h" and "settled h" and "abs_map h key = None"
  shows "PetHash_Set h key v cf force = PetHash_Insert h key v cf force"
  using GetInternal_miss [OF assms(1) _ assms(2), of key] assms(3)
  by (simp add: PetHash_Set_def GetReturnPtr_def abs_map_None)

lemma PetHash_Set_ok:
  assumes inv: "pet_inv h" and set: "settled h" and can: "abs_map h key \<noteq> None \<or> can_insert h force"
  shows "insert_ok cf force key v h 0 (PetHash_Set h key v cf force)"
proof (cases "abs_map h key")
  case None
  then show ?thesis using PetHash_Insert_ok [OF inv None] PetHash_Set_miss [OF inv set None] can by simp
next
  case (Some w)
  then obtain s where "s \<in> used h" "key_at h s = key" by (auto dest: abs_map_SomeD)
  then show ?thesis using PetHash_Set_hit [OF inv, of s] unfolding insert_ok_def by blast
qed

lemma insert_ok_exact:
  assumes "insert_ok None force key v h m res" and "\<not> Full h"
  shows "\<exists>h' s. res = Returns (h', s) \<and> stored h key v {} h' s"
  using assms by (auto simp: insert_ok_def)

text \<open>Where an insertion fails.\<close>

lemma PetHash_Insert_oom:
  assumes inv: "pet_inv h" and new: "abs_map h key = None"
    and full: "Full h" "chunk_full h (unat (HomeChunk h key))"
  shows "PetHash_Insert h key v None False = Aborts (LogFatal ''dict OOM'')"
proof -
  have h: "unat (HomeChunk h key) < nchunks h"
    using HomeChunk_path [OF inv, of key] path_less [of "nchunks h" key 0] chunk_num_nchunks [OF inv]
      pet_invpD(1) [OF inv] by (auto simp: shape_def)
  then obtain r where r: "nchunks h = Suc r" by (cases "nchunks h") auto
  have "expire_chunk None (unat (HomeChunk h key)) h = Returns h" by (simp add: expire_chunk_def)
  from Insert_loop_Suc [OF inv h new this, of False v r 0] full r show ?thesis
    by (simp add: PetHash_Insert_def Let_def chunk_num_nchunks [OF inv] del: Insert_loop.simps(2))
qed

lemma PetHash_Insert_single_chunk:
  assumes inv: "pet_inv h" and new: "abs_map h key = None" and one: "nchunks h = 1"
    and full: "chunk_full h 0"
  shows "PetHash_Insert h key v None True = Aborts (LogFatal ''dict OOM'')"
proof -
  have F: "Full h" using all_full_Full [OF inv] one full by simp
  have z: "unat (HomeChunk h key) = 0" using HomeChunk_path [OF inv, of key] one by (simp add: path_def)
  have e: "(0, victim key 0) \<in> used h"
    using chunk_full_iff [OF inv, of 0] one full victim_less by simp
  have x: "expire_chunk None (unat (HomeChunk h key)) h = Returns h" by (simp add: expire_chunk_def)
  from Insert_loop_Suc [OF inv _ new x, of True v 0 0] F full one z PetHash_Delete_hit [OF inv e]
  show ?thesis
    by (simp add: PetHash_Insert_def Let_def chunk_num_nchunks [OF inv] del: Insert_loop.simps(2))
qed

lemma PetHash_Insert_room:
  assumes inv: "pet_inv h" and new: "abs_map h key = None"
    and room: "\<not> chunk_full h (unat (HomeChunk h key))"
  shows "insert_ok cf force key v h 0 (PetHash_Insert h key v cf force)"
proof -
  have "0 < nchunks h" using pet_invpD(1) [OF inv] by (auto simp: shape_def)
  then have "progress h force key 0 (nchunks h)"
    using room HomeChunk_path [OF inv, of key] by (simp add: progress_def)
  then show ?thesis
    using Insert_loop_ok [of h key 0 "HomeChunk h key" force "nchunks h" cf v 0] inv new HomeChunk_path [OF inv]
    by (simp add: PetHash_Insert_def Let_def chunk_num_nchunks [OF inv])
qed

text \<open>Without an expiry check an insertion stores its pair or runs out of memory.\<close>

lemma PetHash_Insert_cases:
  assumes inv: "pet_inv h" and new: "abs_map h key = None"
  shows "if Full h \<and> chunk_full h (unat (HomeChunk h key)) \<and> (force \<longrightarrow> nchunks h = 1)
    then PetHash_Insert h key v None force = Aborts (LogFatal ''dict OOM'')
    else insert_ok None force key v h 0 (PetHash_Insert h key v None force)"
proof -
  have n: "0 < nchunks h" using pet_invpD(1) [OF inv] by (auto simp: shape_def)
  have z: "nchunks h = 1 \<Longrightarrow> unat (HomeChunk h key) = 0"
    using HomeChunk_path [OF inv, of key] by (simp add: path_def)
  consider "\<not> chunk_full h (unat (HomeChunk h key))" | "can_insert h force"
    | "Full h" "chunk_full h (unat (HomeChunk h key))" "\<not> force"
    | "Full h" "chunk_full h (unat (HomeChunk h key))" "force" "nchunks h = 1"
    using n by (fastforce simp: can_insert_def)
  then show ?thesis
  proof cases
    case 1
    then show ?thesis using PetHash_Insert_room [OF inv new] by simp
  next
    case 2
    then have "\<not> (Full h \<and> chunk_full h (unat (HomeChunk h key)) \<and> (force \<longrightarrow> nchunks h = 1))"
      by (auto simp: can_insert_def)
    then show ?thesis using PetHash_Insert_ok [OF inv new 2] by (simp only: if_False)
  next
    case 3
    then show ?thesis using PetHash_Insert_oom [OF inv new] by simp
  next
    case 4
    then show ?thesis using PetHash_Insert_single_chunk [OF inv new] z by simp
  qed
qed

end
