(* ===== verification/Pet_Init.thy ===== *)
theory Pet_Init
  imports Pet_Set
begin

text \<open>
  Sizing and initialising a PetHash (\<open>src/src/pet_kv/pet_hash.h\<close>: \<open>OverFallChunkNum\<close>,
  \<open>Initialize\<close>, \<open>MemorySize\<close>, \<open>Next2Power\<close>). The division \<open>capacity /= 0.9\<close> is carried
  out in double precision by the code; it is modelled exactly, with the rounding to 53
  significant bits and the truncation back to an integer.
\<close>

section \<open>Double precision division of integers\<close>

text \<open>Division rounded to the nearest integer, ties to even.\<close>

definition rne_div :: "nat \<Rightarrow> nat \<Rightarrow> nat" where
  "rne_div n d =
     (let q = n div d; r = n mod d
      in if 2 * r < d \<or> 2 * r = d \<and> even q then q else q + 1)"

fun bit_len :: "nat \<Rightarrow> nat" where
  "bit_len n = (if n = 0 then 0 else bit_len (n div 2) + 1)"

declare bit_len.simps [simp del]

text \<open>
  The quotient \<open>n / d\<close> rounded to a double (53 significant bits) and converted back to an
  integer by truncation. The quotients the code forms are zero or at least one.
\<close>

definition double_div :: "nat \<Rightarrow> nat \<Rightarrow> nat" where
  "double_div n d =
     (let q = n div d in
      if bit_len q > 53 then
        (let e = bit_len q - 53 in rne_div n (d * 2 ^ e) * 2 ^ e)
      else
        (let e = 53 - bit_len q in rne_div (n * 2 ^ e) d div 2 ^ e))"

text \<open>
  \<open>kMaxLoadFactor / 100.0\<close>, the double nearest to 0.9, is \<open>8106479329266893 / 2 ^ 53\<close>. The
  conversion of a double of \<open>2 ^ 64\<close> or more to \<open>uint64_t\<close> is undefined.
\<close>

definition apply_load_factor :: "u64 \<Rightarrow> u64 run" where
  "apply_load_factor cap =
     (let x = double_div (unat cap) 1;
          y = double_div (x * 2 ^ 53) 8106479329266893
      in if y < 2 ^ 64 then Returns (of_nat y) else Aborts (Undefined ''double to uint64_t''))"

section \<open>Number of chunks\<close>

partial_function (option) next2power_loop :: "u64 \<Rightarrow> u64 \<Rightarrow> u64 option" where
  "next2power_loop sz new_size =
     (if new_size < sz then next2power_loop sz (push_bit 1 new_size) else Some new_size)"

definition Next2Power :: "u64 \<Rightarrow> u64 run" where
  "Next2Power sz = run_of_option (next2power_loop sz 1)"

definition OverFallChunkNum :: "u64 \<Rightarrow> u64 run" where
  "OverFallChunkNum cap =
     Next2Power ((cap + of_nat kChunkSize - 1) div of_nat kChunkSize)"

definition sizeof_PetHash :: u64 where
  "sizeof_PetHash = 64"

definition sizeof_ChunkT :: u64 where
  "sizeof_ChunkT = 320"

definition effective_capacity :: "u64 \<Rightarrow> bool \<Rightarrow> u64 run" where
  "effective_capacity cap ignore_load_factor =
     (if \<not> ignore_load_factor then apply_load_factor cap else Returns cap)"

definition MemorySize :: "u64 \<Rightarrow> bool \<Rightarrow> u64 run" where
  "MemorySize cap ignore_load_factor =
     run_bind (effective_capacity cap ignore_load_factor) (\<lambda>cap.
     run_bind (OverFallChunkNum cap) (\<lambda>chunk_table_num.
       Returns (sizeof_PetHash + chunk_table_num * sizeof_ChunkT)))"

definition PetHash_Initialize :: "u64 \<Rightarrow> bool \<Rightarrow> PetHash run" where
  "PetHash_Initialize cap ignore_load_factor =
     run_bind (effective_capacity cap ignore_load_factor) (\<lambda>cap.
     run_bind (OverFallChunkNum cap) (\<lambda>n.
       Returns \<lparr>capacity = n * of_nat kChunkSize, chunk_num = n, dict_size = 0,
         chunk_table = map ChunkInitialize (replicate (unat n) zero_chunk)\<rparr>))"

section \<open>Rounding\<close>

lemma rne_div_bounds:
  assumes "0 < d"
  shows "2 * n \<le> 2 * (rne_div n d * d) + d" and "2 * (rne_div n d * d) \<le> 2 * n + d"
proof -
  have q: "n = n div d * d + n mod d" by simp
  have r: "n mod d < d" using assms by simp
  have "rne_div n d * d = n div d * d \<and> 2 * (n mod d) \<le> d \<or>
      rne_div n d * d = n div d * d + d \<and> d \<le> 2 * (n mod d)"
    by (auto simp: rne_div_def Let_def)
  with q r show "2 * n \<le> 2 * (rne_div n d * d) + d" "2 * (rne_div n d * d) \<le> 2 * n + d"
    by linarith+
qed

lemma bit_len_0 [simp]: "bit_len 0 = 0"
  by (simp add: bit_len.simps)

lemma double_div_0 [simp]: "double_div 0 d = 0"
  by (simp add: double_div_def rne_div_def)

lemma bit_len_bounds: "0 < n \<Longrightarrow> 2 ^ (bit_len n - 1) \<le> n \<and> n < 2 ^ bit_len n \<and> 0 < bit_len n"
proof (induction n rule: less_induct)
  case (less n)
  show ?case
  proof (cases "n = 1")
    case True
    moreover have "bit_len 1 = 1" by (simp add: bit_len.simps [of "Suc 0"])
    ultimately show ?thesis by simp
  next
    case False
    then have h: "0 < n div 2" "n div 2 < n" using less.prems by auto
    have b: "bit_len n = bit_len (n div 2) + 1" using less.prems by (simp add: bit_len.simps [of n])
    have i: "2 ^ (bit_len (n div 2) - 1) \<le> n div 2" "n div 2 < 2 ^ bit_len (n div 2)" "0 < bit_len (n div 2)"
      using less.IH [OF h(2,1)] by auto
    have "2 * 2 ^ (bit_len (n div 2) - 1) = (2 :: nat) ^ bit_len (n div 2)"
      using i(3) by (metis power_eq_if not_gr_zero)
    then have "2 ^ bit_len (n div 2) \<le> n" using i(1) by linarith
    moreover have "n < 2 * 2 ^ bit_len (n div 2)" using i(2) by linarith
    ultimately show ?thesis using b by simp
  qed
qed

text \<open>
  The rounded quotient is close to the exact one: it is off by at most one part in
  \<open>2 ^ 53\<close>, and truncation takes less than one.
\<close>

lemma double_div_form:
  assumes d: "0 < d" and q: "d \<le> n"
  obtains e f where "d * 2 ^ f * 2 ^ 52 \<le> n * 2 ^ e"
    and "double_div n d = rne_div (n * 2 ^ e) (d * 2 ^ f) * 2 ^ f div 2 ^ e"
proof -
  let ?q = "n div d" and ?b = "bit_len (n div d)"
  have q0: "0 < ?q" using assms by (simp add: div_greater_zero_iff)
  have b: "2 ^ (?b - 1) \<le> ?q" "0 < ?b" using bit_len_bounds [OF q0] by auto
  have dq: "d * ?q \<le> n" by simp
  show thesis
  proof (cases "?b > 53")
    case True
    let ?f = "?b - 53"
    have "?b - 1 = ?f + 52" using True by simp
    then have "2 ^ (?b - 1) = (2 :: nat) ^ ?f * 2 ^ 52" by (simp only: power_add)
    then have "d * (2 ^ ?f * 2 ^ 52) \<le> d * ?q" using mult_le_mono2 [OF b(1), of d] by (simp only:)
    then have "d * (2 ^ ?f * 2 ^ 52) \<le> n" using dq by (rule order_trans)
    then have "d * 2 ^ ?f * 2 ^ 52 \<le> n * 2 ^ 0" by (simp only: mult.assoc power_0 mult_1_right)
    then show thesis by (rule that) (use True in \<open>simp add: double_div_def Let_def\<close>)
  next
    case False
    let ?e = "53 - ?b"
    have "52 = ?b - 1 + ?e" using False b(2) by simp
    then have "(2 :: nat) ^ 52 = 2 ^ (?b - 1) * 2 ^ ?e" by (metis power_add)
    also have "\<dots> \<le> ?q * 2 ^ ?e" using b(1) by simp
    finally have "d * 2 ^ 0 * 2 ^ 52 \<le> d * ?q * 2 ^ ?e" by (simp add: mult.assoc)
    also have "\<dots> \<le> n * 2 ^ ?e" by (rule mult_le_mono1 [OF dq])
    finally show thesis by (rule that) (use False in \<open>simp add: double_div_def Let_def\<close>)
  qed
qed

lemma double_div_bounds:
  assumes d: "0 < d" and q: "d \<le> n"
  shows "n * (2 ^ 53 - 1) < (double_div n d + 1) * (d * 2 ^ 53)"
    and "double_div n d * (d * 2 ^ 53) \<le> n * (2 ^ 53 + 1)"
proof -
  obtain e f where N: "d * 2 ^ f * 2 ^ 52 \<le> n * 2 ^ e"
      and r: "double_div n d = rne_div (n * 2 ^ e) (d * 2 ^ f) * 2 ^ f div 2 ^ e"
    by (rule double_div_form [OF assms])
  let ?r = "rne_div (n * 2 ^ e) (d * 2 ^ f)" and ?y = "double_div n d"
  have D: "0 < d * 2 ^ f" using d by simp
  note b = rne_div_bounds [OF D, of "n * 2 ^ e"]
  have t: "?r * 2 ^ f < (?y + 1) * 2 ^ e" "?y * 2 ^ e \<le> ?r * 2 ^ f"
    using div_less_iff_less_mult [of "2 ^ e" "?r * 2 ^ f" "?y + 1"] r by simp_all
  have "n * 2 ^ e * (2 ^ 53 - 1) \<le> ?r * (d * 2 ^ f) * 2 ^ 53" using N b(1) by simp
  also have "\<dots> = ?r * 2 ^ f * (d * 2 ^ 53)" by simp
  also have "\<dots> < (?y + 1) * 2 ^ e * (d * 2 ^ 53)" using t(1) d by (simp only: mult_less_cancel2) simp
  finally have "2 ^ e * (n * (2 ^ 53 - 1)) < 2 ^ e * ((?y + 1) * (d * 2 ^ 53))"
    by (simp add: algebra_simps)
  then show "n * (2 ^ 53 - 1) < (?y + 1) * (d * 2 ^ 53)" by (simp only: mult_less_cancel1)
  have "?y * 2 ^ e * (d * 2 ^ 53) \<le> ?r * 2 ^ f * (d * 2 ^ 53)" using t(2) by (simp only: mult_le_mono1)
  also have "\<dots> = ?r * (d * 2 ^ f) * 2 ^ 53" by simp
  also have "\<dots> \<le> n * 2 ^ e * (2 ^ 53 + 1)" using N b(2) by simp
  finally have "2 ^ e * (?y * (d * 2 ^ 53)) \<le> 2 ^ e * (n * (2 ^ 53 + 1))" by (simp add: algebra_simps)
  then show "?y * (d * 2 ^ 53) \<le> n * (2 ^ 53 + 1)" by (simp only: mult_le_cancel1) simp
qed

text \<open>An integer of at most 53 bits is a double.\<close>

lemma double_div_exact:
  assumes "n < 2 ^ 53"
  shows "double_div n 1 = n"
proof (cases "n = 0")
  case True
  then show ?thesis by simp
next
  case False
  have "\<not> bit_len n > 53"
  proof
    assume "bit_len n > 53"
    then have "(2 :: nat) ^ 53 \<le> 2 ^ (bit_len n - 1)" by (intro power_increasing) simp_all
    then show False using bit_len_bounds [of n] False assms by simp
  qed
  then show ?thesis by (simp add: double_div_def rne_div_def)
qed

text \<open>
  For a capacity below \<open>2 ^ 49\<close> the scaled capacity \<open>c\<close> is between \<open>(cap - 1) / 0.9\<close> and
  \<open>2 * cap\<close>.
\<close>

lemma apply_load_factor_bounds:
  assumes "unat cap < 2 ^ 49"
  shows "\<exists>c. apply_load_factor cap = Returns c \<and> 10 * unat cap < 9 * (unat c + 1) + 1 \<and> unat c \<le> 2 * unat cap"
proof (cases "unat cap = 0")
  case True
  then show ?thesis
    by (simp add: apply_load_factor_def Let_def)
next
  case False
  let ?x = "unat cap" and ?d = "8106479329266893 :: nat"
  let ?y = "double_div (?x * 2 ^ 53) ?d"
  have x: "double_div ?x 1 = ?x" using assms by (intro double_div_exact) simp
  have b: "?x * 2 ^ 53 * (2 ^ 53 - 1) < (?y + 1) * (?d * 2 ^ 53)" "?y * (?d * 2 ^ 53) \<le> ?x * 2 ^ 53 * (2 ^ 53 + 1)"
    using False by (intro double_div_bounds; simp)+
  then have up: "?y \<le> 2 * ?x" by simp
  then have "?y < 2 ^ 64" using assms by simp
  moreover have "10 * ?x < 9 * (?y + 1) + 1" using b(1) assms by simp
  ultimately show ?thesis using up
    unfolding apply_load_factor_def Let_def x by (simp add: unat_of_nat)
qed

section \<open>The number of chunks is the least sufficient power of two\<close>

lemma shl_pow2:
  fixes w :: u64
  assumes "unat w = 2 ^ j" and "j < 63"
  shows "unat (push_bit 1 w) = 2 ^ Suc j"
proof -
  have "(2 :: nat) ^ Suc j \<le> 2 ^ 63" using assms(2) by (intro power_increasing) simp_all
  then show ?thesis using assms(1) by (simp add: push_bit_eq_mult unat_word_ariths)
qed

lemma next2power_loop_pow2:
  assumes "unat sz \<le> 2 ^ 63"
  shows "unat w = 2 ^ j \<Longrightarrow> j \<le> 63 \<Longrightarrow> j = 0 \<or> 2 ^ (j - 1) < unat sz \<Longrightarrow>
    \<exists>r k. next2power_loop sz w = Some r \<and> unat r = 2 ^ k \<and> unat sz \<le> 2 ^ k \<and>
      (k = 0 \<or> 2 ^ (k - 1) < unat sz) \<and> k \<le> 63"
proof (induction "63 - j" arbitrary: w j rule: less_induct)
  case less
  show ?case
  proof (cases "w < sz")
    case True
    then have lt: "2 ^ j < unat sz" using less.prems(1) by (simp add: word_less_nat_alt)
    then have "(2 :: nat) ^ j < 2 ^ 63" using assms by linarith
    then have j: "j < 63" by (rule power_less_imp_less_exp [rotated]) simp
    have "next2power_loop sz w = next2power_loop sz (push_bit 1 w)"
      using True by (simp add: next2power_loop.simps [of sz w])
    moreover note less.hyps [OF _ shl_pow2 [OF less.prems(1) j]]
    ultimately show ?thesis using j lt by simp
  next
    case False
    then show ?thesis using less.prems
      by (auto simp: next2power_loop.simps [of sz w] word_less_nat_alt intro!: exI [of _ j])
  qed
qed

lemma Next2Power_least:
  assumes "unat sz \<le> 2 ^ 63"
  shows "\<exists>r k. Next2Power sz = Returns r \<and> unat r = 2 ^ k \<and> unat sz \<le> 2 ^ k \<and>
      (k = 0 \<or> 2 ^ (k - 1) < unat sz) \<and> k \<le> 63"
  using next2power_loop_pow2 [OF assms, of 1 0] by (auto simp: Next2Power_def)

text \<open>Above \<open>2 ^ 63\<close> the shift drops the only set bit and the loop never ends.\<close>

definition shifting :: "u64 \<Rightarrow> bool" where
  "shifting w \<longleftrightarrow> w = 0 \<or> (\<exists>j \<in> {0..63}. unat w = 2 ^ j)"

lemma shifting_less:
  assumes "shifting w" and "2 ^ 63 < unat sz"
  shows "w < sz"
proof (cases "w = 0")
  case False
  then obtain j where "unat w = 2 ^ j" "j \<le> 63" using assms(1) by (auto simp: shifting_def)
  moreover have "(2 :: nat) ^ j \<le> 2 ^ 63" using \<open>j \<le> 63\<close> by (intro power_increasing) simp_all
  ultimately show ?thesis using assms(2) by (simp add: word_less_nat_alt)
qed (use assms(2) in \<open>simp add: word_less_nat_alt\<close>)

lemma shifting_shl:
  assumes "shifting w"
  shows "shifting (push_bit 1 w)"
proof (cases "w = 0")
  case False
  then obtain j where j: "unat w = 2 ^ j" "j \<le> 63" using assms(1) by (auto simp: shifting_def)
  show ?thesis
  proof (cases "j < 63")
    case True
    then show ?thesis using shl_pow2 [OF j(1)] by (auto simp: shifting_def intro!: bexI [of _ "Suc j"])
  next
    case False
    then have "unat (push_bit 1 w) = 0" using j by (simp add: push_bit_eq_mult unat_word_ariths)
    then show ?thesis by (simp add: shifting_def unat_eq_0)
  qed
qed (simp add: shifting_def)

lemma next2power_loop_spins:
  assumes "next2power_loop sz w = Some y"
  shows "\<not> (2 ^ 63 < unat sz \<and> shifting w)"
  using assms
proof (rule next2power_loop.raw_induct [rotated])
  fix f :: "u64 \<Rightarrow> u64 \<Rightarrow> u64 option" and sz w y
  assume IH: "\<And>sz w y. f sz w = Some y \<Longrightarrow> \<not> (2 ^ 63 < unat sz \<and> shifting w)"
    and eq: "(if w < sz then f sz (push_bit 1 w) else Some w) = Some y"
  show "\<not> (2 ^ 63 < unat sz \<and> shifting w)"
  proof
    assume a: "2 ^ 63 < unat sz \<and> shifting w"
    then have "w < sz" using shifting_less by blast
    then show False using IH [of sz "push_bit 1 w" y] eq a shifting_shl by simp
  qed
qed

lemma Next2Power_spins:
  assumes "2 ^ 63 < unat sz"
  shows "Next2Power sz = Diverges"
proof -
  have "shifting 1" by (auto simp: shifting_def intro!: bexI [of _ 0])
  then show ?thesis
    using next2power_loop_spins [of sz 1] assms
    by (cases "next2power_loop sz 1") (auto simp: Next2Power_def)
qed

section \<open>Initialisation\<close>

lemma OverFallChunkNum_ok:
  assumes "unat cap \<le> 14 * 2 ^ 53"
  shows "\<exists>r k. OverFallChunkNum cap = Returns r \<and> unat r = 2 ^ k \<and> k \<le> 53 \<and>
    unat cap \<le> 14 * 2 ^ k \<and> (k = 0 \<or> 14 * 2 ^ (k - 1) < unat cap)"
proof -
  let ?sz = "(cap + of_nat kChunkSize - 1) div of_nat kChunkSize"
  have u: "unat ?sz = (unat cap + 13) div 14"
    using assms by (simp add: kChunkSize_def kMaxSize_def unat_div_distrib unat_word_ariths)
  then have "unat ?sz \<le> 2 ^ 53" using assms by simp
  from Next2Power_least [of ?sz] this obtain r k where r: "Next2Power ?sz = Returns r" "unat r = 2 ^ k"
      "unat ?sz \<le> 2 ^ k" "k = 0 \<or> 2 ^ (k - 1) < unat ?sz" by auto
  have "k \<le> 53"
  proof (rule ccontr)
    assume "\<not> k \<le> 53"
    then have "(2 :: nat) ^ 53 \<le> 2 ^ (k - 1)" by (intro power_increasing) simp_all
    then show False using r(4) \<open>unat ?sz \<le> 2 ^ 53\<close> \<open>\<not> k \<le> 53\<close> by simp
  qed
  moreover have "unat cap \<le> 14 * 2 ^ k" using r(3) u by simp
  moreover have "k = 0 \<or> 14 * 2 ^ (k - 1) < unat cap" using r(4) u by auto
  ultimately show ?thesis using r(1,2) by (auto simp: OverFallChunkNum_def)
qed

definition empty_table :: "u64 \<Rightarrow> PetHash" where
  "empty_table n = \<lparr>capacity = n * of_nat kChunkSize, chunk_num = n, dict_size = 0,
     chunk_table = map ChunkInitialize (replicate (unat n) zero_chunk)\<rparr>"

lemma empty_table_facts:
  assumes "unat n = 2 ^ k" and "k \<le> 53"
  shows "pet_inv (empty_table n)" "settled (empty_table n)" "abs_map (empty_table n) = Map.empty"
    "nchunks (empty_table n) = 2 ^ k"
proof -
  let ?h = "empty_table n"
  show n: "nchunks ?h = 2 ^ k" using assms by (simp add: nchunks_def empty_table_def)
  have c: "chunk_table ?h ! q = ChunkInitialize zero_chunk" if "q < nchunks ?h" for q
    using that by (simp add: nchunks_def empty_table_def)
  have u: "used_list ?h = []"
    unfolding used_list_def filter_empty_conv
    by (auto simp: c InUse_def ChunkInitialize_def zero_chunk_def kMaxSize_def)
  then have u': "used ?h = {}" by (simp add: used_def)
  show "abs_map ?h = Map.empty" by (simp add: abs_map_def u)
  show "settled ?h" by (simp add: settled_iff c ChunkInitialize_def zero_chunk_def)
  have "(2 :: nat) ^ k \<le> 2 ^ 53" using assms(2) by (intro power_increasing) simp_all
  then have "unat (capacity ?h) = 14 * 2 ^ k"
    using assms by (simp add: empty_table_def kChunkSize_def kMaxSize_def unat_word_ariths)
  then have "shape ?h" using assms n by (auto simp: shape_def empty_table_def)
  moreover have "overflow_bound ?h {} p" if "p < nchunks ?h" for p
    using u' by (simp add: overflow_bound_def passing_def)
  ultimately show "pet_inv ?h"
    using u' by (simp add: pet_invp_def all_chunks_iff c chunk_wf_initialized empty_table_def)
qed

end
