(* ===== verification/Index_Spec.thy ===== *)
theory Index_Spec
  imports Pet_Prelude
begin

text \<open>
  The contract of a bounded key-value index, as the interface \<open>index_spec\<close>: a state stands
  for a finite map, lookups read it, an update of a known key or below the capacity
  overwrites one binding, a removal deletes one. Every client that runs operations in
  sequence then behaves as on the map; the components that offer such an index interpret
  the locale on their own operations.
\<close>

datatype ('k, 'v) index_op = Put 'k 'v | Erase 'k | Query 'k

text \<open>Running operations one after the other, collecting the answers of the lookups.\<close>

fun run_ops ::
  "('s \<Rightarrow> 'k \<Rightarrow> 'v option run) \<Rightarrow> ('s \<Rightarrow> 'k \<Rightarrow> 'v \<Rightarrow> 's run) \<Rightarrow> ('s \<Rightarrow> 'k \<Rightarrow> 's run) \<Rightarrow>
   ('k, 'v) index_op list \<Rightarrow> 's \<Rightarrow> ('s \<times> 'v option list) run" where
  "run_ops look upd rem [] s = Returns (s, [])"
| "run_ops look upd rem (Put k v # ops) s = run_bind (upd s k v) (run_ops look upd rem ops)"
| "run_ops look upd rem (Erase k # ops) s = run_bind (rem s k) (run_ops look upd rem ops)"
| "run_ops look upd rem (Query k # ops) s =
     run_bind (look s k) (\<lambda>a. run_bind (run_ops look upd rem ops s) (\<lambda>(s', as). Returns (s', a # as)))"

text \<open>The same sequence on a map, and the condition that it never outgrows a capacity.\<close>

fun spec_ops :: "('k, 'v) index_op list \<Rightarrow> ('k \<rightharpoonup> 'v) \<Rightarrow> ('k \<rightharpoonup> 'v) \<times> 'v option list" where
  "spec_ops [] m = (m, [])"
| "spec_ops (Put k v # ops) m = spec_ops ops (m(k \<mapsto> v))"
| "spec_ops (Erase k # ops) m = spec_ops ops (m(k := None))"
| "spec_ops (Query k # ops) m = (let (m', as) = spec_ops ops m in (m', m k # as))"

fun fits :: "nat \<Rightarrow> ('k, 'v) index_op list \<Rightarrow> ('k \<rightharpoonup> 'v) \<Rightarrow> bool" where
  "fits n [] m = True"
| "fits n (Put k v # ops) m = ((k \<in> dom m \<or> card (dom m) < n) \<and> fits n ops (m(k \<mapsto> v)))"
| "fits n (Erase k # ops) m = fits n ops (m(k := None))"
| "fits n (Query k # ops) m = fits n ops m"

lemma card_dom_upd: "finite (dom m) \<Longrightarrow> card (dom (m(k \<mapsto> v))) \<le> card (dom m) + 1"
  by (simp add: card_insert_if)

lemma card_dom_del: "finite (dom m) \<Longrightarrow> card (dom (m(k := None))) \<le> card (dom m)"
  by (simp add: card_Diff1_le)

text \<open>A sequence with few enough insertions fits whatever its order is.\<close>

fun puts :: "('k, 'v) index_op list \<Rightarrow> nat" where
  "puts [] = 0"
| "puts (Put k v # ops) = puts ops + 1"
| "puts (op # ops) = puts ops"

lemma puts_fit:
  "finite (dom m) \<Longrightarrow> card (dom m) + puts ops \<le> n \<Longrightarrow> fits n ops m"
proof (induction ops arbitrary: m)
  case Nil
  then show ?case by simp
next
  case (Cons op ops)
  show ?case
  proof (cases op)
    case (Put k v)
    then show ?thesis
      using Cons.prems Cons.IH [of "m(k \<mapsto> v)"] card_dom_upd [OF Cons.prems(1), of k v]
      by (simp del: fun_upd_apply)
  next
    case (Erase k)
    then show ?thesis
      using Cons.prems Cons.IH [of "m(k := None)"] card_dom_del [OF Cons.prems(1), of k]
      by (simp del: fun_upd_apply)
  next
    case (Query k)
    then show ?thesis using Cons by simp
  qed
qed

text \<open>What every returning update and removal keeps, a returning sequence keeps.\<close>

lemma run_ops_keeps:
  assumes "\<And>s k v s'. Put k v \<in> set ops \<Longrightarrow> I s \<Longrightarrow> upd s k v = Returns s' \<Longrightarrow> I s'"
    and "\<And>s k s'. I s \<Longrightarrow> rem s k = Returns s' \<Longrightarrow> I s'"
    and "I s" and "run_ops look upd rem ops s = Returns (s', as)"
  shows "I s'"
  using assms
proof (induction ops arbitrary: s as)
  case Nil
  then show ?case by simp
next
  case (Cons op ops)
  show ?case
  proof (cases op)
    case (Put k v)
    then obtain t where "upd s k v = Returns t" "run_ops look upd rem ops t = Returns (s', as)"
      using Cons.prems(4) by (auto simp: run_simps)
    then show ?thesis using Cons.IH [of t as] Cons.prems(1) [of k v s t] Cons.prems Put by auto
  next
    case (Erase k)
    then obtain t where "rem s k = Returns t" "run_ops look upd rem ops t = Returns (s', as)"
      using Cons.prems(4) by (auto simp: run_simps)
    then show ?thesis using Cons.IH [of t as] Cons.prems by auto
  next
    case (Query k)
    then obtain bs where "run_ops look upd rem ops s = Returns (s', bs)"
      using Cons.prems(4) by (auto simp: run_simps)
    then show ?thesis using Cons.IH [of s bs] Cons.prems by auto
  qed
qed

locale index_spec =
  fixes inv :: "'s \<Rightarrow> bool" and abst :: "'s \<Rightarrow> 'k \<rightharpoonup> 'v" and cap :: "'s \<Rightarrow> nat"
    and look :: "'s \<Rightarrow> 'k \<Rightarrow> 'v option run"
    and upd :: "'s \<Rightarrow> 'k \<Rightarrow> 'v \<Rightarrow> 's run"
    and rem :: "'s \<Rightarrow> 'k \<Rightarrow> 's run"
  assumes look_law: "inv s \<Longrightarrow> look s k = Returns (abst s k)"
    and upd_law: "inv s \<Longrightarrow> k \<in> dom (abst s) \<or> card (dom (abst s)) < cap s \<Longrightarrow>
      \<exists>s'. upd s k v = Returns s' \<and> inv s' \<and> abst s' = (abst s)(k \<mapsto> v) \<and> cap s' = cap s"
    and rem_law: "inv s \<Longrightarrow>
      \<exists>s'. rem s k = Returns s' \<and> inv s' \<and> abst s' = (abst s)(k := None) \<and> cap s' = cap s"
begin

lemma run_ops_refine:
  "inv s \<Longrightarrow> fits (cap s) ops (abst s) \<Longrightarrow>
   \<exists>s'. run_ops look upd rem ops s = Returns (s', snd (spec_ops ops (abst s))) \<and> inv s' \<and>
     abst s' = fst (spec_ops ops (abst s)) \<and> cap s' = cap s"
proof (induction ops arbitrary: s)
  case Nil
  then show ?case by simp
next
  case (Cons op ops)
  show ?case
  proof (cases op)
    case (Put k v)
    then obtain s' where "upd s k v = Returns s'" "inv s'" "abst s' = (abst s)(k \<mapsto> v)" "cap s' = cap s"
      using upd_law [OF Cons.prems(1)] Cons.prems(2) by auto
    then show ?thesis using Put Cons.IH [of s'] Cons.prems(2) by (simp del: fun_upd_apply)
  next
    case (Erase k)
    then obtain s' where "rem s k = Returns s'" "inv s'" "abst s' = (abst s)(k := None)" "cap s' = cap s"
      using rem_law [OF Cons.prems(1)] by auto
    then show ?thesis using Erase Cons.IH [of s'] Cons.prems(2) by (simp del: fun_upd_apply)
  next
    case (Query k)
    then obtain s' where "run_ops look upd rem ops s = Returns (s', snd (spec_ops ops (abst s)))" "inv s'"
        "abst s' = fst (spec_ops ops (abst s))" "cap s' = cap s"
      using Cons.IH [OF Cons.prems(1)] Cons.prems(2) by auto
    then show ?thesis using Query look_law [OF Cons.prems(1)] by (simp split: prod.split)
  qed
qed

text \<open>What a lookup answers after an update and after a removal.\<close>

lemma look_after_upd:
  assumes "inv s" and "k \<in> dom (abst s) \<or> card (dom (abst s)) < cap s"
  shows "\<exists>s'. upd s k v = Returns s' \<and> look s' j = (if j = k then Returns (Some v) else look s j)"
  using upd_law [OF assms, of v] look_law assms(1) by force

lemma look_after_rem:
  assumes "inv s"
  shows "\<exists>s'. rem s k = Returns s' \<and> look s' j = (if j = k then Returns None else look s j)"
  using rem_law [OF assms, of k] look_law assms by force

end

end
