(* ===== verification/Pet_Dict.thy ===== *)
theory Pet_Dict
  imports Pet_Init Index_Spec
begin

text \<open>
  PetHash as a dictionary: the interface \<open>index_spec\<close> interpreted on \<open>Get\<close>, \<open>Set\<close> and
  \<open>Delete\<close>, and the properties of the single operations.
\<close>

section \<open>PetHash offers the index contract\<close>

text \<open>\<open>Set\<close> without an expiry check, keeping the table and dropping the returned pointer.\<close>

definition Set_table :: "bool \<Rightarrow> PetHash \<Rightarrow> u64 \<Rightarrow> u64 \<Rightarrow> PetHash run" where
  "Set_table force h key v = run_bind (PetHash_Set h key v None force) (\<lambda>(h', s). Returns h')"

text \<open>The number of keys up to which a table never is \<open>Full\<close> before an insertion.\<close>

definition max_keys :: "PetHash \<Rightarrow> nat" where
  "max_keys h = (1260 * nchunks h + 99) div 100"

definition ready :: "PetHash \<Rightarrow> bool" where
  "ready h \<longleftrightarrow> pet_inv h \<and> settled h"

lemma dom_abs_map: "dom (abs_map h) = key_at h ` used h"
proof (rule set_eqI)
  show "k \<in> dom (abs_map h) \<longleftrightarrow> k \<in> key_at h ` used h" for k
    using abs_map_None [of h k] by (simp only: dom_def mem_Collect_eq not_not)
qed

lemma card_dom_abs_map: "pet_invp P h \<Longrightarrow> card (dom (abs_map h)) = card (used h)"
  using pet_invpD(4) by (simp add: dom_abs_map card_image)

lemma below_max_keys:
  assumes "pet_invp P h"
  shows "card (dom (abs_map h)) < max_keys h \<longleftrightarrow> \<not> Full h"
  using Full_iff [OF assms] by (auto simp: card_dom_abs_map [OF assms] max_keys_def)

lemma Set_table_law:
  assumes "ready h" and "k \<in> dom (abs_map h) \<or> card (dom (abs_map h)) < max_keys h"
  shows "\<exists>h'. Set_table force h k v = Returns h' \<and> ready h' \<and> abs_map h' = (abs_map h)(k \<mapsto> v) \<and>
    max_keys h' = max_keys h"
proof -
  have inv: "pet_inv h" "settled h" using assms(1) by (auto simp: ready_def)
  have "\<exists>h' s. PetHash_Set h k v None force = Returns (h', s) \<and> stored h k v {} h' s"
  proof (cases "abs_map h k")
    case None
    then have nf: "\<not> Full h" using assms(2) below_max_keys [OF inv(1)] by auto
    then show ?thesis using insert_ok_exact [OF PetHash_Set_ok [OF inv]] by (auto simp: can_insert_def)
  next
    case (Some w)
    then obtain s where "s \<in> used h" "key_at h s = k" by (auto dest: abs_map_SomeD)
    then show ?thesis using PetHash_Set_hit [OF inv(1), of s] by blast
  qed
  then show ?thesis
    using inv by (auto simp: Set_table_def stored_def ready_def max_keys_def restrict_map_def)
qed

lemma Delete_law:
  assumes "ready h"
  shows "\<exists>h'. PetHash_Delete h k = Returns h' \<and> ready h' \<and> abs_map h' = (abs_map h)(k := None) \<and>
    max_keys h' = max_keys h"
proof -
  obtain h' where h': "PetHash_Delete h k = Returns h'" "pet_inv h'" "settled h'" "nchunks h' = nchunks h"
      "abs_map h' = (abs_map h)(k := None)"
    using PetHash_Delete_abs [of "{}" h k] assms by (auto simp: ready_def)
  then show ?thesis by (simp add: ready_def max_keys_def)
qed

lemma PetHash_Initialize_ok:
  assumes "unat cap < 2 ^ 49"
  shows "\<exists>h. PetHash_Initialize cap False = Returns h \<and> pet_inv h \<and> settled h \<and>
    abs_map h = Map.empty \<and> unat cap \<le> max_keys h"
proof -
  obtain c where c: "apply_load_factor cap = Returns c" "10 * unat cap < 9 * (unat c + 1) + 1"
      "unat c \<le> 2 * unat cap"
    using apply_load_factor_bounds [OF assms] by auto
  obtain r k where r: "OverFallChunkNum c = Returns r" "unat r = 2 ^ k" "k \<le> 53" "unat c \<le> 14 * 2 ^ k"
    using OverFallChunkNum_ok [of c] c(3) assms by auto
  note e = empty_table_facts [OF r(2,3)]
  have "PetHash_Initialize cap False = Returns (empty_table r)"
    by (simp add: PetHash_Initialize_def effective_capacity_def c(1) r(1) empty_table_def)
  moreover have "unat cap \<le> max_keys (empty_table r)"
    using c(2) r(4) by (simp add: max_keys_def e(4))
  ultimately show ?thesis using e by auto
qed

interpretation pet: index_spec ready abs_map max_keys PetHash_Get "Set_table force" PetHash_Delete
  for force
proof unfold_locales
  show "ready h \<Longrightarrow> PetHash_Get h k = Returns (abs_map h k)" for h k
    by (simp add: ready_def PetHash_Get_abs [of "{}"])
qed (rule Set_table_law Delete_law; assumption)+

lemma item_pos_bounds:
  assumes "pet_invp P h" and "s \<in> used h"
  shows "unat (item_pos s div of_nat kChunkSize) = fst s" "unat (item_pos s mod of_nat kChunkSize) = snd s"
    "item_pos s < capacity h" "0 \<le> sint (item_pos s)"
proof -
  note b = used_bounds [OF assms]
  have u: "unat (item_pos s) = fst s * 14 + snd s"
    using b by (simp add: item_pos_def kChunkSize_def kMaxSize_def unat_word_ariths unat_of_nat)
  have "fst s * 14 + snd s < 14 * nchunks h" using b by linarith
  then show "item_pos s < capacity h"
    using u pet_invpD(1) [OF assms(1)] by (simp add: word_less_nat_alt shape_def)
  have "unat (item_pos s) < 2 ^ 63" using u b by simp
  then show "0 \<le> sint (item_pos s)" by (simp add: sint_unat)
  show "unat (item_pos s div of_nat kChunkSize) = fst s" "unat (item_pos s mod of_nat kChunkSize) = snd s"
    using item_pos_parts b by simp_all
qed

section \<open>A full table\<close>

text \<open>One chunk whose fourteen slots hold the keys 1 to 14.\<close>

definition full_table :: PetHash where
  "full_table = \<lparr>capacity = 14, chunk_num = 1, dict_size = 14,
     chunk_table = [\<lparr>tags = map (\<lambda>i. Sign (Hash (of_nat i + 1))) [0..<14], ch_size = 14,
       overflow_count = 0, is_migrating = False,
       vals = map (\<lambda>i. \<lparr>first = of_nat i + 1, second = of_nat i\<rparr>) [0..<14]\<rparr>]\<rparr>"

lemma full_table_used: "used full_table = {0} \<times> {..<14}"
  by (auto simp: used_iff full_table_def nchunks_def InUse_def Sign_nonzero)

lemma full_table_entry:
  "i < 14 \<Longrightarrow> key_at full_table (0, i) = of_nat i + 1" "i < 14 \<Longrightarrow> val_at full_table (0, i) = of_nat i"
  by (simp_all add: full_table_def key_at_def val_at_def)

lemma small_of_nat_inj: "i < 14 \<Longrightarrow> j < 14 \<Longrightarrow> (of_nat i :: u64) = of_nat j \<longleftrightarrow> i = j"
  by (auto simp: word_unat_eq_iff unat_of_nat)

lemma full_table_facts:
  "pet_inv full_table" "settled full_table" "Full full_table" "chunk_full full_table 0"
  "nchunks full_table = 1" "abs_map full_table 99 = None" "card (used full_table) = 14"
proof -
  show n: "nchunks full_table = 1" by (simp add: full_table_def nchunks_def)
  show c: "card (used full_table) = 14" by (simp add: full_table_used)
  show "settled full_table" by (simp add: full_table_def settled_def)
  show "Full full_table" by (simp add: full_table_def Full_def kMaxLoadFactor_def)
  show "chunk_full full_table 0" by (simp add: full_table_def chunk_full_def)
  have "(99 :: u64) \<noteq> of_nat i + 1" if "i < 14" for i
    using that by (simp add: word_unat_eq_iff unat_word_ariths unat_of_nat)
  then show "abs_map full_table 99 = None"
    by (auto simp: abs_map_None full_table_used full_table_entry)
  have "chunk_wf (chunk_table full_table ! 0)"
    by (simp add: full_table_def chunk_wf_def kMaxSize_def Sign_nonzero)
  moreover have "inj_on (key_at full_table) (used full_table)"
    by (rule inj_onI) (auto simp: full_table_used full_table_entry small_of_nat_inj)
  moreover have "tag_at full_table s = Sign (Hash (key_at full_table s))" if "s \<in> used full_table" for s
    using that by (auto simp: full_table_used full_table_entry tag_at_def) (simp add: full_table_def)
  moreover have "shape full_table" by (auto simp: shape_def n intro: bexI [of _ 0]) (simp_all add: full_table_def)
  moreover have "passing full_table p = {}" if "p < 1" for p
    using that by (auto simp: passing_def full_table_used n trail_def path_def)
  ultimately show "pet_inv full_table"
    using c by (simp add: pet_invp_def all_chunks_iff n overflow_bound_def) (simp add: full_table_def)
qed

lemma full_table_key: "i < 14 \<Longrightarrow> of_nat i + 1 \<in> dom (abs_map full_table)"
  using full_table_entry(1) [of i] by (auto simp: dom_abs_map full_table_used intro!: rev_image_eqI [of "(0, i)"])

lemma empty_used_list:
  assumes "unat n = 2 ^ k" and "k \<le> 53"
  shows "used_list (empty_table n) = []"
  using empty_table_facts(3,4) [OF assms] dom_abs_map [of "empty_table n"] by (simp add: used_def)

section \<open>Properties of the operations\<close>

text \<open>
  (C1) Any sequence of \<open>Set\<close>, \<open>Delete\<close> and \<open>Get\<close> on a table that satisfies the invariant
  returns, answers every lookup as a finite map would, and leaves a table that satisfies the
  invariant and stands for the resulting map, as long as the map never grows past the load
  limit of the table.
\<close>

theorem PetHash_refines_map:
  assumes "pet_inv h" and "settled h" and "fits (max_keys h) ops (abs_map h)"
  shows "\<exists>h'. run_ops PetHash_Get (Set_table force) PetHash_Delete ops h =
      Returns (h', snd (spec_ops ops (abs_map h))) \<and> pet_inv h' \<and> settled h' \<and>
      abs_map h' = fst (spec_ops ops (abs_map h))"
  using pet.run_ops_refine [of h ops force] assms by (auto simp: ready_def)

theorem PetHash_refines_map_witness:
  "\<exists>h'. run_ops PetHash_Get (Set_table False) PetHash_Delete
      [Put 5 7, Query 5, Put 5 8, Put 21 9, Query 5, Erase 5, Query 5] (empty_table 2) =
      Returns (h', [Some 7, Some 8, None]) \<and> abs_map h' = [21 \<mapsto> 9]"
proof -
  note e = empty_table_facts [of 2 1, simplified]
  have f: "fits (max_keys (empty_table 2)) [Put 5 7, Query 5, Put 5 8, Put 21 9, Query 5, Erase 5, Query 5] Map.empty"
    by (rule puts_fit) (simp_all add: max_keys_def e)
  have "(Map.empty(5 := None, 21 \<mapsto> 9)) = ([21 \<mapsto> 9] :: u64 \<rightharpoonup> u64)" by auto
  with PetHash_refines_map [of "empty_table 2", OF e(1,2), unfolded e(3), OF f, of False]
  show ?thesis by (auto simp: fun_upd_twist)
qed

text \<open>
  (C5) \<open>Initialize\<close> with a capacity of fewer than \<open>2 ^ 49\<close> keys, scaled by the load factor
  in double precision, builds an empty table in which that many insertions succeed: every
  sequence with at most \<open>capacity\<close> calls of \<open>Set\<close> behaves as on a map.
\<close>

theorem PetHash_Initialize_capacity:
  assumes "unat cap < 2 ^ 49" and "puts ops \<le> unat cap"
  shows "\<exists>h h'. PetHash_Initialize cap False = Returns h \<and> pet_inv h \<and> settled h \<and>
      abs_map h = Map.empty \<and>
      run_ops PetHash_Get (Set_table force) PetHash_Delete ops h =
        Returns (h', snd (spec_ops ops Map.empty)) \<and>
      abs_map h' = fst (spec_ops ops Map.empty)"
proof -
  obtain h where h: "PetHash_Initialize cap False = Returns h" "ready h" "abs_map h = Map.empty"
      "unat cap \<le> max_keys h"
    using PetHash_Initialize_ok [OF assms(1)] by (auto simp: ready_def)
  have "fits (max_keys h) ops (abs_map h)" using assms(2) h by (intro puts_fit) simp_all
  then show ?thesis using pet.run_ops_refine [of h ops force] h by (auto simp: ready_def)
qed

theorem PetHash_Initialize_capacity_witness:
  "\<exists>h h'. PetHash_Initialize 3 False = Returns h \<and> pet_inv h \<and>
      run_ops PetHash_Get (Set_table False) PetHash_Delete [Put 1 2, Query 1, Put 9 4, Query 3] h =
        Returns (h', [Some 2, None])"
  using PetHash_Initialize_capacity [of 3 "[Put 1 2, Query 1, Put 9 4, Query 3]" False] by auto

text \<open>
  (C4) \<open>Get\<close> returns the stored value of a key, whether or not chunks are being migrated,
  and reports a key that is not stored as absent when no chunk is being migrated.
\<close>

theorem PetHash_Get_correct:
  assumes "pet_inv h" and "key \<in> dom (abs_map h) \<or> settled h"
  shows "PetHash_Get h key = Returns (abs_map h key)"
  using assms PetHash_Get_stored [OF assms(1)] PetHash_Get_abs [OF assms(1)] by auto

theorem PetHash_Get_correct_witness:
  "PetHash_Get (empty_table 4) 77 = Returns None"
  using PetHash_Get_correct [of "empty_table 4" 77] empty_table_facts [of 4 2] by simp

text \<open>
  (C6) \<open>Lookup\<close> answers -1 for an absent key; for a stored key it returns a flat index inside
  the capacity that \<open>IndexInUse\<close> accepts and at which \<open>GetById\<close> finds the key and its value.
\<close>

theorem Lookup_GetById:
  assumes "pet_inv h" and "settled h"
  shows "case abs_map h key of
      None \<Rightarrow> Lookup h key = Returns (-1)
    | Some v \<Rightarrow> \<exists>pos. Lookup h key = Returns (sint pos) \<and> 0 \<le> sint pos \<and> pos < capacity h \<and>
        IndexInUse h pos \<and> GetById h pos = \<lparr>first = key, second = v\<rparr>"
proof (cases "abs_map h key")
  case None
  then have "GetInternal h key = Some None"
    using GetInternal_miss [OF assms(1) _ assms(2)] by (simp add: abs_map_None)
  then show ?thesis using None by (simp add: Lookup_def)
next
  case (Some v)
  then obtain s where s: "s \<in> used h" "key_at h s = key" "val_at h s = v" by (auto dest: abs_map_SomeD)
  note g = GetInternal_hit [OF assms(1) s(1)] and b = item_pos_bounds [OF assms(1) s(1)]
  have "GetById h (item_pos s) = \<lparr>first = key, second = v\<rparr>" "IndexInUse h (item_pos s)"
    using s b by (auto simp: GetById_def IndexInUse_def key_at_def val_at_def used_iff)
  then show ?thesis using Some g s(2) b by (auto simp: Lookup_def intro!: exI [of _ "item_pos s"])
qed

theorem Lookup_GetById_witness:
  "Lookup (empty_table 4) 77 = Returns (-1)"
  using Lookup_GetById [of "empty_table 4" 77] empty_table_facts [of 4 2] by simp



text \<open>
  (C7) Without an expiry check an insertion of an absent key ends the process with
  \<open>dict OOM\<close> exactly when the table is at its load limit, the home chunk of the key has no
  free slot, and the insertion is not forced or the table has a single chunk. In the last case
  the eviction has used up the only iteration of the loop.
\<close>

theorem PetHash_Insert_oom_iff:
  assumes "pet_inv h" and "abs_map h key = None"
  shows "PetHash_Insert h key v None force = Aborts (LogFatal ''dict OOM'') \<longleftrightarrow>
    Full h \<and> chunk_full h (unat (HomeChunk h key)) \<and> (force \<longrightarrow> nchunks h = 1)"
  using PetHash_Insert_cases [OF assms, of force v] by (auto simp: insert_ok_def split: if_splits)

theorem PetHash_Insert_oom_iff_witness:
  "PetHash_Insert full_table 99 1 None True = Aborts (LogFatal ''dict OOM'')"
  using PetHash_Insert_oom_iff [of full_table 99 1 True] full_table_facts
  by (simp add: HomeChunk_def full_table_def)

text \<open>
  (C3) \<open>Delete\<close> removes exactly the binding of its key, whatever else is stored, and keeps the
  invariant; a stored key can be deleted even while chunks are being migrated.
\<close>

theorem PetHash_Delete_correct:
  assumes "pet_inv h" and "key \<in> dom (abs_map h) \<or> settled h"
  shows "\<exists>h'. PetHash_Delete h key = Returns h' \<and> pet_inv h' \<and>
      abs_map h' = (abs_map h)(key := None) \<and>
      card (used h') = card (used h) - of_bool (key \<in> dom (abs_map h))"
proof (cases "key \<in> dom (abs_map h)")
  case True
  then obtain s where s: "s \<in> used h" "key_at h s = key" by (auto simp: dom_abs_map)
  then show ?thesis
    using PetHash_Delete_hit [OF assms(1) s(1)] inv_deleted [OF assms(1) s(1)] True
      abs_deleted [OF assms(1) s(1)] used_deleted [OF assms(1) s(1)] by simp
next
  case False
  then have "(abs_map h)(key := None) = abs_map h" by auto
  then show ?thesis
    using PetHash_Delete_miss [OF assms(1)] assms False by (simp add: dom_abs_map)
qed

theorem PetHash_Delete_correct_witness:
  "\<exists>h'. PetHash_Delete full_table 3 = Returns h' \<and> pet_inv h' \<and> card (used h') = 13 \<and>
     abs_map h' 3 = None"
proof -
  have "3 \<in> dom (abs_map full_table)" using full_table_key [of 2] by simp
  then show ?thesis
    using PetHash_Delete_correct [of full_table 3] full_table_facts by auto
qed

end
