(* ===== verification/Pet_Recovery.thy ===== *)
theory Pet_Recovery
  imports Pet_Dict "HOL-Library.Multiset"
begin

text \<open>
  Recovery of a PetHash from persistent memory (\<open>src/src/pet_kv/pet_hash.h\<close>: \<open>Reload\<close>).
  The persistent truth is the array of entries: a slot is used if its key is not -1. The first
  pass of \<open>Reload\<close> recomputes the sizes and the tags of every chunk, the second one counts
  the overflow of every chunk and reports the live entries to the allocator. Both passes run
  on several threads; the second one updates shared counters, and its interleaving is a
  parameter of the model.
\<close>

section \<open>First pass\<close>

fun reload_slots :: "nat list \<Rightarrow> F14Chunk \<Rightarrow> nat \<Rightarrow> F14Chunk \<times> nat" where
  "reload_slots [] chunk cnt = (chunk, cnt)"
| "reload_slots (i # is) chunk cnt =
     (if first (vals chunk ! i) = -1 then reload_slots is chunk cnt
      else let chunk1 = chunk\<lparr>ch_size := ch_size chunk + 1\<rparr>;
               sign = Sign (Hash (first (vals chunk ! i)));
               chunk2 = (if tags chunk1 ! i \<noteq> sign then chunk1\<lparr>tags := (tags chunk1)[i := sign]\<rparr> else chunk1)
           in reload_slots is chunk2 (cnt + 1))"

definition reload_chunk :: "F14Chunk \<Rightarrow> F14Chunk \<times> nat" where
  "reload_chunk chunk = reload_slots [0..<kMaxSize] (chunk\<lparr>ch_size := 0, overflow_count := 0\<rparr>) 0"

text \<open>
  The chunks of thread \<open>i\<close> of \<open>t\<close>: a block of \<open>n / t + 1\<close> consecutive ones. The loop variable
  is an \<open>int\<close>, which overflows for \<open>2 ^ 31\<close> chunks or more.
\<close>

definition thread_chunks :: "nat \<Rightarrow> nat \<Rightarrow> nat \<Rightarrow> nat list" where
  "thread_chunks n t i =
     (let block_num = n div t + 1; left = i * block_num; right = left + block_num
      in [left..<min right n])"

fun reload_pass1 :: "nat list \<Rightarrow> F14Chunk list \<Rightarrow> nat \<Rightarrow> F14Chunk list \<times> nat" where
  "reload_pass1 [] table cnt = (table, cnt)"
| "reload_pass1 (c # cs) table cnt =
     (let (chunk, k) = reload_chunk (table ! c)
      in reload_pass1 cs (table[c := chunk]) (cnt + k))"

section \<open>Second pass\<close>

text \<open>
  What a thread of the second pass does to shared state: a call of \<open>mallocSetValid\<close>, or one
  saturating increment of an overflow counter, which the compare-and-swap loop makes atomic.
\<close>

datatype reload_act = SetValid u64 u64 | IncAt nat

partial_function (option) inc_walk :: "u64 \<Rightarrow> u64 \<Rightarrow> u64 \<Rightarrow> u64 \<Rightarrow> reload_act list option" where
  "inc_walk n step chunk_id pos =
     (if pos = chunk_id then Some []
      else Option.bind (inc_walk n step chunk_id ((pos + step) AND (n - 1)))
             (\<lambda>as. Some (IncAt (unat pos) # as)))"

definition slot_acts :: "PetHash \<Rightarrow> nat \<Rightarrow> nat \<Rightarrow> reload_act list option" where
  "slot_acts h c i =
     (let chunk = chunk_table h ! c; item = vals chunk ! i in
      if InUse chunk i then
        (let hash_value = Hash (first item);
             step = ProbeDelta (ucast (Sign hash_value));
             pos = hash_value AND (chunk_num h - 1)
         in map_option (\<lambda>as. SetValid (first item) (second item) # as)
              (inc_walk (chunk_num h) step (of_nat c) pos))
      else Some [])"

fun collect :: "'a list option list \<Rightarrow> 'a list option" where
  "collect [] = Some []"
| "collect (x # xs) = (case x of None \<Rightarrow> None | Some as \<Rightarrow> map_option (\<lambda>bs. as @ bs) (collect xs))"

definition thread_acts :: "PetHash \<Rightarrow> nat list \<Rightarrow> reload_act list option" where
  "thread_acts h cs = collect (map (\<lambda>(c, i). slot_acts h c i) (List.product cs [0..<kMaxSize]))"

text \<open>
  An interleaving of the threads: the schedule says whose next action runs, the actions left
  at its end run in order.
\<close>

fun interleave :: "nat list \<Rightarrow> 'a list list \<Rightarrow> 'a list" where
  "interleave [] tss = concat tss"
| "interleave (i # sched) tss =
     (if i < length tss \<and> tss ! i \<noteq> []
      then hd (tss ! i) # interleave sched (tss[i := tl (tss ! i)])
      else interleave sched tss)"

fun run_act :: "reload_act \<Rightarrow> PetHash \<times> (u64 \<times> u64) list \<Rightarrow> PetHash \<times> (u64 \<times> u64) list" where
  "run_act (SetValid k v) (h, log) = (h, log @ [(k, v)])"
| "run_act (IncAt p) (h, log) = (upd_chunk h p IncOverflow, log)"

section \<open>Reload\<close>

text \<open>The result is the table and the calls of \<open>mallocSetValid\<close> in the order they happen.\<close>

definition Reload ::
  "bool \<Rightarrow> nat \<Rightarrow> nat list \<Rightarrow> u64 \<Rightarrow> bool \<Rightarrow> PetHash \<Rightarrow> (PetHash \<times> (u64 \<times> u64) list) run" where
  "Reload persistence kRecoveryThread sched cap ignore_load_factor h =
     run_bind (run_check persistence ''Persistence'') (\<lambda>_.
     run_bind (effective_capacity cap ignore_load_factor) (\<lambda>cap.
     run_bind (OverFallChunkNum cap) (\<lambda>n.
       if unat n \<ge> 2 ^ 31 then Aborts (Undefined ''int chunk_id'')
       else
       let h1 = h\<lparr>chunk_num := n, capacity := n * of_nat kChunkSize, dict_size := 0\<rparr>;
           blocks = map (thread_chunks (unat n) kRecoveryThread) [0..<kRecoveryThread];
           (table, cnt) = reload_pass1 (concat blocks) (chunk_table h1) 0;
           h2 = h1\<lparr>chunk_table := table, dict_size := of_nat cnt\<rparr>
       in run_bind (run_of_option (collect (map (\<lambda>b. map_option (\<lambda>as. [as]) (thread_acts h2 b)) blocks))) (\<lambda>tss.
            Returns (fold run_act (interleave sched tss) (h2, []))))))"

section \<open>The first pass rebuilds sizes and tags\<close>

lemma reload_slots_spec:
  assumes "reload_slots is chunk cnt = (chunk', cnt')"
  shows "vals chunk' = vals chunk" "is_migrating chunk' = is_migrating chunk"
    "overflow_count chunk' = overflow_count chunk" "length (tags chunk') = length (tags chunk)"
    "cnt' = cnt + length (filter (\<lambda>i. first (vals chunk ! i) \<noteq> -1) is)"
    "ch_size chunk' = ch_size chunk + of_nat (length (filter (\<lambda>i. first (vals chunk ! i) \<noteq> -1) is))"
    "j < length (tags chunk) \<Longrightarrow> tags chunk' ! j =
       (if j \<in> set is \<and> first (vals chunk ! j) \<noteq> -1 then Sign (Hash (first (vals chunk ! j))) else tags chunk ! j)"
  using assms
  by (induction "is" chunk cnt rule: reload_slots.induct)
    (auto simp: Let_def nth_list_update_any split: if_splits)

lemma reload_chunk_spec:
  assumes "length (tags chunk) = 14" and "length (vals chunk) = 14"
    and "\<And>i. i < 14 \<Longrightarrow> first (vals chunk ! i) = -1 \<Longrightarrow> tags chunk ! i = 0"
    and "reload_chunk chunk = (chunk', k)"
  shows "chunk_wf chunk'" "vals chunk' = vals chunk" "is_migrating chunk' = is_migrating chunk"
    "overflow_count chunk' = 0" "i < 14 \<Longrightarrow> InUse chunk' i \<longleftrightarrow> first (vals chunk ! i) \<noteq> -1"
    "i < 14 \<Longrightarrow> InUse chunk' i \<Longrightarrow> tags chunk' ! i = Sign (Hash (first (vals chunk ! i)))"
    "k = length (filter (\<lambda>i. first (vals chunk ! i) \<noteq> -1) [0..<14])"
proof -
  let ?live = "\<lambda>i. first (vals chunk ! i) \<noteq> -1"
  note r = reload_slots_spec [OF assms(4) [unfolded reload_chunk_def]]
  show v: "vals chunk' = vals chunk" "is_migrating chunk' = is_migrating chunk" "overflow_count chunk' = 0"
    using r by simp_all
  show k: "k = length (filter ?live [0..<14])" using r by (simp add: kMaxSize_def)
  have t: "tags chunk' ! i = (if ?live i then Sign (Hash (first (vals chunk ! i))) else 0)" if "i < 14" for i
    using r(7) [of i] that assms(1,3) by (simp add: kMaxSize_def)
  show u: "i < 14 \<Longrightarrow> InUse chunk' i \<longleftrightarrow> ?live i" for i using t by (simp add: InUse_def Sign_nonzero)
  show "i < 14 \<Longrightarrow> InUse chunk' i \<Longrightarrow> tags chunk' ! i = Sign (Hash (first (vals chunk ! i)))"
    using t u by simp
  have len: "length (tags chunk') = 14" using r(4) assms(1) by simp
  have "tags chunk' = map ((!) (tags chunk')) [0..<14]" using map_nth [of "tags chunk'"] len by simp
  then have "length (filter (\<lambda>t. t \<noteq> 0) (tags chunk')) = length (filter (\<lambda>i. tags chunk' ! i \<noteq> 0) [0..<14])"
    by (metis (no_types, lifting) filter_map length_map o_apply filter_cong)
  also have "filter (\<lambda>i. tags chunk' ! i \<noteq> 0) [0..<14] = filter ?live [0..<14]"
    by (rule filter_cong) (simp_all add: t Sign_nonzero)
  finally have c: "length (filter (\<lambda>t. t \<noteq> 0) (tags chunk')) = k" using k by simp
  have "k \<le> 14" using k length_filter_le [of ?live "[0..<14]"] by simp
  moreover have "ch_size chunk' = of_nat k" using r(6) k by (simp add: kMaxSize_def)
  ultimately have "unat (ch_size chunk') = k" by (simp add: unat_of_nat)
  then show "chunk_wf chunk'" using c len v(1) assms(2) by (simp add: chunk_wf_def kMaxSize_def)
qed

lemma reload_pass1_spec:
  assumes "distinct cs" and "set cs \<subseteq> {..<length table}"
    and "reload_pass1 cs table cnt = (table', cnt')"
  shows "length table' = length table"
    "c < length table \<Longrightarrow> table' ! c = (if c \<in> set cs then fst (reload_chunk (table ! c)) else table ! c)"
    "cnt' = cnt + sum_list (map (\<lambda>c. snd (reload_chunk (table ! c))) cs)"
proof -
  have "length table' = length table \<and>
    (\<forall>c < length table. table' ! c = (if c \<in> set cs then fst (reload_chunk (table ! c)) else table ! c)) \<and>
    cnt' = cnt + sum_list (map (\<lambda>c. snd (reload_chunk (table ! c))) cs)"
    using assms
  proof (induction cs arbitrary: table cnt)
    case Nil
    then show ?case by simp
  next
    case (Cons a cs)
    obtain ch k where r: "reload_chunk (table ! a) = (ch, k)" by fastforce
    have eq: "reload_pass1 cs (table[a := ch]) (cnt + k) = (table', cnt')" using Cons.prems(3) r by simp
    have "map (\<lambda>c. snd (reload_chunk (table[a := ch] ! c))) cs = map (\<lambda>c. snd (reload_chunk (table ! c))) cs"
      using Cons.prems(1) by (intro map_cong refl) (metis nth_list_update_neq distinct.simps(2))
    with Cons.IH [OF _ _ eq] Cons.prems(1,2) r show ?case by (auto simp: nth_list_update)
  qed
  then show "length table' = length table"
    "c < length table \<Longrightarrow> table' ! c = (if c \<in> set cs then fst (reload_chunk (table ! c)) else table ! c)"
    "cnt' = cnt + sum_list (map (\<lambda>c. snd (reload_chunk (table ! c))) cs)" by auto
qed

text \<open>The blocks of the threads partition the chunks.\<close>

lemma blocks_prefix:
  "concat (map (\<lambda>i. [i * b..<min (i * b + b) n]) [0..<t]) = [0..<min (t * b) n]"
proof (induction t)
  case (Suc t)
  have "[0..<min (t * b) n] @ [t * b..<min (t * b + b) n] = [0..<min (Suc t * b) n]"
  proof (cases "t * b \<le> n")
    case True
    then have "t * b \<le> min (Suc t * b) n" by simp
    then show ?thesis using upt_add_eq_append [of 0 "t * b" "min (Suc t * b) n - t * b"] True
      by (simp add: add.commute)
  qed (simp add: min_def)
  then show ?case using Suc by simp
qed simp

lemma blocks_partition:
  assumes "0 < t"
  shows "concat (map (thread_chunks n t) [0..<t]) = [0..<n]"
proof -
  have "n div t * t + n mod t = n" "n mod t < t" using assms by simp_all
  then have "n \<le> t * (n div t + 1)" unfolding add_mult_distrib2 by (simp only: mult.commute)
  then have "min (t * (n div t + 1)) n = n" by simp
  moreover have "thread_chunks n t = (\<lambda>i. [i * (n div t + 1)..<min (i * (n div t + 1) + (n div t + 1)) n])"
    by (rule ext) (simp only: thread_chunks_def Let_def)
  ultimately show ?thesis using blocks_prefix [of "n div t + 1" n t] by (simp only:)
qed

section \<open>The second pass counts the overflow\<close>

lemma inc_walk_path:
  assumes sh: "shape h" and d: "d < nchunks h" and c: "unat chunk_id = path (nchunks h) key d"
  shows "m \<le> d \<Longrightarrow> unat pos = path (nchunks h) key m \<Longrightarrow>
    inc_walk (chunk_num h) (ProbeDelta (ucast (Sign (Hash key)))) chunk_id pos =
    Some (map (\<lambda>j. IncAt (path (nchunks h) key j)) [m..<d])"
proof (induction "d - m" arbitrary: m pos)
  case 0
  then have "pos = chunk_id" using c by (simp add: word_unat_eq_iff)
  then show ?case using 0 by (simp add: inc_walk.simps)
next
  case (Suc x)
  obtain k where k: "nchunks h = 2 ^ k" "unat (chunk_num h) = 2 ^ k" using sh by (rule shapeE)
  have md: "m < d" using Suc.hyps(2) by simp
  have "path (nchunks h) key m \<noteq> path (nchunks h) key d"
    using path_eq_iff [OF k(1), of m d key] md d by simp
  then have ne: "pos \<noteq> chunk_id" using Suc.prems(2) c by auto
  let ?pos = "(pos + ProbeDelta (ucast (Sign (Hash key)))) AND (chunk_num h - 1)"
  have "unat ?pos = path (nchunks h) key (Suc m)"
    using word_path_Suc [OF k(2)] Suc.prems(2) k(1) by simp
  then have "inc_walk (chunk_num h) (ProbeDelta (ucast (Sign (Hash key)))) chunk_id ?pos =
      Some (map (\<lambda>j. IncAt (path (nchunks h) key j)) [Suc m..<d])"
    using Suc.hyps md by (intro Suc.hyps(1)) simp_all
  then show ?case using ne md Suc.prems(2)
    by (simp add: inc_walk.simps [of _ _ _ pos] upt_conv_Cons)
qed

text \<open>The actions for one stored entry.\<close>

definition entry_acts :: "PetHash \<Rightarrow> location \<Rightarrow> reload_act list" where
  "entry_acts h s = SetValid (key_at h s) (val_at h s) #
     map IncAt (trail (nchunks h) (key_at h s) (fst s))"

lemma slot_acts_entry:
  assumes sh: "shape h" and c: "c < nchunks h"
  shows "slot_acts h c i = Some (if InUse (chunk_table h ! c) i then entry_acts h (c, i) else [])"
proof (cases "InUse (chunk_table h ! c) i")
  case True
  obtain k where k: "nchunks h = 2 ^ k" "unat (chunk_num h) = 2 ^ k" "k \<le> 53" using sh by (rule shapeE)
  let ?key = "key_at h (c, i)"
  obtain d where d: "d < nchunks h" "path (nchunks h) ?key d = c" using path_covers [OF k(1) c] by blast
  have "(2 :: nat) ^ k \<le> 2 ^ 53" using k(3) by (intro power_increasing) simp_all
  then have u: "unat (of_nat c :: u64) = c" using c k(1) by (simp add: unat_of_nat)
  have "inc_walk (chunk_num h) (ProbeDelta (ucast (Sign (Hash ?key)))) (of_nat c)
          (Hash ?key AND (chunk_num h - 1)) = Some (map IncAt (trail (nchunks h) ?key c))"
    using inc_walk_path [OF sh d(1), of "of_nat c" ?key 0] u d word_path_0 [OF k(2), of ?key] k(1)
      trail_path [OF k(1) d(1), of ?key] by (simp add: o_def)
  then show ?thesis using True
    by (simp add: slot_acts_def Let_def entry_acts_def key_at_def val_at_def)
qed (simp add: slot_acts_def Let_def)

lemma concat_map_singleton: "concat (map (\<lambda>x. [f x]) xs) = map f xs"
  by (induction xs) auto

lemma collect_Some: "collect (map (\<lambda>x. Some (f x)) xs) = Some (concat (map f xs))"
  by (induction xs) auto

lemma concat_map_if: "concat (map (\<lambda>x. if P x then f x else []) xs) = concat (map f (filter P xs))"
  by (induction xs) auto

definition block_acts :: "PetHash \<Rightarrow> nat list \<Rightarrow> reload_act list" where
  "block_acts h cs = concat (map (entry_acts h)
     (filter (\<lambda>(c, i). InUse (chunk_table h ! c) i) (List.product cs [0..<14])))"

lemma thread_acts_block:
  assumes "shape h" and "set cs \<subseteq> {..<nchunks h}"
  shows "thread_acts h cs = Some (block_acts h cs)"
proof -
  have "map (\<lambda>(c, i). slot_acts h c i) (List.product cs [0..<kMaxSize]) =
      map (\<lambda>s. Some (if InUse (chunk_table h ! fst s) (snd s) then entry_acts h s else []))
        (List.product cs [0..<14])"
    unfolding kMaxSize_def
    by (rule map_cong) (use assms slot_acts_entry [OF assms(1)] in auto)
  then show ?thesis
    by (simp add: thread_acts_def block_acts_def collect_Some concat_map_if case_prod_unfold)
qed

lemma product_append: "List.product (xs @ xs') ys = List.product xs ys @ List.product xs' ys"
  by (induction xs) auto

lemma blocks_acts:
  assumes "concat blocks = [0..<nchunks h]"
  shows "concat (map (block_acts h) blocks) = concat (map (entry_acts h) (used_list h))"
proof -
  have "concat (map (block_acts h) bs) = block_acts h (concat bs)" for bs
    by (induction bs) (auto simp: block_acts_def product_append)
  then show ?thesis using assms by (simp add: block_acts_def used_list_def)
qed

lemma mset_concat_upd:
  assumes "i < length tss" and "tss ! i \<noteq> []"
  shows "mset (concat tss) = add_mset (hd (tss ! i)) (mset (concat (tss[i := tl (tss ! i)])))"
proof -
  have "concat tss = concat (take i tss) @ tss ! i @ concat (drop (Suc i) tss)"
    using id_take_nth_drop [OF assms(1)] by (metis concat.simps(2) concat_append)
  moreover have "concat (tss[i := tl (tss ! i)]) = concat (take i tss) @ tl (tss ! i) @ concat (drop (Suc i) tss)"
    by (simp add: upd_conv_take_nth_drop [OF assms(1)])
  moreover have "mset (tss ! i) = add_mset (hd (tss ! i)) (mset (tl (tss ! i)))"
    using assms(2) by (cases "tss ! i") auto
  ultimately show ?thesis by simp
qed

lemma mset_interleave: "mset (interleave sched tss) = mset (concat tss)"
proof (induction sched tss rule: interleave.induct)
  case (2 i sched tss)
  show ?case
  proof (cases "i < length tss \<and> tss ! i \<noteq> []")
    case True
    then have "mset (concat tss) = add_mset (hd (tss ! i)) (mset (concat (tss[i := tl (tss ! i)])))"
      by (simp add: mset_concat_upd)
    then show ?thesis using True 2 by simp
  qed (use 2 in auto)
qed simp

text \<open>Running the actions: only how often each counter is raised matters.\<close>

fun incs :: "reload_act list \<Rightarrow> nat list" where
  "incs [] = []"
| "incs (IncAt p # as) = p # incs as"
| "incs (SetValid k v # as) = incs as"

fun valids :: "reload_act list \<Rightarrow> (u64 \<times> u64) list" where
  "valids [] = []"
| "valids (IncAt p # as) = valids as"
| "valids (SetValid k v # as) = (k, v) # valids as"

definition inc_all :: "PetHash \<Rightarrow> nat list \<Rightarrow> PetHash" where
  "inc_all h ps = fold (\<lambda>p g. upd_chunk g p IncOverflow) ps h"

lemma run_acts: "fold run_act as (h, log) = (inc_all h (incs as), log @ valids as)"
  by (induction as arbitrary: h log rule: incs.induct) (auto simp: inc_all_def)

lemma incs_append [simp]: "incs (as @ bs) = incs as @ incs bs"
  by (induction as rule: incs.induct) auto

lemma incs_IncAt [simp]: "incs (map IncAt ps) = ps"
  by (induction ps) auto

lemma valids_append [simp]: "valids (as @ bs) = valids as @ valids bs"
  by (induction as rule: valids.induct) auto

lemma valids_IncAt [simp]: "valids (map IncAt ps) = []"
  by (induction ps) auto

lemma mset_incs: "mset (incs as) = image_mset (\<lambda>a. case a of IncAt p \<Rightarrow> p) (filter_mset (\<lambda>a. \<exists>p. a = IncAt p) (mset as))"
  by (induction as rule: incs.induct) auto

lemma mset_valids: "mset (valids as) = image_mset (\<lambda>a. case a of SetValid k v \<Rightarrow> (k, v)) (filter_mset (\<lambda>a. \<exists>k v. a = SetValid k v) (mset as))"
  by (induction as rule: valids.induct) auto

lemma inc_all_fields [simp]:
  "nchunks (inc_all h ps) = nchunks h" "chunk_num (inc_all h ps) = chunk_num h"
  "capacity (inc_all h ps) = capacity h" "dict_size (inc_all h ps) = dict_size h"
  by (induction ps arbitrary: h) (simp_all add: inc_all_def)

lemma nth_inc_all:
  "q < nchunks h \<Longrightarrow> chunk_table (inc_all h ps) ! q = (IncOverflow ^^ count_list ps q) (chunk_table h ! q)"
proof (induction ps arbitrary: h)
  case Nil
  then show ?case by (simp add: inc_all_def)
next
  case (Cons p ps)
  have "inc_all h (p # ps) = inc_all (upd_chunk h p IncOverflow) ps" by (simp add: inc_all_def)
  then show ?case using Cons by (simp add: nth_upd_chunk funpow_swap1)
qed

lemma IncOverflow_pow:
  "tags ((IncOverflow ^^ k) c) = tags c" "vals ((IncOverflow ^^ k) c) = vals c"
  "ch_size ((IncOverflow ^^ k) c) = ch_size c" "is_migrating ((IncOverflow ^^ k) c) = is_migrating c"
  by (induction k) simp_all

lemma IncOverflow_saturates:
  assumes "overflow_count c = 0"
  shows "overflow_count ((IncOverflow ^^ k) c) = 255 \<or> unat (overflow_count ((IncOverflow ^^ k) c)) = k"
proof (induction k)
  case 0
  then show ?case using assms by simp
next
  case (Suc k)
  let ?c = "(IncOverflow ^^ k) c"
  show ?case
  proof (cases "overflow_count ?c = 255")
    case False
    then have "unat (overflow_count ?c + 1) = k + 1" using Suc u8_Suc by simp
    then show ?thesis using False by (simp add: IncOverflow_def [of ?c])
  qed (simp add: IncOverflow_def [of ?c])
qed

lemma count_list_mset: "mset xs = mset ys \<Longrightarrow> count_list xs x = count_list ys x"
proof -
  have "count_list zs x = count (mset zs) x" for zs by (induction zs) auto
  then show "mset xs = mset ys \<Longrightarrow> count_list xs x = count_list ys x" by simp
qed

lemma count_list_distinct: "distinct xs \<Longrightarrow> count_list xs x = of_bool (x \<in> set xs)"
  by (induction xs) auto

text \<open>Over all entries, a counter is raised once for every entry that passes its chunk.\<close>

lemma count_entry_acts:
  assumes "shape h"
  shows "count_list (incs (concat (map (entry_acts h) ss))) p =
    length (filter (\<lambda>s. p \<in> set (trail (nchunks h) (key_at h s) (fst s))) ss)"
proof -
  obtain k where k: "nchunks h = 2 ^ k" using assms by (rule shapeE)
  show ?thesis
    by (induction ss) (auto simp: entry_acts_def count_list_append count_list_distinct [OF distinct_trail [OF k]])
qed

lemma count_passing:
  assumes "shape h"
  shows "count_list (incs (concat (map (entry_acts h) (used_list h)))) p = card (passing h p)"
proof -
  have "passing h p = set (filter (\<lambda>s. p \<in> set (trail (nchunks h) (key_at h s) (fst s))) (used_list h))"
    by (auto simp: passing_def used_def)
  then show ?thesis
    using count_entry_acts [OF assms] distinct_card [OF distinct_filter [OF distinct_used_list]] by metis
qed

lemma valids_entry_acts:
  "valids (concat (map (entry_acts h) ss)) = map (\<lambda>s. (key_at h s, val_at h s)) ss"
  by (induction ss) (simp_all add: entry_acts_def)

section \<open>Recovery\<close>

text \<open>
  What has to be true of the persistent memory: in every chunk a slot whose key is -1 has no
  tag left, and the live keys are distinct. Sizes, the tags of live slots and the overflow
  counters may be anything.
\<close>

definition live :: "PetHash \<Rightarrow> location \<Rightarrow> bool" where
  "live h s \<longleftrightarrow> key_at h s \<noteq> -1"

definition live_list :: "PetHash \<Rightarrow> location list" where
  "live_list h = filter (live h) (List.product [0..<nchunks h] [0..<14])"

definition disk_map :: "PetHash \<Rightarrow> u64 \<Rightarrow> u64 option" where
  "disk_map h = map_of (map (\<lambda>s. (key_at h s, val_at h s)) (live_list h))"

definition recoverable :: "PetHash \<Rightarrow> bool" where
  "recoverable h \<longleftrightarrow>
     (\<forall>c \<in> set (chunk_table h). length (tags c) = 14 \<and> length (vals c) = 14 \<and>
        (\<forall>i \<in> {..<14}. first (vals c ! i) = -1 \<longrightarrow> tags c ! i = 0)) \<and>
     inj_on (key_at h) (set (live_list h))"

text \<open>The table after the first pass.\<close>

definition rebuilt :: "PetHash \<Rightarrow> u64 \<Rightarrow> PetHash" where
  "rebuilt h n = h\<lparr>chunk_num := n, capacity := n * of_nat kChunkSize,
     chunk_table := map (\<lambda>c. fst (reload_chunk c)) (chunk_table h),
     dict_size := of_nat (length (live_list h))\<rparr>"

lemma pass1_rebuilt:
  assumes rec: "recoverable h" and t: "0 < t" and n: "n = nchunks h"
  shows "reload_pass1 (concat (map (thread_chunks n t) [0..<t])) (chunk_table h) 0 =
    (map (\<lambda>c. fst (reload_chunk c)) (chunk_table h), length (live_list h))"
proof -
  obtain tb cnt where r: "reload_pass1 [0..<n] (chunk_table h) 0 = (tb, cnt)" by fastforce
  have s: "set [0..<n] \<subseteq> {..<length (chunk_table h)}" using n by (auto simp: nchunks_def)
  note sp = reload_pass1_spec [OF _ s r]
  have "tb = map (\<lambda>c. fst (reload_chunk c)) (chunk_table h)"
    using sp(1,2) n by (intro nth_equalityI) (auto simp: nchunks_def)
  moreover have "cnt = length (live_list h)"
  proof -
    have "snd (reload_chunk (chunk_table h ! c)) = length (filter (\<lambda>i. live h (c, i)) [0..<14])" if "c < n" for c
    proof -
      obtain ch k where "reload_chunk (chunk_table h ! c) = (ch, k)" by fastforce
      with reload_chunk_spec(7) [OF _ _ _ this] rec that n show ?thesis
        by (auto simp: recoverable_def nchunks_def live_def key_at_def)
    qed
    then have "map (\<lambda>c. snd (reload_chunk (chunk_table h ! c))) [0..<n] =
        map (\<lambda>c. length (filter (\<lambda>i. live h (c, i)) [0..<14])) [0..<n]" by simp
    then have "cnt = length (filter (live h) (List.product [0..<n] [0..<14]))"
      using sp(3) by (simp only: sum_filter_product) simp
    then show ?thesis using n by (simp add: live_list_def)
  qed
  ultimately show ?thesis using r blocks_partition [OF t] by simp
qed

lemma rebuilt_chunk:
  assumes rec: "recoverable h" and c: "c < nchunks h"
  shows "chunk_wf (chunk_table (rebuilt h n) ! c)"
    "vals (chunk_table (rebuilt h n) ! c) = vals (chunk_table h ! c)"
    "is_migrating (chunk_table (rebuilt h n) ! c) = is_migrating (chunk_table h ! c)"
    "overflow_count (chunk_table (rebuilt h n) ! c) = 0"
    "i < 14 \<Longrightarrow> InUse (chunk_table (rebuilt h n) ! c) i \<longleftrightarrow> live h (c, i)"
    "i < 14 \<Longrightarrow> InUse (chunk_table (rebuilt h n) ! c) i \<Longrightarrow>
       tags (chunk_table (rebuilt h n) ! c) ! i = Sign (Hash (key_at h (c, i)))"
proof -
  obtain ch k where r: "reload_chunk (chunk_table h ! c) = (ch, k)" by fastforce
  have eq: "chunk_table (rebuilt h n) ! c = ch" using c r by (simp add: rebuilt_def nchunks_def)
  have "chunk_table h ! c \<in> set (chunk_table h)" using c by (simp add: nchunks_def)
  then have l: "length (tags (chunk_table h ! c)) = 14" "length (vals (chunk_table h ! c)) = 14"
    "i < 14 \<Longrightarrow> first (vals (chunk_table h ! c) ! i) = -1 \<Longrightarrow> tags (chunk_table h ! c) ! i = 0" for i
    using rec by (auto simp: recoverable_def)
  note s = reload_chunk_spec [OF l r]
  show "chunk_wf (chunk_table (rebuilt h n) ! c)"
    "vals (chunk_table (rebuilt h n) ! c) = vals (chunk_table h ! c)"
    "is_migrating (chunk_table (rebuilt h n) ! c) = is_migrating (chunk_table h ! c)"
    "overflow_count (chunk_table (rebuilt h n) ! c) = 0"
    using s(1-4) eq by simp_all
  show "i < 14 \<Longrightarrow> InUse (chunk_table (rebuilt h n) ! c) i \<longleftrightarrow> live h (c, i)"
    using s(5) eq by (simp add: live_def key_at_def)
  show "i < 14 \<Longrightarrow> InUse (chunk_table (rebuilt h n) ! c) i \<Longrightarrow>
       tags (chunk_table (rebuilt h n) ! c) ! i = Sign (Hash (key_at h (c, i)))"
    using s(6) eq by (simp add: key_at_def)
qed

lemma nchunks_rebuilt [simp]: "nchunks (rebuilt h n) = nchunks h"
  by (simp add: rebuilt_def nchunks_def)

lemma rebuilt_entries:
  assumes rec: "recoverable h"
  shows "used_list (rebuilt h n) = live_list h"
    and "s \<in> used (rebuilt h n) \<Longrightarrow> key_at (rebuilt h n) s = key_at h s"
    and "s \<in> used (rebuilt h n) \<Longrightarrow> val_at (rebuilt h n) s = val_at h s"
    and "s \<in> used (rebuilt h n) \<Longrightarrow> tag_at (rebuilt h n) s = Sign (Hash (key_at h s))"
    and "abs_map (rebuilt h n) = disk_map h"
proof -
  show u: "used_list (rebuilt h n) = live_list h"
    unfolding used_list_def live_list_def nchunks_rebuilt
    by (rule filter_cong) (auto simp: rebuilt_chunk [OF rec])
  have k: "key_at (rebuilt h n) s = key_at h s" "val_at (rebuilt h n) s = val_at h s"
      "tag_at (rebuilt h n) s = Sign (Hash (key_at h s))" if "s \<in> used (rebuilt h n)" for s
    using that rebuilt_chunk(2,6) [OF rec, of "fst s"]
    by (auto simp: used_iff key_at_def val_at_def tag_at_def)
  then show "s \<in> used (rebuilt h n) \<Longrightarrow> key_at (rebuilt h n) s = key_at h s"
    "s \<in> used (rebuilt h n) \<Longrightarrow> val_at (rebuilt h n) s = val_at h s"
    "s \<in> used (rebuilt h n) \<Longrightarrow> tag_at (rebuilt h n) s = Sign (Hash (key_at h s))" by simp_all
  have "map (\<lambda>s. (key_at (rebuilt h n) s, val_at (rebuilt h n) s)) (live_list h) =
      map (\<lambda>s. (key_at h s, val_at h s)) (live_list h)"
    by (rule map_cong) (auto simp: k used_def u)
  then show "abs_map (rebuilt h n) = disk_map h" by (simp only: abs_map_def disk_map_def u)
qed

text \<open>The entries do not change while the counters are raised.\<close>

lemma inc_all_entries:
  "used_list (inc_all h ps) = used_list h" "used (inc_all h ps) = used h"
  "s \<in> used h \<Longrightarrow> key_at (inc_all h ps) s = key_at h s"
  "s \<in> used h \<Longrightarrow> val_at (inc_all h ps) s = val_at h s"
  "s \<in> used h \<Longrightarrow> tag_at (inc_all h ps) s = tag_at h s"
proof -
  show u: "used_list (inc_all h ps) = used_list h"
    unfolding used_list_def inc_all_fields
    by (rule filter_cong) (auto simp: nth_inc_all InUse_def IncOverflow_pow)
  then show "used (inc_all h ps) = used h" by (simp add: used_def)
  assume "s \<in> used h"
  then have "fst s < nchunks h" by (simp add: used_iff)
  then show "key_at (inc_all h ps) s = key_at h s" "val_at (inc_all h ps) s = val_at h s"
    "tag_at (inc_all h ps) s = tag_at h s"
    by (simp_all add: key_at_def val_at_def tag_at_def nth_inc_all IncOverflow_pow)
qed

lemma abs_inc_all: "abs_map (inc_all h ps) = abs_map h"
proof -
  have "map (\<lambda>s. (key_at (inc_all h ps) s, val_at (inc_all h ps) s)) (used_list h) =
      map (\<lambda>s. (key_at h s, val_at h s)) (used_list h)"
    by (rule map_cong) (auto simp: inc_all_entries used_def)
  then show ?thesis by (simp only: abs_map_def inc_all_entries)
qed

lemma shape_rebuilt:
  assumes "unat n = 2 ^ k" and "k \<le> 53" and "nchunks h = 2 ^ k"
  shows "shape (rebuilt h n)"
proof -
  have "(2 :: nat) ^ k \<le> 2 ^ 53" using assms(2) by (intro power_increasing) simp_all
  then have "unat (capacity (rebuilt h n)) = 14 * 2 ^ k"
    using assms(1) by (simp add: rebuilt_def kChunkSize_def kMaxSize_def unat_word_ariths)
  then show ?thesis using assms by (auto simp: shape_def) (simp add: rebuilt_def)
qed

lemma inv_recovered:
  assumes rec: "recoverable h" and n: "unat n = 2 ^ k" "k \<le> 53" "nchunks h = 2 ^ k"
    and ps: "\<And>p. p < nchunks h \<Longrightarrow> count_list ps p = card (passing (rebuilt h n) p)"
  shows "pet_inv (inc_all (rebuilt h n) ps)"
proof -
  let ?r = "rebuilt h n" and ?h = "inc_all (rebuilt h n) ps"
  note e = rebuilt_entries [OF rec, where n = n] and ie = inc_all_entries [where h = ?r and ps = ps]
  have p53: "(2 :: nat) ^ k \<le> 2 ^ 53" using n(2) by (intro power_increasing) simp_all
  have sh: "shape ?h" using shape_rebuilt [OF n] by (simp add: shape_cong [of ?h ?r])
  have pas: "passing ?h p = passing ?r p" for p using ie by (auto simp: passing_def)
  have "overflow_bound ?h {} p" if "p < nchunks h" for p
    using IncOverflow_saturates [OF rebuilt_chunk(4) [OF rec that], of "count_list ps p" n] ps [OF that] that
    by (auto simp: overflow_bound_def pas nth_inc_all)
  moreover have "chunk_wf (chunk_table ?h ! q)" if "q < nchunks h" for q
    using rebuilt_chunk(1) [OF rec that, of n] that by (simp add: nth_inc_all chunk_wf_def IncOverflow_pow)
  moreover have "inj_on (key_at ?h) (used ?r)"
    using rec ie(3) e(2) by (simp add: recoverable_def inj_on_def used_def e(1))
  moreover have "unat (dict_size ?r) = card (used ?r)"
    using card_used_le [of ?r] p53 n(3)
    by (simp add: card_used e(1)) (simp add: rebuilt_def unat_of_nat)
  ultimately show ?thesis
    using sh ie e by (simp add: pet_invp_def all_chunks_iff)
qed

text \<open>\<open>Reload\<close> finds the number of chunks that \<open>Initialize\<close> chose for the same arguments.\<close>

lemma Next2Power_Returns:
  assumes "Next2Power sz = Returns r"
  shows "\<exists>k. unat r = 2 ^ k"
proof (cases "unat sz \<le> 2 ^ 63")
  case True
  then show ?thesis using Next2Power_least [OF True] assms by auto
next
  case False
  then show ?thesis using Next2Power_spins [of sz] assms by simp
qed

lemma InitializeE:
  assumes "PetHash_Initialize cap ign = Returns h0"
  obtains c n k where "effective_capacity cap ign = Returns c" "OverFallChunkNum c = Returns n"
    "h0 = empty_table n" "unat n = 2 ^ k"
proof -
  obtain c n where c: "effective_capacity cap ign = Returns c" "OverFallChunkNum c = Returns n"
      "h0 = empty_table n"
    using assms by (auto simp: PetHash_Initialize_def run_simps empty_table_def)
  then obtain k where "unat n = 2 ^ k" using Next2Power_Returns unfolding OverFallChunkNum_def by blast
  with c show thesis by (rule that)
qed

lemma nchunks_empty_table: "nchunks (empty_table n) = unat n"
  by (simp add: nchunks_def empty_table_def)

lemma collect_threads:
  assumes "shape h" and "\<And>b. b \<in> set blocks \<Longrightarrow> set b \<subseteq> {..<nchunks h}"
  shows "collect (map (\<lambda>b. map_option (\<lambda>as. [as]) (thread_acts h b)) blocks) = Some (map (block_acts h) blocks)"
proof -
  have "map (\<lambda>b. map_option (\<lambda>as. [as]) (thread_acts h b)) blocks = map (\<lambda>b. Some [block_acts h b]) blocks"
    by (rule map_cong) (use assms thread_acts_block in auto)
  then show ?thesis using collect_Some [of "\<lambda>b. [block_acts h b]" blocks] by (simp only: concat_map_singleton)
qed

lemma Reload_rebuilt:
  assumes rec: "recoverable h" and t: "0 < t" and init: "PetHash_Initialize cap ign = Returns h0"
    and n: "nchunks h = nchunks h0" "nchunks h < 2 ^ 31"
  shows "\<exists>m as. Reload True t sched cap ign h = Returns (inc_all (rebuilt h m) (incs as), valids as) \<and>
    pet_inv (inc_all (rebuilt h m) (incs as)) \<and>
    mset as = mset (concat (map (entry_acts (rebuilt h m)) (live_list h)))"
proof -
  obtain c m k where i: "effective_capacity cap ign = Returns c" "OverFallChunkNum c = Returns m"
      "h0 = empty_table m" "unat m = 2 ^ k"
    by (rule InitializeE [OF init])
  have nm: "nchunks h = unat m" using n(1) i(3) by (simp add: nchunks_empty_table)
  then have "(2 :: nat) ^ k < 2 ^ 31" using n(2) i(4) by simp
  then have "k < 31" by (rule power_less_imp_less_exp [rotated]) simp
  then have k: "k \<le> 53" by simp
  let ?blocks = "map (thread_chunks (unat m) t) [0..<t]"
  have cb: "concat ?blocks = [0..<nchunks (rebuilt h m)]" using blocks_partition [OF t] nm by simp
  have "set b \<subseteq> {..<nchunks (rebuilt h m)}" if "b \<in> set ?blocks" for b
  proof -
    have "set b \<subseteq> set (concat ?blocks)" using that unfolding set_concat by blast
    then show ?thesis unfolding cb by auto
  qed
  moreover have sh: "shape (rebuilt h m)" using shape_rebuilt i(4) k nm by simp
  ultimately have tss: "collect (map (\<lambda>b. map_option (\<lambda>as. [as]) (thread_acts (rebuilt h m) b)) ?blocks) =
      Some (map (block_acts (rebuilt h m)) ?blocks)"
    using collect_threads by blast
  let ?as = "interleave sched (map (block_acts (rebuilt h m)) ?blocks)"
  have ms: "mset ?as = mset (concat (map (entry_acts (rebuilt h m)) (live_list h)))"
    using mset_interleave blocks_acts [OF cb] rebuilt_entries(1) [OF rec, of m] by metis
  have "Reload True t sched cap ign h = Returns (inc_all (rebuilt h m) (incs ?as), valids ?as)"
    using i(1,2,4) n(2) nm tss pass1_rebuilt [OF rec t, of "unat m"]
    by (simp add: Reload_def Let_def rebuilt_def [symmetric] run_acts del: map_map)
  moreover have "pet_inv (inc_all (rebuilt h m) (incs ?as))"
  proof (rule inv_recovered [OF rec i(4) k])
    show "nchunks h = 2 ^ k" using nm i(4) by simp
    show "count_list (incs ?as) p = card (passing (rebuilt h m) p)" for p
    proof -
      have "mset (incs ?as) = mset (incs (concat (map (entry_acts (rebuilt h m)) (live_list h))))"
        by (simp only: mset_incs ms)
      then show ?thesis
        using count_list_mset count_passing [OF sh] rebuilt_entries(1) [OF rec, of m] by metis
    qed
  qed
  ultimately show ?thesis using ms by blast
qed

lemma Reload_ok:
  assumes "recoverable h" and "0 < kRecoveryThread" and "PetHash_Initialize cap ign = Returns h0"
    and "nchunks h = nchunks h0" and "nchunks h < 2 ^ 31"
  shows "\<exists>h' log. Reload True kRecoveryThread sched cap ign h = Returns (h', log) \<and>
      pet_inv h' \<and> abs_map h' = disk_map h \<and>
      mset log = mset (map (\<lambda>s. (key_at h s, val_at h s)) (live_list h))"
proof -
  obtain m as where r: "Reload True kRecoveryThread sched cap ign h = Returns (inc_all (rebuilt h m) (incs as), valids as)"
      "pet_inv (inc_all (rebuilt h m) (incs as))"
      "mset as = mset (concat (map (entry_acts (rebuilt h m)) (live_list h)))"
    using Reload_rebuilt [OF assms] by blast
  have "mset (valids as) = mset (valids (concat (map (entry_acts (rebuilt h m)) (live_list h))))"
    by (simp only: mset_valids r(3))
  also have "valids (concat (map (entry_acts (rebuilt h m)) (live_list h))) =
      map (\<lambda>s. (key_at (rebuilt h m) s, val_at (rebuilt h m) s)) (live_list h)"
    by (rule valids_entry_acts)
  also have "\<dots> = map (\<lambda>s. (key_at h s, val_at h s)) (live_list h)"
    using rebuilt_entries(1-3) [OF assms(1), where n = m] by (intro map_cong) (auto simp: used_def)
  finally show ?thesis
    using r abs_inc_all [of "rebuilt h m"] rebuilt_entries(5) [OF assms(1), of m] by auto
qed

text \<open>
  (C8) Recovery: whatever the sizes, the tags of the live slots and the overflow counters are,
  \<open>Reload\<close> with any number of threads and any interleaving of their actions rebuilds a table
  that satisfies the invariant and holds exactly the persisted entries, and it reports every
  one of them to the allocator exactly once.
\<close>

theorem Reload_recovers:
  assumes "recoverable h" and "0 < kRecoveryThread" and "PetHash_Initialize cap ign = Returns h0"
    and "nchunks h = nchunks h0" and "nchunks h < 2 ^ 31"
  shows "\<exists>h' log. Reload True kRecoveryThread sched cap ign h = Returns (h', log) \<and>
      pet_inv h' \<and> abs_map h' = disk_map h \<and>
      mset log = mset (map (\<lambda>s. (key_at h s, val_at h s)) (live_list h))"
  using Reload_ok [OF assms] .

section \<open>Recovery of an operated table\<close>

text \<open>
  \<open>torn h g\<close>: \<open>g\<close> is \<open>h\<close> after a crash that kept the entries and lost any of the size
  fields, the counters and the tags of used slots.
\<close>

definition torn :: "PetHash \<Rightarrow> PetHash \<Rightarrow> bool" where
  "torn h g \<longleftrightarrow> nchunks g = nchunks h \<and>
     (\<forall>q \<in> {..<nchunks h}. vals (chunk_table g ! q) = vals (chunk_table h ! q) \<and>
        length (tags (chunk_table g ! q)) = 14 \<and>
        (\<forall>i \<in> {..<14}. tags (chunk_table h ! q) ! i = 0 \<longrightarrow> tags (chunk_table g ! q) ! i = 0))"

lemma marked_live:
  assumes "marked h"
  shows "live_list h = used_list h"
  unfolding live_list_def used_list_def
  by (rule filter_cong) (use assms in \<open>auto simp: marked_iff live_def key_at_def InUse_def\<close>)

lemma torn_entries:
  assumes t: "torn h g" and m: "marked h" and inv: "pet_inv h"
  shows "recoverable g" "disk_map g = abs_map h"
proof -
  have n: "nchunks g = nchunks h" using t by (simp add: torn_def)
  have v: "vals (chunk_table g ! q) = vals (chunk_table h ! q)" "length (tags (chunk_table g ! q)) = 14"
    "i < 14 \<Longrightarrow> tags (chunk_table h ! q) ! i = 0 \<Longrightarrow> tags (chunk_table g ! q) ! i = 0" if "q < nchunks h" for q i
    using t that by (auto simp: torn_def)
  have k: "key_at g s = key_at h s" "val_at g s = val_at h s" if "fst s < nchunks h" for s
    using v(1) [OF that] by (simp_all add: key_at_def val_at_def)
  have l: "live_list g = live_list h"
    unfolding live_list_def n by (rule filter_cong) (auto simp: live_def k)
  then have lu: "live_list g = used_list h" using marked_live [OF m] by simp
  have "map (\<lambda>s. (key_at g s, val_at g s)) (used_list h) = map (\<lambda>s. (key_at h s, val_at h s)) (used_list h)"
    by (rule map_cong) (auto simp: k used_def [symmetric] used_iff)
  then show "disk_map g = abs_map h" by (simp only: disk_map_def abs_map_def lu)
  have "inj_on (key_at g) (used h)"
    using pet_invpD(4) [OF inv] k by (simp add: inj_on_def used_iff)
  moreover have "length (vals (chunk_table h ! q)) = 14" if "q < nchunks h" for q
    using chunk_wfD(2) pet_invpD(2) [OF inv that] by blast
  ultimately show "recoverable g"
    using v m by (auto simp: recoverable_def all_chunks_iff n lu used_def [symmetric] marked_iff)
qed

text \<open>The free-slot mark survives the operations as long as -1 is not used as a key.\<close>

lemma Set_table_marked:
  assumes r: "ready h" and m: "marked h" and k: "k \<noteq> -1" and res: "Set_table force h k v = Returns h'"
  shows "ready h' \<and> marked h' \<and> nchunks h' = nchunks h"
proof -
  have inv: "pet_inv h" "settled h" using r by (auto simp: ready_def)
  obtain s where s: "PetHash_Set h k v None force = Returns (h', s)"
    using res by (auto simp: Set_table_def run_simps)
  have "\<exists>D. stored h k v D h' s"
  proof (cases "abs_map h k")
    case None
    then have "PetHash_Insert h k v None force = Returns (h', s)" using PetHash_Set_miss [OF inv None] s by simp
    then show ?thesis using PetHash_Insert_cases [OF inv(1) None, of force v] by (auto simp: insert_ok_def split: if_splits)
  next
    case (Some w)
    then obtain u where "u \<in> used h" "key_at h u = k" by (auto dest: abs_map_SomeD)
    then show ?thesis using PetHash_Set_hit [OF inv(1), of u v] s by auto
  qed
  then show ?thesis using inv m k by (auto simp: stored_def ready_def)
qed

lemma Delete_marked:
  assumes r: "ready h" and m: "marked h" and res: "PetHash_Delete h k = Returns h'"
  shows "ready h' \<and> marked h' \<and> nchunks h' = nchunks h"
proof -
  have inv: "pet_inv h" "settled h" using r by (auto simp: ready_def)
  have "ready h'" using Delete_law [OF r, of k] res by auto
  moreover have "marked h' \<and> nchunks h' = nchunks h"
  proof (cases "k \<in> key_at h ` used h")
    case True
    then obtain s where "s \<in> used h" "k = key_at h s" by auto
    then show ?thesis using PetHash_Delete_hit [OF inv(1), of s] res marked_deleted [OF inv(1) m, of s] by auto
  next
    case False
    then show ?thesis using PetHash_Delete_miss [OF inv] res m by simp
  qed
  ultimately show ?thesis by simp
qed

lemma ops_marked:
  assumes "run_ops PetHash_Get (Set_table force) PetHash_Delete ops h0 = Returns (h, as)"
    and "ready h0" and "marked h0" and "\<And>k v. Put k v \<in> set ops \<Longrightarrow> k \<noteq> -1"
  shows "ready h \<and> marked h \<and> nchunks h = nchunks h0"
proof (rule run_ops_keeps [where I = "\<lambda>g. ready g \<and> marked g \<and> nchunks g = nchunks h0", OF _ _ _ assms(1)])
  fix s k v s'
  assume "Put k v \<in> set ops" "ready s \<and> marked s \<and> nchunks s = nchunks h0" "Set_table force s k v = Returns s'"
  then show "ready s' \<and> marked s' \<and> nchunks s' = nchunks h0"
    using Set_table_marked [of s k force v s'] assms(4) [of k v] by simp
next
  fix s k s'
  assume "ready s \<and> marked s \<and> nchunks s = nchunks h0" "PetHash_Delete s k = Returns s'"
  then show "ready s' \<and> marked s' \<and> nchunks s' = nchunks h0"
    using Delete_marked [of s k s'] by simp
qed (use assms(2,3) in simp)

lemma marked_empty: "marked (empty_table n)"
  by (auto simp: marked_def empty_table_def ChunkInitialize_def zero_chunk_def kMaxSize_def)

lemma Initialize_chunks:
  assumes "unat cap \<le> 2 ^ 30" and "PetHash_Initialize cap False = Returns h"
  shows "nchunks h < 2 ^ 31"
proof -
  obtain c n k where i: "effective_capacity cap False = Returns c" "OverFallChunkNum c = Returns n"
      "h = empty_table n" "unat n = 2 ^ k"
    by (rule InitializeE [OF assms(2)])
  have c: "unat c \<le> 2 ^ 31"
    using apply_load_factor_bounds [of cap] assms(1) i(1) by (auto simp: effective_capacity_def)
  then have "unat c \<le> 14 * 2 ^ 53" by simp
  from OverFallChunkNum_ok [OF this] i(2,4) have "k = 0 \<or> 14 * 2 ^ (k - 1) < unat c" by auto
  then have "(2 :: nat) ^ k < 2 ^ 31"
    using c by (cases k) auto
  then show ?thesis using i(3,4) by (simp add: nchunks_empty_table)
qed



lemma marked_full_table: "marked full_table"
proof -
  have "(of_nat i + 1 :: u64) \<noteq> -1" if "i < 14" for i
  proof
    assume "(of_nat i + 1 :: u64) = -1"
    then have "(of_nat (i + 2) :: u64) = 0" by (simp add: eq_neg_iff_add_eq_0 add.commute)
    then have "unat (of_nat (i + 2) :: u64) = 0" by (simp only: unat_0)
    moreover have "unat (of_nat (i + 2) :: u64) = i + 2" using that by (subst unat_of_nat) simp
    ultimately show False by (simp only:)
  qed
  then show ?thesis by (auto simp: marked_def full_table_def Sign_nonzero)
qed

theorem Reload_recovers_witness:
  "\<exists>h' log. Reload True 3 [1, 0] 14 True (full_table\<lparr>dict_size := 5\<rparr>) = Returns (h', log) \<and>
     pet_inv h' \<and> abs_map h' 3 = Some 2 \<and> length log = 14"
proof -
  let ?g = "full_table\<lparr>dict_size := 5\<rparr>"
  have t: "torn full_table ?g" by (auto simp: torn_def full_table_def nchunks_def)
  note e = torn_entries [OF t marked_full_table full_table_facts(1)]
  have i: "PetHash_Initialize 14 True = Returns (empty_table 1)"
    by (simp add: PetHash_Initialize_def effective_capacity_def OverFallChunkNum_def Next2Power_def
        kChunkSize_def kMaxSize_def next2power_loop.simps empty_table_def)
  have "used_list ?g = used_list full_table" by (simp add: used_list_def nchunks_def)
  moreover have "marked ?g" using marked_full_table by (simp add: marked_def)
  ultimately have "length (live_list ?g) = 14"
    using marked_live full_table_facts(7) by (simp add: card_used)
  moreover have "abs_map full_table 3 = Some 2"
    using abs_map_SomeI [OF pet_invpD(4) [OF full_table_facts(1)], of "(0, 2)"] full_table_entry [of 2]
    by (simp add: full_table_used)
  moreover obtain h' log where r: "Reload True 3 [1, 0] 14 True ?g = Returns (h', log)" "pet_inv h'"
      "abs_map h' = abs_map full_table" "mset log = mset (map (\<lambda>s. (key_at ?g s, val_at ?g s)) (live_list ?g))"
    using Reload_recovers [OF e(1) _ i, of 3 "[1, 0]"] e(2) by (auto simp: nchunks_empty_table full_table_facts(5))
  moreover have "length log = length (live_list ?g)" using mset_eq_length [OF r(4)] by simp
  ultimately show ?thesis by auto
qed

end
