(* ===== verification/Pet_Valid.thy ===== *)
theory Pet_Valid
  imports Pet_Dict
begin

text \<open>
  The consistency check of a PetHash (\<open>src/src/pet_kv/pet_hash.h\<close>: \<open>Valid\<close>), which PetKV
  runs before it trusts an index found in persistent memory.
\<close>

section \<open>Definition\<close>

text \<open>
  The loop over the flat indices: the number of used slots, or \<open>None\<close> as soon as the key of a
  used slot is not found by \<open>Get\<close>.
\<close>

fun valid_scan :: "PetHash \<Rightarrow> nat list \<Rightarrow> u64 \<Rightarrow> u64 option run" where
  "valid_scan h [] total_num = Returns (Some total_num)"
| "valid_scan h (i # is) total_num =
     (if IndexInUse h (of_nat i) then
        let key = first (GetById h (of_nat i)) in
        run_bind (PetHash_Get h key) (\<lambda>r.
          if r = None then Returns None else valid_scan h is (total_num + 1))
      else valid_scan h is total_num)"

text \<open>
  \<open>memory_size\<close> is signed; its comparison with the unsigned \<open>MemorySize\<close> converts it. The loop
  that adds up the chunk sizes counts with an \<open>int\<close>.
\<close>

definition Valid :: "PetHash \<Rightarrow> u64 \<Rightarrow> bool run" where
  "Valid h memory_size =
     (if capacity h = 0 \<and> sint memory_size > 0 then Returns False
      else if dict_size h > capacity h then Returns False
      else if chunk_num h * of_nat kChunkSize \<noteq> capacity h then Returns False
      else run_bind (MemorySize (capacity h) True) (\<lambda>ms.
        if memory_size \<noteq> ms then Returns False
        else run_bind (valid_scan h [0..<unat (capacity h)] 0) (\<lambda>r.
          case r of None \<Rightarrow> Returns False
          | Some total_num \<Rightarrow>
              if unat (chunk_num h) \<ge> 2 ^ 31 then Aborts (Undefined ''int i'')
              else let chunk_table_total_num =
                     sum_list (map (\<lambda>i. ucast (ch_size (chunk_table h ! i))) [0..<unat (chunk_num h)])
                   in Returns (total_num = chunk_table_total_num \<and> total_num = dict_size h))))"

section \<open>Flat indices\<close>

definition slot_of :: "nat \<Rightarrow> location" where
  "slot_of i = (i div 14, i mod 14)"

lemma slots_enum: "map slot_of [0..<n * 14] = List.product [0..<n] [0..<14]"
proof (induction n)
  case (Suc n)
  have "[0..<Suc n * 14] = [0..<n * 14] @ map (\<lambda>i. n * 14 + i) [0..<14]"
    using upt_add_eq_append [of 0 "n * 14" 14] by (simp add: map_add_upt add.commute)
  moreover have "map slot_of (map (\<lambda>i. n * 14 + i) [0..<14]) = map (Pair n) [0..<14]"
    by (simp add: slot_of_def)
  moreover have "List.product [0..<Suc n] ys = List.product [0..<n] ys @ map (Pair n) ys" for ys :: "nat list"
    by (simp add: product_concat_map)
  ultimately show ?case using Suc by simp
qed simp

lemma index_slot:
  assumes "shape h" and "i < unat (capacity h)"
  shows "IndexInUse h (of_nat i) \<longleftrightarrow> InUse (chunk_table h ! fst (slot_of i)) (snd (slot_of i))"
    and "first (GetById h (of_nat i)) = key_at h (slot_of i)"
proof -
  have "unat (capacity h) < 2 ^ 64" using unsigned_less [of "capacity h"] by simp
  then have u: "unat (of_nat i :: u64) = i" using assms(2) by (simp add: unat_of_nat)
  then have "\<not> capacity h \<le> of_nat i" using assms(2) by (simp add: word_le_nat_alt)
  then show "IndexInUse h (of_nat i) \<longleftrightarrow> InUse (chunk_table h ! fst (slot_of i)) (snd (slot_of i))"
    "first (GetById h (of_nat i)) = key_at h (slot_of i)"
    using u by (simp_all add: IndexInUse_def GetById_def slot_of_def key_at_def kChunkSize_def kMaxSize_def
        unat_div_distrib unat_mod_distrib)
qed

lemma valid_scan_found:
  assumes sh: "shape h"
    and get: "\<And>s. s \<in> used h \<Longrightarrow> \<exists>v. PetHash_Get h (key_at h s) = Returns (Some v)"
  shows "set is \<subseteq> {..<unat (capacity h)} \<Longrightarrow>
    valid_scan h is t = Returns (Some (t + of_nat (length (filter (\<lambda>s. s \<in> used h) (map slot_of is)))))"
proof (induction "is" arbitrary: t)
  case (Cons i "is")
  then have i: "i < unat (capacity h)" by simp
  note x = index_slot [OF sh i]
  have "fst (slot_of i) < nchunks h" using i sh by (simp add: slot_of_def shape_def div_less_iff_less_mult)
  then have u: "slot_of i \<in> used h \<longleftrightarrow> InUse (chunk_table h ! fst (slot_of i)) (snd (slot_of i))"
    by (simp add: used_iff) (simp add: slot_of_def)
  show ?case
  proof (cases "slot_of i \<in> used h")
    case True
    then show ?thesis using get [OF True] Cons x u by (auto simp: Let_def)
  next
    case False
    then show ?thesis using Cons x u by simp
  qed
qed simp

lemma valid_scan_all_found:
  assumes sh: "shape h" and "valid_scan h is t = Returns (Some t')"
    and "set is \<subseteq> {..<unat (capacity h)}" and "i \<in> set is" and "slot_of i \<in> used h"
  shows "\<exists>v. PetHash_Get h (key_at h (slot_of i)) = Returns (Some v)"
  using assms(2-5)
proof (induction "is" arbitrary: t)
  case (Cons j "is")
  have "IndexInUse h (of_nat i)" "first (GetById h (of_nat i)) = key_at h (slot_of i)"
    using index_slot [OF sh, of i] Cons.prems by (auto simp: used_iff)
  then show ?case using Cons by (auto simp: Let_def run_simps split: if_splits)
qed simp

lemma used_count:
  assumes "shape h"
  shows "length (filter (\<lambda>s. s \<in> used h) (map slot_of [0..<unat (capacity h)])) = card (used h)"
proof -
  have "map slot_of [0..<unat (capacity h)] = List.product [0..<nchunks h] [0..<14]"
    using slots_enum [of "nchunks h"] assms by (simp add: shape_def mult.commute)
  moreover have "filter (\<lambda>s. s \<in> used h) (List.product [0..<nchunks h] [0..<14]) = used_list h"
    unfolding used_list_def by (rule filter_cong) (auto simp: used_iff)
  ultimately show ?thesis by (simp only: card_used)
qed

section \<open>The sizes of the chunks\<close>

lemma chunk_wf_count:
  assumes "chunk_wf c"
  shows "unat (ch_size c) = length (filter (InUse c) [0..<14])"
proof -
  have len: "length (tags c) = 14" using chunk_wfD(1) [OF assms] .
  then have "tags c = map ((!) (tags c)) [0..<14]" using map_nth [of "tags c"] by simp
  then have "length (filter (\<lambda>t. t \<noteq> 0) (tags c)) = length (filter ((\<lambda>t. t \<noteq> 0) \<circ> (!) (tags c)) [0..<14])"
    by (metis filter_map length_map)
  also have "(\<lambda>t. t \<noteq> 0) \<circ> (!) (tags c) = InUse c" by (auto simp: InUse_def)
  finally show ?thesis using assms by (simp add: chunk_wf_def)
qed

lemma sum_list_of_nat: "sum_list (map (\<lambda>x. of_nat (f x)) xs) = (of_nat (sum_list (map f xs)) :: 'a::len word)"
  by (induction xs) simp_all

lemma chunk_sizes_sum:
  assumes "\<And>q. q < nchunks h \<Longrightarrow> chunk_wf (chunk_table h ! q)"
  shows "sum_list (map (\<lambda>i. ucast (ch_size (chunk_table h ! i))) [0..<nchunks h]) = (of_nat (card (used h)) :: u64)"
proof -
  have "map (\<lambda>i. ucast (ch_size (chunk_table h ! i))) [0..<nchunks h] =
      map (\<lambda>c. of_nat (length (filter (\<lambda>i. InUse (chunk_table h ! c) i) [0..<14])) :: u64) [0..<nchunks h]"
    by (intro map_cong) (simp_all add: chunk_wf_count [OF assms, symmetric])
  also have "sum_list \<dots> = of_nat (length (filter (\<lambda>(c, i). InUse (chunk_table h ! c) i) (List.product [0..<nchunks h] [0..<14])))"
    unfolding sum_list_of_nat using sum_filter_product [of "\<lambda>(c, i). InUse (chunk_table h ! c) i" "[0..<14]" "[0..<nchunks h]"] by simp
  finally show ?thesis by (simp add: card_used used_list_def)
qed

lemma MemorySize_table:
  assumes "shape h"
  shows "MemorySize (capacity h) True = Returns (64 + 320 * chunk_num h)"
    and "chunk_num h * of_nat kChunkSize = capacity h"
proof -
  obtain j where j: "nchunks h = 2 ^ j" "unat (chunk_num h) = 2 ^ j" "j \<le> 53" "unat (capacity h) = 14 * 2 ^ j"
    using assms by (rule shapeE)
  have p: "(2 :: nat) ^ j \<le> 2 ^ 53" using j(3) by (intro power_increasing) simp_all
  then have "unat (capacity h) \<le> 14 * 2 ^ 53" using j(4) by simp
  from OverFallChunkNum_ok [OF this] obtain r k where r: "OverFallChunkNum (capacity h) = Returns r"
      "unat r = 2 ^ k" "unat (capacity h) \<le> 14 * 2 ^ k" "k = 0 \<or> 14 * 2 ^ (k - 1) < unat (capacity h)"
    by auto
  have "(2 :: nat) ^ j \<le> 2 ^ k" using r(3) j(4) by simp
  then have "j \<le> k" by (rule power_le_imp_le_exp [rotated]) simp
  moreover have "k \<le> j"
  proof (rule ccontr)
    assume "\<not> k \<le> j"
    then have "(2 :: nat) ^ j \<le> 2 ^ (k - 1)" by (intro power_increasing) simp_all
    then show False using r(4) j(4) \<open>\<not> k \<le> j\<close> by simp
  qed
  ultimately have "k = j" by simp
  then have "r = chunk_num h" using r(2) j(2) by (simp add: word_unat_eq_iff)
  then show "MemorySize (capacity h) True = Returns (64 + 320 * chunk_num h)"
    using r(1) by (simp add: MemorySize_def effective_capacity_def sizeof_PetHash_def sizeof_ChunkT_def mult.commute)
  show "chunk_num h * of_nat kChunkSize = capacity h"
    using j p by (simp add: word_unat_eq_iff unat_word_ariths kChunkSize_def kMaxSize_def)
qed

lemma Valid_invariant:
  assumes "pet_inv h" and "settled h" and "nchunks h < 2 ^ 31"
  shows "Valid h (64 + 320 * chunk_num h) = Returns True"
proof -
  have sh: "shape h" using pet_invpD(1) [OF assms(1)] .
  have c: "unat (capacity h) \<noteq> 0" "unat (chunk_num h) = nchunks h" using sh by (auto simp: shape_def)
  then have c0: "capacity h \<noteq> 0" by (auto simp: unat_eq_0)
  have d: "\<not> dict_size h > capacity h"
    using card_used_le [of h] pet_invpD(5) [OF assms(1)] sh by (simp add: word_less_nat_alt shape_def)
  have "\<exists>v. PetHash_Get h (key_at h s) = Returns (Some v)" if "s \<in> used h" for s
    using PetHash_Get_stored [OF assms(1) abs_map_SomeI [OF pet_invpD(4) [OF assms(1)] that]] by blast
  then have v: "valid_scan h [0..<unat (capacity h)] 0 = Returns (Some (of_nat (card (used h))))"
    using valid_scan_found [OF sh, of "[0..<unat (capacity h)]" 0] used_count [OF sh] by (simp add: lessThan_atLeast0)
  have "dict_size h = of_nat (unat (dict_size h))" by simp
  then have "dict_size h = of_nat (card (used h))" using pet_invpD(5) [OF assms(1)] by (simp only:)
  then show ?thesis
    using c0 d v MemorySize_table [OF sh] chunk_sizes_sum pet_invpD(2) [OF assms(1)] assms(3) c(2)
    by (simp add: Valid_def)
qed

section \<open>Properties\<close>

text \<open>
  (C10) \<open>Valid\<close> accepts every table that satisfies the invariant, in a memory of the right size.
\<close>

theorem Valid_accepts:
  assumes "pet_inv h" and "settled h" and "nchunks h < 2 ^ 31"
  shows "Valid h (64 + 320 * chunk_num h) = Returns True"
  using Valid_invariant [OF assms] .

theorem Valid_accepts_witness:
  "Valid full_table 384 = Returns True"
  using Valid_accepts [of full_table] full_table_facts by (simp add: full_table_def)

text \<open>
  (C11) What a positive answer of \<open>Valid\<close> on a table in memory guarantees: the memory has the
  size the table needs, the key of every used slot is found by \<open>Get\<close>, and both the size field
  and the sum of the chunk sizes equal the number of used slots.
\<close>

theorem Valid_sound:
  assumes "shape h" and "Valid h memory_size = Returns True"
  shows "memory_size = 64 + 320 * chunk_num h \<and>
    (\<forall>s. s \<in> used h \<longrightarrow> (\<exists>v. PetHash_Get h (key_at h s) = Returns (Some v))) \<and>
    unat (dict_size h) = card (used h) \<and>
    sum_list (map (\<lambda>i. ucast (ch_size (chunk_table h ! i))) [0..<nchunks h]) = dict_size h"
proof -
  let ?is = "[0..<unat (capacity h)]"
  have n: "unat (chunk_num h) = nchunks h" using assms(1) by (simp add: shape_def)
  obtain t where t: "memory_size = 64 + 320 * chunk_num h" "valid_scan h ?is 0 = Returns (Some t)"
      "t = sum_list (map (\<lambda>i. ucast (ch_size (chunk_table h ! i))) [0..<nchunks h])" "t = dict_size h"
    using assms(2) MemorySize_table [OF assms(1)] n
    by (auto simp: Valid_def run_simps Let_def split: if_splits option.splits)
  have idx: "set ?is \<subseteq> {..<unat (capacity h)}" by auto
  have get: "\<exists>v. PetHash_Get h (key_at h s) = Returns (Some v)" if "s \<in> used h" for s
  proof -
    have s: "s = slot_of (fst s * 14 + snd s)" "fst s * 14 + snd s < unat (capacity h)"
      using that assms(1) by (auto simp: slot_of_def used_iff shape_def)
    then show ?thesis using valid_scan_all_found [OF assms(1) t(2) idx, of "fst s * 14 + snd s"] that by simp
  qed
  have "t = of_nat (card (used h))"
    using valid_scan_found [OF assms(1) get idx, of 0] t(2) used_count [OF assms(1)] by simp
  moreover have "card (used h) < 2 ^ 64"
  proof -
    obtain k where "nchunks h = 2 ^ k" "k \<le> 53" using assms(1) by (rule shapeE)
    then have "nchunks h \<le> 2 ^ 53" by (simp only: power_increasing)
    then show ?thesis using card_used_le [of h] by simp
  qed
  ultimately have "unat (dict_size h) = card (used h)" using t(4) by (simp add: unat_of_nat)
  then show ?thesis using t get by simp
qed

theorem Valid_sound_witness:
  "\<exists>v. PetHash_Get full_table 3 = Returns (Some v)"
proof -
  have "shape full_table" using pet_invpD(1) [OF full_table_facts(1)] .
  moreover have "Valid full_table 384 = Returns True"
    using Valid_invariant [OF full_table_facts(1,2)] full_table_facts(5) by (simp add: full_table_def)
  moreover have "(0, 2) \<in> used full_table" "key_at full_table (0, 2) = 3"
    using full_table_entry(1) [of 2] by (simp_all add: full_table_used)
  ultimately show ?thesis using Valid_sound [of full_table 384] by metis
qed

end
