(* ===== verification/Pet_Migration.thy ===== *)
theory Pet_Migration
  imports Pet_Recovery
begin

text \<open>
  Hotness-aware migration of PetHash (\<open>src/src/pet_kv/pet_hash.h\<close>: \<open>NextChunk\<close>,
  \<open>PrevChunk\<close>, \<open>ChainTraverse\<close>, \<open>ChainTraverseReverse\<close>, \<open>HotnessAwareMigration\<close>): a hot key
  that is stored away from its home chunk is moved there, in place of a victim if the home
  chunk is full. The migration thread is modelled alone; the marks \<open>is_migrating\<close> that tell
  concurrent readers to retry are part of the state.
\<close>

section \<open>Definitions\<close>

definition NextChunk :: "PetHash \<Rightarrow> u64 \<Rightarrow> u64 \<Rightarrow> u64" where
  "NextChunk h p step = (p + step + chunk_num h) mod chunk_num h"

definition PrevChunk :: "PetHash \<Rightarrow> u64 \<Rightarrow> u64 \<Rightarrow> u64" where
  "PrevChunk h p step = (p - step + chunk_num h) mod chunk_num h"

text \<open>Both traversals start at \<open>end\<close> and stop after \<open>start\<close>.\<close>

partial_function (option) ChainTraverseReverse ::
  "(nat \<Rightarrow> F14Chunk \<Rightarrow> F14Chunk) \<Rightarrow> u64 \<Rightarrow> u64 \<Rightarrow> u64 \<Rightarrow> PetHash \<Rightarrow> PetHash option" where
  "ChainTraverseReverse func start step cur h =
     (let h1 = upd_chunk h (unat cur) (func (unat cur)) in
      if cur \<noteq> start then ChainTraverseReverse func start step (PrevChunk h cur step) h1
      else Some h1)"

partial_function (option) ChainTraverse ::
  "(nat \<Rightarrow> F14Chunk \<Rightarrow> F14Chunk) \<Rightarrow> u64 \<Rightarrow> u64 \<Rightarrow> u64 \<Rightarrow> PetHash \<Rightarrow> PetHash option" where
  "ChainTraverse func start step cur h =
     (let h1 = upd_chunk h (unat cur) (func (unat cur)) in
      if cur \<noteq> start then ChainTraverse func start step (NextChunk h cur step) h1
      else Some h1)"

text \<open>
  Step 2.2: the victim is put into the first chunk with a free slot after the home chunk on the
  victim's probe sequence. The first argument counts the iterations that are left.
\<close>

fun victim_loop :: "nat \<Rightarrow> u64 \<Rightarrow> u64 \<Rightarrow> u64 \<Rightarrow> u8 \<Rightarrow> u64 \<Rightarrow> u64 \<Rightarrow> PetHash \<Rightarrow> PetHash run" where
  "victim_loop 0 home victim_key victim_value victim_sign victim_step victim_pos h =
     Aborts (CheckFailed ''victim_migrated'')"
| "victim_loop (Suc r) home victim_key victim_value victim_sign victim_step victim_pos h =
     (let chunk = chunk_table h ! unat victim_pos in
      if unat (ch_size chunk) \<noteq> kChunkSize then
        run_bind (ChunkInsert chunk victim_key victim_value victim_sign) (\<lambda>(chunk', sid).
        run_bind (run_check (home \<noteq> victim_pos) ''home_chunk != chunk'') (\<lambda>_.
          Returns (upd_chunk h (unat victim_pos) (\<lambda>_. chunk'))))
      else if Full h then Aborts (LogFatal ''todo: pet hash dict is full'')
      else victim_loop r home victim_key victim_value victim_sign victim_step
             ((victim_pos + victim_step) AND (chunk_num h - 1)) (upd_chunk h (unat victim_pos) IncOverflow))"

text \<open>Case 1: the home chunk has an empty slot.\<close>

definition migrate_case1 :: "u64 \<Rightarrow> u64 \<Rightarrow> u64 \<Rightarrow> location \<Rightarrow> PetHash \<Rightarrow> PetHash run" where
  "migrate_case1 home key value s h1 =
     (let sign = Sign (Hash key); hotkey_step = ProbeDelta (ucast sign) in
      run_bind (ChunkInsert (chunk_table h1 ! unat home) key value sign) (\<lambda>(chunk', sid).
        let h2 = upd_chunk h1 (unat home) (\<lambda>_. chunk');
            h3 = upd_chunk h2 (fst s) (\<lambda>c. ChunkDelete c (snd s));
            h4 = upd_chunk h3 (fst s) DecOverflow
        in run_of_option (ChainTraverseReverse (\<lambda>_ c. c\<lparr>is_migrating := False\<rparr>)
             home hotkey_step (of_nat (fst s)) h4)))"

text \<open>Case 2: the first entry of the home chunk is the victim and makes room for the key.\<close>

definition migrate_case2 :: "u64 \<Rightarrow> u64 \<Rightarrow> u64 \<Rightarrow> location \<Rightarrow> PetHash \<Rightarrow> PetHash run" where
  "migrate_case2 home key value s h1 =
     (let sign = Sign (Hash key);
          hotkey_step = ProbeDelta (ucast sign);
          home_chunk = chunk_table h1 ! unat home;
          victim_id = 0
      in run_bind (run_check (InUse home_chunk victim_id) ''home_chunk->InUse(victim_id)'') (\<lambda>_.
      let victim_key = first (vals home_chunk ! victim_id);
          victim_value = second (vals home_chunk ! victim_id);
          victim_sign = Sign (Hash victim_key);
          victim_step = ProbeDelta (ucast victim_sign);
          victim_pos = (home + victim_step) AND (chunk_num h1 - 1)
      in run_bind (victim_loop (unat (chunk_num h1)) home victim_key victim_value victim_sign
                     victim_step victim_pos h1) (\<lambda>h2.
      let h3 = upd_chunk h2 (unat home) IncOverflow;
          h4 = upd_chunk h3 (unat home) (\<lambda>c. ChunkSet c victim_id sign \<lparr>first = key, second = value\<rparr>);
          h5 = upd_chunk h4 (fst s) (\<lambda>c. ChunkDelete c (snd s))
      in run_of_option (ChainTraverseReverse
           (\<lambda>q c. let c1 = c\<lparr>is_migrating := False\<rparr> in if q = fst s then c1 else DecOverflow c1)
           home hotkey_step (of_nat (fst s)) h5))))"

text \<open>The body of the loop over the hot keys.\<close>

definition migrate_key :: "PetHash \<Rightarrow> u64 \<Rightarrow> PetHash run" where
  "migrate_key h key =
     (let home = HomeChunk h key;
          sign = Sign (Hash key);
          hotkey_step = ProbeDelta (ucast sign)
      in if Find (chunk_table h ! unat home) key sign \<noteq> -1 then Returns h
      else run_bind (run_of_option (GetInternal h key)) (\<lambda>r.
        case r of None \<Rightarrow> Aborts (CheckFailed ''exists'')
        | Some s \<Rightarrow>
            run_bind (run_of_option (ChainTraverseReverse (\<lambda>_ c. c\<lparr>is_migrating := True\<rparr>)
                        home hotkey_step (of_nat (fst s)) h)) (\<lambda>h1.
              if unat (ch_size (chunk_table h1 ! unat home)) \<noteq> kChunkSize
              then migrate_case1 home key (val_at h s) s h1
              else migrate_case2 home key (val_at h s) s h1)))"

fun HotnessAwareMigration :: "u64 list \<Rightarrow> PetHash \<Rightarrow> PetHash run" where
  "HotnessAwareMigration [] h = Returns h"
| "HotnessAwareMigration (key # hot_keys) h = run_bind (migrate_key h key) (HotnessAwareMigration hot_keys)"

section \<open>The chain between the home chunk and the current chunk\<close>

lemma PrevChunk_path:
  assumes sh: "shape h" and p: "unat p = path (nchunks h) key (Suc m)"
  shows "unat (PrevChunk h p (ProbeDelta (ucast (Sign (Hash key))))) = path (nchunks h) key m"
proof -
  obtain k where k: "nchunks h = 2 ^ k" "unat (chunk_num h) = 2 ^ k" using sh by (rule shapeE)
  let ?s = "ProbeDelta (ucast (Sign (Hash key)))"
  let ?x = "PrevChunk h p ?s"
  have d: "(2 ^ k :: int) dvd 2 ^ 64" using unat_pow2_bound [OF k(2)] by (intro le_imp_power_dvd) simp
  have n: "uint (chunk_num h) = 2 ^ k" unfolding uint_nat k(2) by simp
  have pp: "uint p = (int (unat (Hash key)) + int (Suc m) * int (stp key)) mod 2 ^ k"
    unfolding uint_nat p path_def k(1) zmod_int by (simp add: algebra_simps)
  have "uint ?x = (uint p - uint ?s + 2 ^ k) mod 2 ^ 64 mod 2 ^ k"
    by (simp add: PrevChunk_def uint_mod_distrib uint_word_ariths n mod_simps)
  also have "\<dots> = (uint p - uint ?s + 2 ^ k) mod 2 ^ k" using d by (rule mod_mod_cancel)
  also have "\<dots> = (int (unat (Hash key)) + int (Suc m) * int (stp key) - int (stp key)) mod 2 ^ k"
    unfolding pp stp_def uint_nat [of ?s] by (simp add: mod_simps)
  also have "\<dots> = int (path (nchunks h) key m)"
    unfolding path_def k(1) zmod_int by (simp add: algebra_simps)
  finally show ?thesis unfolding uint_nat by (simp only: of_nat_eq_iff)
qed

definition upd_all :: "(nat \<Rightarrow> F14Chunk \<Rightarrow> F14Chunk) \<Rightarrow> nat list \<Rightarrow> PetHash \<Rightarrow> PetHash" where
  "upd_all f ps h = fold (\<lambda>p g. upd_chunk g p (f p)) ps h"

lemma upd_all_fields [simp]:
  "nchunks (upd_all f ps h) = nchunks h" "chunk_num (upd_all f ps h) = chunk_num h"
  "capacity (upd_all f ps h) = capacity h" "dict_size (upd_all f ps h) = dict_size h"
  by (induction ps arbitrary: h) (simp_all add: upd_all_def)

lemma nth_upd_all:
  assumes "distinct ps" and "q < nchunks h"
  shows "chunk_table (upd_all f ps h) ! q =
    (if q \<in> set ps then f q (chunk_table h ! q) else chunk_table h ! q)"
  using assms
proof (induction ps arbitrary: h)
  case Nil
  then show ?case by (simp add: upd_all_def)
next
  case (Cons p ps)
  have "upd_all f (p # ps) h = upd_all f ps (upd_chunk h p (f p))" by (simp add: upd_all_def)
  with Cons show ?case by (auto simp: nth_upd_chunk)
qed

text \<open>The chunks from the one of depth \<open>d\<close> back to the home chunk.\<close>

definition chain :: "nat \<Rightarrow> u64 \<Rightarrow> nat \<Rightarrow> nat list" where
  "chain n key d = map (path n key) (rev [0..<Suc d])"

lemma chain_simps:
  "chain n key 0 = [path n key 0]" "chain n key (Suc d) = path n key (Suc d) # chain n key d"
  by (simp_all add: chain_def)

lemma set_chain: "set (chain n key d) = path n key ` {..d}"
  by (simp add: chain_def atLeast0LessThan lessThan_Suc_atMost del: upt_Suc)

lemma distinct_chain:
  assumes "n = 2 ^ k" and "d < n"
  shows "distinct (chain n key d)"
proof -
  have "inj_on (path n key) {..d}"
    by (rule inj_on_subset [OF path_inj [OF assms(1)]]) (use assms(2) in auto)
  then show ?thesis
    by (simp add: chain_def distinct_map atLeast0LessThan lessThan_Suc_atMost del: upt_Suc)
qed

lemma ChainTraverseReverse_chain:
  assumes sh: "shape h" and "unat home = path (nchunks h) key 0" and "d < nchunks h"
    and "unat cur = path (nchunks h) key d"
  shows "ChainTraverseReverse f home (ProbeDelta (ucast (Sign (Hash key)))) cur h =
    Some (upd_all f (chain (nchunks h) key d) h)"
  using assms
proof (induction d arbitrary: h cur)
  case 0
  then have "cur = home" by (simp add: word_unat_eq_iff)
  then show ?case using 0
    by (subst ChainTraverseReverse.simps) (simp add: chain_simps upd_all_def Let_def)
next
  case (Suc d)
  obtain k where k: "nchunks h = 2 ^ k" using Suc.prems(1) by (rule shapeE)
  have "path (nchunks h) key (Suc d) \<noteq> path (nchunks h) key 0"
    using path_eq_iff [OF k, of "Suc d" 0 key] Suc.prems(3) by simp
  then have ne: "cur \<noteq> home" using Suc.prems(2,4) by auto
  let ?h = "upd_chunk h (unat cur) (f (unat cur))"
  let ?p = "PrevChunk h cur (ProbeDelta (ucast (Sign (Hash key))))"
  have "unat ?p = path (nchunks ?h) key d" using PrevChunk_path [OF Suc.prems(1,4)] by simp
  moreover have "shape ?h" using Suc.prems(1) by (simp add: shape_cong [of ?h h])
  ultimately have "ChainTraverseReverse f home (ProbeDelta (ucast (Sign (Hash key)))) ?p ?h =
      Some (upd_all f (chain (nchunks ?h) key d) ?h)"
    using Suc.prems(2,3) by (intro Suc.IH) simp_all
  then show ?case using ne Suc.prems(4)
    by (simp add: ChainTraverseReverse.simps [of f home _ cur h] chain_simps upd_all_def Let_def)
qed

section \<open>Placing the victim\<close>

text \<open>The table after the victim has passed the chunks \<open>ps\<close> and was put into chunk \<open>c\<close>.\<close>

definition victim_placed :: "PetHash \<Rightarrow> u64 \<Rightarrow> u64 \<Rightarrow> nat list \<Rightarrow> nat \<Rightarrow> PetHash" where
  "victim_placed h v w ps c =
     upd_chunk (upd_all (\<lambda>_. IncOverflow) ps h) c (\<lambda>ch. ChunkSet (ch\<lparr>ch_size := ch_size ch + 1\<rparr>)
       (ctz (MatchTag ch 0)) (Sign (Hash v)) \<lparr>first = v, second = w\<rparr>)"

lemma victim_loop_placed:
  assumes "shape h" and "\<And>q. q < nchunks h \<Longrightarrow> chunk_wf (chunk_table h ! q)"
    and "unat pos = path (nchunks h) v m" and "\<not> Full h"
    and "\<And>j. m \<le> j \<Longrightarrow> j < m' \<Longrightarrow> chunk_full h (path (nchunks h) v j)"
    and "\<not> chunk_full h (path (nchunks h) v m')" and "m \<le> m'" and "m' < r + m"
    and "unat home \<noteq> path (nchunks h) v m'"
  shows "victim_loop r home v w (Sign (Hash v)) (ProbeDelta (ucast (Sign (Hash v)))) pos h =
    Returns (victim_placed h v w (map (path (nchunks h) v) [m..<m']) (path (nchunks h) v m'))"
  using assms
proof (induction r arbitrary: h m pos)
  case 0
  then show ?case by simp
next
  case (Suc r)
  obtain k where k: "nchunks h = 2 ^ k" "unat (chunk_num h) = 2 ^ k" using Suc.prems(1) by (rule shapeE)
  have u: "unat pos < nchunks h" using Suc.prems(3) path_less k(1) by simp
  note wf = Suc.prems(2) [OF u]
  show ?case
  proof (cases "m = m'")
    case True
    then have sz: "unat (ch_size (chunk_table h ! unat pos)) < 14"
      using Suc.prems(3,6) by (simp add: chunk_full_def)
    have "home \<noteq> pos" using Suc.prems(3,9) True by auto
    with sz True Suc.prems(3) ChunkInsert_Returns [OF wf sz Sign_nonzero, of v w "Hash v"] show ?thesis
      by (simp add: Let_def kChunkSize_def kMaxSize_def victim_placed_def upd_all_def upd_chunk_def)
  next
    case False
    then have mm: "m < m'" using Suc.prems(7) by simp
    have full: "chunk_full h (unat pos)" using Suc.prems(5) [of m] mm Suc.prems(3) by simp
    then have sz: "unat (ch_size (chunk_table h ! unat pos)) = 14"
      using chunk_wfD(3) [OF wf] by (simp add: chunk_full_def)
    let ?h = "upd_chunk h (unat pos) IncOverflow"
    let ?pos = "(pos + ProbeDelta (ucast (Sign (Hash v)))) AND (chunk_num h - 1)"
    have "unat ?pos = path (nchunks ?h) v (Suc m)"
      using word_path_Suc [OF k(2)] Suc.prems(3) k(1) by simp
    moreover have "shape ?h" using Suc.prems(1) by (simp add: shape_cong [of ?h h])
    moreover have "chunk_full ?h q = chunk_full h q" if "q < nchunks h" for q
      using that by (simp add: chunk_full_def)
    moreover have "path (nchunks h) v j < nchunks h" for j using path_less k(1) by simp
    moreover have "chunk_wf (chunk_table ?h ! q)" if "q < nchunks h" for q
      using Suc.prems(2) [OF that] that by (auto simp: nth_upd_chunk)
    moreover have "\<not> Full ?h" using Suc.prems(4) by (simp add: Full_def)
    ultimately have "victim_loop r home v w (Sign (Hash v)) (ProbeDelta (ucast (Sign (Hash v)))) ?pos ?h =
        Returns (victim_placed ?h v w (map (path (nchunks ?h) v) [Suc m..<m']) (path (nchunks ?h) v m'))"
      using mm Suc.prems by (intro Suc.IH) simp_all
    then show ?thesis using sz Suc.prems(3,4) mm
      by (simp add: Let_def kChunkSize_def kMaxSize_def victim_placed_def upt_conv_Cons upd_all_def)
  qed
qed

section \<open>The table after a migration with a victim\<close>

text \<open>
  A chunk of the table after case 2, from the same chunk before: \<open>inc\<close> and \<open>dec\<close> say whether
  its counter was raised for the victim and lowered for the key, \<open>put\<close>, \<open>rep\<close> and \<open>del\<close>
  whether the victim was put there, its first slot was replaced, the old slot was deleted.
\<close>

definition moved_chunk ::
  "PetHash \<Rightarrow> u64 \<Rightarrow> location \<Rightarrow> nat \<Rightarrow> nat list \<Rightarrow> nat \<Rightarrow> nat \<Rightarrow> F14Chunk" where
  "moved_chunk h key s d ps c q =
     (let n = nchunks h; home = path n key 0; x0 = chunk_table h ! q;
          v = first (vals (chunk_table h ! home) ! 0); w = second (vals (chunk_table h ! home) ! 0);
          x1 = (if q \<in> set (chain n key d) then x0\<lparr>is_migrating := True\<rparr> else x0);
          x2 = (if q \<in> set ps then IncOverflow x1 else x1);
          x3 = (if q = c then ChunkSet (x2\<lparr>ch_size := ch_size x2 + 1\<rparr>) (ctz (MatchTag x2 0)) (Sign (Hash v))
                  \<lparr>first = v, second = w\<rparr> else x2);
          x4 = (if q = home then ChunkSet (IncOverflow x3) 0 (Sign (Hash key))
                  \<lparr>first = key, second = val_at h s\<rparr> else x3);
          x5 = (if q = fst s then ChunkDelete x4 (snd s) else x4)
      in if q \<in> set (chain n key d)
         then (if q = fst s then x5\<lparr>is_migrating := False\<rparr> else DecOverflow (x5\<lparr>is_migrating := False\<rparr>))
         else x5)"

definition moved :: "PetHash \<Rightarrow> u64 \<Rightarrow> location \<Rightarrow> nat \<Rightarrow> nat list \<Rightarrow> nat \<Rightarrow> PetHash" where
  "moved h key s d ps c = h\<lparr>chunk_table := map (moved_chunk h key s d ps c) [0..<nchunks h]\<rparr>"

text \<open>The situation of case 2 for a key stored at \<open>s\<close>, with the first chunk that takes the victim.\<close>

definition case2 :: "PetHash \<Rightarrow> u64 \<Rightarrow> location \<Rightarrow> nat \<Rightarrow> u64 \<Rightarrow> nat \<Rightarrow> nat \<Rightarrow> bool" where
  "case2 h key s d v dv m \<longleftrightarrow> pet_inv h \<and> s \<in> used h \<and> key_at h s = key \<and>
     0 < d \<and> d < nchunks h \<and> path (nchunks h) key d = fst s \<and>
     chunk_full h (path (nchunks h) key 0) \<and> \<not> Full h \<and>
     v = key_at h (path (nchunks h) key 0, 0) \<and>
     dv < nchunks h \<and> path (nchunks h) v dv = path (nchunks h) key 0 \<and>
     dv < m \<and> m < dv + nchunks h \<and>
     (\<forall>j. dv < j \<and> j < m \<longrightarrow> chunk_full h (path (nchunks h) v j)) \<and>
     \<not> chunk_full h (path (nchunks h) v m)"

lemma case2D:
  assumes "case2 h key s d v dv m"
  shows "pet_inv h" "s \<in> used h" "key_at h s = key" "0 < d" "d < nchunks h"
    "path (nchunks h) key d = fst s" "chunk_full h (path (nchunks h) key 0)" "\<not> Full h"
    "v = key_at h (path (nchunks h) key 0, 0)" "dv < nchunks h"
    "path (nchunks h) v dv = path (nchunks h) key 0" "dv < m" "m < dv + nchunks h"
    "dv < j \<Longrightarrow> j < m \<Longrightarrow> chunk_full h (path (nchunks h) v j)" "\<not> chunk_full h (path (nchunks h) v m)"
  using assms by (auto simp: case2_def)

abbreviation passed :: "PetHash \<Rightarrow> u64 \<Rightarrow> nat \<Rightarrow> nat \<Rightarrow> nat list" where
  "passed h v dv m \<equiv> map (path (nchunks h) v) [Suc dv..<m]"

abbreviation after2 :: "PetHash \<Rightarrow> u64 \<Rightarrow> location \<Rightarrow> nat \<Rightarrow> u64 \<Rightarrow> nat \<Rightarrow> nat \<Rightarrow> PetHash" where
  "after2 h key s d v dv m \<equiv> moved h key s d (passed h v dv m) (path (nchunks h) v m)"

lemma case2_places:
  assumes c2: "case2 h key s d v dv m"
  shows "path (nchunks h) key 0 < nchunks h" "path (nchunks h) v m < nchunks h" "fst s < nchunks h"
    "fst s \<noteq> path (nchunks h) key 0" "path (nchunks h) v m \<noteq> path (nchunks h) key 0"
    "path (nchunks h) key 0 \<notin> set (passed h v dv m)"
    "(path (nchunks h) key 0, 0) \<in> used h" "distinct (passed h v dv m)"
    "path (nchunks h) v m \<notin> set (passed h v dv m)"
proof -
  note D = case2D [OF c2]
  obtain k where k: "nchunks h = 2 ^ k" using pet_invpD(1) [OF D(1)] by (rule shapeE)
  show h0: "path (nchunks h) key 0 < nchunks h" "path (nchunks h) v m < nchunks h"
    using path_less k by simp_all
  show "fst s < nchunks h" using D(2) by (simp add: used_iff)
  show "fst s \<noteq> path (nchunks h) key 0" using path_eq_iff [OF k, of d 0 key] D(4-6) by simp
  show "path (nchunks h) v m \<noteq> path (nchunks h) key 0"
    using path_window [OF k D(12,13)] D(11) by metis
  show "path (nchunks h) key 0 \<notin> set (passed h v dv m)"
  proof
    assume "path (nchunks h) key 0 \<in> set (passed h v dv m)"
    then obtain j where "j \<in> {Suc dv..<m}" "path (nchunks h) key 0 = path (nchunks h) v j"
      unfolding set_map set_upt by blast
    then show False using path_window [OF k, of dv j v] D(11,13) by simp
  qed
  show "path (nchunks h) v m \<notin> set (passed h v dv m)"
  proof
    assume "path (nchunks h) v m \<in> set (passed h v dv m)"
    then obtain j where "j \<in> {Suc dv..<m}" "path (nchunks h) v m = path (nchunks h) v j"
      unfolding set_map set_upt by blast
    then show False using path_window [OF k, of j m v] D(13) by simp
  qed
  show "(path (nchunks h) key 0, 0) \<in> used h"
    using chunk_full_iff [OF D(1) h0(1)] D(7) by simp
  have "inj_on (path (nchunks h) v) {Suc dv..<m}"
  proof (rule linorder_inj_onI)
    fix a b assume "a < b" "a \<in> {Suc dv..<m}" "b \<in> {Suc dv..<m}"
    then show "path (nchunks h) v a \<noteq> path (nchunks h) v b" using path_window [OF k, of a b v] D(13) by simp
  qed auto
  then show "distinct (passed h v dv m)" by (simp add: distinct_map)
qed

lemma nth_moved: "q < nchunks h \<Longrightarrow> chunk_table (moved h key s d ps c) ! q = moved_chunk h key s d ps c q"
  by (simp add: moved_def)

lemma moved_fields [simp]:
  "nchunks (moved h key s d ps c) = nchunks h" "chunk_num (moved h key s d ps c) = chunk_num h"
  "capacity (moved h key s d ps c) = capacity h" "dict_size (moved h key s d ps c) = dict_size h"
  by (simp_all add: moved_def nchunks_def)

text \<open>The tags, entries and counters of the chunks, one field at a time.\<close>

lemma MatchTag_other [simp]:
  "MatchTag (c\<lparr>is_migrating := b\<rparr>) t = MatchTag c t" "MatchTag (IncOverflow c) t = MatchTag c t"
  by (simp_all add: MatchTag_def IncOverflow_def)

lemma overflow_flag [simp]:
  "IncOverflow (c\<lparr>is_migrating := b\<rparr>) = (IncOverflow c)\<lparr>is_migrating := b\<rparr>"
  "DecOverflow (c\<lparr>is_migrating := b\<rparr>) = (DecOverflow c)\<lparr>is_migrating := b\<rparr>"
  by (simp_all add: IncOverflow_def DecOverflow_def)

lemma case2_sets:
  assumes c2: "case2 h key s d v dv m"
  shows "q \<in> set (chain (nchunks h) key d) \<longleftrightarrow> q = fst s \<or> q \<in> path (nchunks h) key ` {..<d}"
    "fst s \<notin> path (nchunks h) key ` {..<d}"
    "path (nchunks h) v ` {dv..<m} = insert (path (nchunks h) key 0) (set (passed h v dv m))"
    "path (nchunks h) key 0 \<in> path (nchunks h) key ` {..<d}"
proof -
  note D = case2D [OF c2]
  obtain k where k: "nchunks h = 2 ^ k" using pet_invpD(1) [OF D(1)] by (rule shapeE)
  have "{..d} = insert d {..<d}" by auto
  then show "q \<in> set (chain (nchunks h) key d) \<longleftrightarrow> q = fst s \<or> q \<in> path (nchunks h) key ` {..<d}"
    using D(6) by (auto simp: set_chain)
  show "fst s \<notin> path (nchunks h) key ` {..<d}"
  proof
    assume "fst s \<in> path (nchunks h) key ` {..<d}"
    then obtain j where "j < d" "path (nchunks h) key d = path (nchunks h) key j" using D(6) by auto
    then show False using path_eq_iff [OF k, of d j key] D(5) by simp
  qed
  have "{dv..<m} = insert dv {Suc dv..<m}" using D(12) by auto
  then show "path (nchunks h) v ` {dv..<m} = insert (path (nchunks h) key 0) (set (passed h v dv m))"
    using D(11) by simp
  show "path (nchunks h) key 0 \<in> path (nchunks h) key ` {..<d}" using D(4) by auto
qed

lemma overflow_only:
  "overflow_count (IncOverflow c) = (if overflow_count c \<noteq> 255 then overflow_count c + 1 else 255)"
  "overflow_count (DecOverflow c) = (if overflow_count c \<noteq> 255 then overflow_count c - 1 else 255)"
  by (simp_all add: IncOverflow_def DecOverflow_def)

lemma after2_overflow:
  assumes c2: "case2 h key s d v dv m" and q: "q < nchunks h"
  shows "overflow_count (chunk_table (after2 h key s d v dv m) ! q) =
      (let c = chunk_table h ! q;
           c = (if q \<in> path (nchunks h) v ` {dv..<m} then IncOverflow c else c)
       in overflow_count (if q \<in> path (nchunks h) key ` {..<d} then DecOverflow c else c))"
proof -
  note pl = case2_places [OF c2] and se = case2_sets [OF c2]
  have "q \<in> path (nchunks h) key ` {..<d} \<Longrightarrow> q \<noteq> fst s" using se(2) by metis
  then show ?thesis
    unfolding nth_moved [OF q] moved_chunk_def Let_def se(1) se(3)
    using pl(4-6,9) se(4)
    by (simp add: ChunkSet_def ChunkDelete_def overflow_only)
qed

lemma after2_chunk:
  assumes c2: "case2 h key s d v dv m" and q: "q < nchunks h"
  shows "tags (chunk_table (after2 h key s d v dv m) ! q) =
      (let t = tags (chunk_table h ! q);
           t = (if q = path (nchunks h) v m then t[ctz (MatchTag (chunk_table h ! q) 0) := Sign (Hash v)] else t);
           t = (if q = path (nchunks h) key 0 then t[0 := Sign (Hash key)] else t)
       in if q = fst s then t[snd s := 0] else t)"
    and "vals (chunk_table (after2 h key s d v dv m) ! q) =
      (let t = vals (chunk_table h ! q);
           t = (if q = path (nchunks h) v m then t[ctz (MatchTag (chunk_table h ! q) 0) :=
                  \<lparr>first = v, second = val_at h (path (nchunks h) key 0, 0)\<rparr>] else t);
           t = (if q = path (nchunks h) key 0 then t[0 := \<lparr>first = key, second = val_at h s\<rparr>] else t)
       in if q = fst s then t[snd s := (t ! snd s)\<lparr>first := -1\<rparr>] else t)"
    and "ch_size (chunk_table (after2 h key s d v dv m) ! q) =
      ch_size (chunk_table h ! q) + of_bool (q = path (nchunks h) v m) - of_bool (q = fst s)"
    and "overflow_count (chunk_table (after2 h key s d v dv m) ! q) =
      (let c = chunk_table h ! q;
           c = (if q \<in> path (nchunks h) v ` {dv..<m} then IncOverflow c else c)
       in overflow_count (if q \<in> path (nchunks h) key ` {..<d} then DecOverflow c else c))"
    and "is_migrating (chunk_table (after2 h key s d v dv m) ! q) \<Longrightarrow> is_migrating (chunk_table h ! q)"
proof -
  note pl = case2_places [OF c2] and se = case2_sets [OF c2] and D = case2D [OF c2]
  note defs = nth_moved [OF q] moved_chunk_def Let_def
  have vw: "first (vals (chunk_table h ! path (nchunks h) key 0) ! 0) = v"
    "second (vals (chunk_table h ! path (nchunks h) key 0) ! 0) = val_at h (path (nchunks h) key 0, 0)"
    using D(9) by (simp_all add: key_at_def val_at_def)
  show "tags (chunk_table (after2 h key s d v dv m) ! q) =
      (let t = tags (chunk_table h ! q);
           t = (if q = path (nchunks h) v m then t[ctz (MatchTag (chunk_table h ! q) 0) := Sign (Hash v)] else t);
           t = (if q = path (nchunks h) key 0 then t[0 := Sign (Hash key)] else t)
       in if q = fst s then t[snd s := 0] else t)"
    unfolding defs vw using pl by (simp add: ChunkSet_def ChunkDelete_def)
  show "vals (chunk_table (after2 h key s d v dv m) ! q) =
      (let t = vals (chunk_table h ! q);
           t = (if q = path (nchunks h) v m then t[ctz (MatchTag (chunk_table h ! q) 0) :=
                  \<lparr>first = v, second = val_at h (path (nchunks h) key 0, 0)\<rparr>] else t);
           t = (if q = path (nchunks h) key 0 then t[0 := \<lparr>first = key, second = val_at h s\<rparr>] else t)
       in if q = fst s then t[snd s := (t ! snd s)\<lparr>first := -1\<rparr>] else t)"
    unfolding defs vw using pl by (simp add: ChunkSet_def ChunkDelete_def)
  show "ch_size (chunk_table (after2 h key s d v dv m) ! q) =
      ch_size (chunk_table h ! q) + of_bool (q = path (nchunks h) v m) - of_bool (q = fst s)"
    unfolding defs vw using pl by (simp add: ChunkSet_def ChunkDelete_def)
  show "overflow_count (chunk_table (after2 h key s d v dv m) ! q) =
      (let c = chunk_table h ! q;
           c = (if q \<in> path (nchunks h) v ` {dv..<m} then IncOverflow c else c)
       in overflow_count (if q \<in> path (nchunks h) key ` {..<d} then DecOverflow c else c))"
    using after2_overflow [OF c2 q] .
  show "is_migrating (chunk_table (after2 h key s d v dv m) ! q) \<Longrightarrow> is_migrating (chunk_table h ! q)"
    unfolding defs vw using pl(4-6) by (simp add: ChunkSet_def ChunkDelete_def split: if_splits)
qed

lemma used_tag: "t \<in> used h \<longleftrightarrow> fst t < nchunks h \<and> snd t < 14 \<and> tag_at h t \<noteq> 0"
  by (simp add: used_iff tag_at_def InUse_def)

lemma after2_entries:
  assumes c2: "case2 h key s d v dv m"
  defines "A \<equiv> after2 h key s d v dv m" and "hm \<equiv> (path (nchunks h) key 0, 0)"
    and "nw \<equiv> free_slot h (path (nchunks h) v m)"
  shows "used A = insert nw (used h - {s})"
    and "key_at A nw = v" "val_at A nw = val_at h hm" "tag_at A nw = Sign (Hash v)"
    and "key_at A hm = key" "val_at A hm = val_at h s" "tag_at A hm = Sign (Hash key)"
    and "t \<in> used h \<Longrightarrow> t \<noteq> s \<Longrightarrow> t \<noteq> hm \<Longrightarrow> key_at A t = key_at h t"
    and "t \<in> used h \<Longrightarrow> t \<noteq> s \<Longrightarrow> t \<noteq> hm \<Longrightarrow> val_at A t = val_at h t"
    and "t \<in> used h \<Longrightarrow> t \<noteq> s \<Longrightarrow> t \<noteq> hm \<Longrightarrow> tag_at A t = tag_at h t"
    and "nw \<notin> used h" "hm \<noteq> s" "nw \<noteq> hm" "hm \<in> used h" "fst nw = path (nchunks h) v m"
proof -
  note pl = case2_places [OF c2] and D = case2D [OF c2]
  let ?c = "path (nchunks h) v m" and ?home = "path (nchunks h) key 0"
  let ?i = "ctz (MatchTag (chunk_table h ! ?c) 0)"
  have sz: "unat (ch_size (chunk_table h ! ?c)) < 14" using D(15) by (simp add: chunk_full_def)
  note fs = free_slotD [OF D(1) pl(2) sz]
  have i: "?i < 14" using fs(2) by (simp add: free_slot_def)
  have wf: "length (tags (chunk_table h ! q)) = 14" "length (vals (chunk_table h ! q)) = 14" if "q < nchunks h" for q
    using chunk_wfD(1,2) pet_invpD(2) [OF D(1) that] by auto
  have si: "snd s < 14" using D(2) by (simp add: used_iff)
  note tg = after2_chunk(1) [OF c2, unfolded Let_def] and vl = after2_chunk(2) [OF c2, unfolded Let_def]
  show nw: "nw \<notin> used h" using fs(1) by (simp add: nw_def)
  show hm: "hm \<noteq> s" "hm \<in> used h" using pl(4,7) by (auto simp: hm_def)
  show "nw \<noteq> hm" using nw hm(2) by auto
  show "fst nw = ?c" by (simp add: nw_def free_slot_def)
  have ns: "?c = fst s \<Longrightarrow> ?i \<noteq> snd s" using nw D(2) by (auto simp: nw_def free_slot_def)
  show "key_at A nw = v" "val_at A nw = val_at h hm" and tnw: "tag_at A nw = Sign (Hash v)"
    using pl(2,5) wf [OF pl(2)] i ns
    by (auto simp: A_def nw_def hm_def free_slot_def key_at_def val_at_def tag_at_def tg vl)
  show "key_at A hm = key" "val_at A hm = val_at h s" and tkey: "tag_at A hm = Sign (Hash key)"
    using pl(1,4,5) wf [OF pl(1)]
    by (auto simp: A_def hm_def key_at_def val_at_def tag_at_def tg vl)
  have other: "tag_at A t = tag_at h t" "key_at A t = key_at h t" "val_at A t = val_at h t"
    if t: "fst t < nchunks h" "snd t < 14" "t \<noteq> s" "t \<noteq> hm" "t \<noteq> nw" for t
  proof -
    have "fst t = fst s \<Longrightarrow> snd t \<noteq> snd s" "fst t = ?home \<Longrightarrow> snd t \<noteq> 0" "fst t = ?c \<Longrightarrow> snd t \<noteq> ?i"
      using t(3-5) by (auto simp: hm_def nw_def free_slot_def prod_eq_iff)
    then show "tag_at A t = tag_at h t" "key_at A t = key_at h t" "val_at A t = val_at h t"
      using t(1,2) wf [OF t(1)]
      by (auto simp: A_def tag_at_def key_at_def val_at_def tg vl nth_list_update_any)
  qed
  show "key_at A t = key_at h t" "val_at A t = val_at h t" "tag_at A t = tag_at h t"
    if "t \<in> used h" "t \<noteq> s" "t \<noteq> hm" for t
    using other [of t] that nw by (auto simp: used_iff)
  have s0: "tag_at A s = 0"
    using pl(3) wf [OF pl(3)] si by (auto simp: A_def tag_at_def tg nth_list_update_any)
  have nA: "nchunks A = nchunks h" by (simp add: A_def)
  have "t \<in> used A \<longleftrightarrow> t = nw \<or> t \<in> used h \<and> t \<noteq> s" for t
  proof (cases "t = nw \<or> t = s \<or> t = hm")
    case True
    then show ?thesis
      using s0 hm nw pl(2) i tnw tkey nA D(2) by (auto simp: used_tag Sign_nonzero nw_def free_slot_def)
  next
    case False
    then show ?thesis using other(1) [of t] by (auto simp: used_tag nA)
  qed
  then show "used A = insert nw (used h - {s})" by blast
qed

end
