(* ===== verification/Pet_Migrated.thy ===== *)
theory Pet_Migrated
  imports Pet_Migration
begin

text \<open>
  Correctness of a migration that replaces a victim (case 2 of \<open>HotnessAwareMigration\<close>), and
  the entry that a migration into a free slot (case 1) can lose.
\<close>

section \<open>Migration with a victim keeps the table\<close>

lemma card_minus_two:
  assumes "finite X" and "a \<noteq> b"
  shows "card (X - {a, b}) + of_bool (a \<in> X) + of_bool (b \<in> X) = card X"
proof -
  have "card (Y - {x}) + of_bool (x \<in> Y) = card Y" if "finite Y" for x and Y :: "'a set"
    using that by (cases "x \<in> Y") (simp_all add: card_Suc_Diff1 del: card_Diff_insert)
  from this [of X a] this [of "X - {a}" b] show ?thesis
    using assms by (simp add: Diff_insert2 [of X a "{b}"] insert_commute)
qed

lemma trail_self: "trail n key (path n key 0) = []"
  by (cases n) (simp_all add: trail_def upt_conv_Cons del: upt_Suc)

lemma after2_passing:
  assumes c2: "case2 h key s d v dv m"
  shows "card (passing (after2 h key s d v dv m) p) + of_bool (p \<in> path (nchunks h) key ` {..<d}) \<le>
    card (passing h p) + of_bool (p \<in> path (nchunks h) v ` {dv..<m})"
proof -
  let ?n = "nchunks h" and ?A = "after2 h key s d v dv m" and ?hm = "(path (nchunks h) key 0, 0) :: location"
    and ?nw = "free_slot h (path (nchunks h) v m)"
  note D = case2D [OF c2] and e = after2_entries [OF c2]
  obtain k where k: "?n = 2 ^ k" using pet_invpD(1) [OF D(1)] by (rule shapeE)
  have mm: "m mod ?n < ?n" using k by simp
  have tr: "trail ?n v (path ?n v m) = map (path ?n v) [0..<m mod ?n]"
    using trail_path [OF k mm, of v] by (simp add: path_mod)
  have s: "s \<in> passing h p \<longleftrightarrow> p \<in> path ?n key ` {..<d}"
    using D(2,3) trail_path [OF k D(5), of key] D(6) by (auto simp: passing_def)
  have hm: "?hm \<in> passing h p \<longleftrightarrow> p \<in> path ?n v ` {..<dv}"
    using e(14) trail_path [OF k D(10), of v] D(9,11) by (auto simp: passing_def)
  have "passing ?A p \<subseteq> (passing h p - {s, ?hm}) \<union> (if p \<in> path ?n v ` {..<m mod ?n} then {?nw} else {})"
  proof
    fix t assume t: "t \<in> passing ?A p"
    have "t = ?nw \<Longrightarrow> p \<in> path ?n v ` {..<m mod ?n}" using t e(2,15) tr by (auto simp: passing_def)
    moreover have "t \<noteq> ?hm" using t e(5) by (auto simp: passing_def trail_self)
    moreover have "t \<noteq> ?nw \<Longrightarrow> t \<in> passing h p \<and> t \<noteq> s"
      using t e(1) e(8) [of t] \<open>t \<noteq> ?hm\<close> by (auto simp: passing_def)
    ultimately show "t \<in> (passing h p - {s, ?hm}) \<union> (if p \<in> path ?n v ` {..<m mod ?n} then {?nw} else {})"
      by auto
  qed
  then have "card (passing ?A p) \<le> card (passing h p - {s, ?hm}) + of_bool (p \<in> path ?n v ` {..<m mod ?n})"
    using card_mono [of "(passing h p - {s, ?hm}) \<union> (if p \<in> path ?n v ` {..<m mod ?n} then {?nw} else {})" "passing ?A p"]
      card_Un_le [of "passing h p - {s, ?hm}" "if p \<in> path ?n v ` {..<m mod ?n} then {?nw} else {}"]
    by (auto split: if_splits)
  moreover have "card (passing h p - {s, ?hm}) + of_bool (s \<in> passing h p) + of_bool (?hm \<in> passing h p) = card (passing h p)"
    using e(12) by (intro card_minus_two) auto
  moreover have "p \<in> path ?n v ` {..<m mod ?n} \<Longrightarrow> p \<in> path ?n v ` {..<dv} \<or> p \<in> path ?n v ` {dv..<m}"
  proof -
    have "m mod ?n = m \<or> m mod ?n < dv"
    proof (cases "m < ?n")
      case False
      then have "m mod ?n = m - ?n" using D(10,13) by (simp add: mod_if)
      then show ?thesis using D(13) False by linarith
    qed simp
    then have "{..<m mod ?n} \<subseteq> {..<dv} \<union> {dv..<m}" by auto
    then show "p \<in> path ?n v ` {..<m mod ?n} \<Longrightarrow> p \<in> path ?n v ` {..<dv} \<or> p \<in> path ?n v ` {dv..<m}" by blast
  qed
  ultimately show ?thesis using s hm by (auto simp: of_bool_def split: if_splits)
qed

text \<open>
  The entries of the new table are those of the old one in other places: the victim's slot took
  over the key, the new slot the victim.
\<close>

definition origin :: "PetHash \<Rightarrow> u64 \<Rightarrow> location \<Rightarrow> u64 \<Rightarrow> nat \<Rightarrow> location \<Rightarrow> location" where
  "origin h key s v m t =
     (if t = free_slot h (path (nchunks h) v m) then (path (nchunks h) key 0, 0)
      else if t = (path (nchunks h) key 0, 0) then s else t)"

lemma origin_bij:
  assumes c2: "case2 h key s d v dv m"
  shows "bij_betw (origin h key s v m) (used (after2 h key s d v dv m)) (used h)"
proof -
  note e = after2_entries [OF c2] and D = case2D [OF c2]
  have "inj_on (origin h key s v m) (used (after2 h key s d v dv m))"
    using e(1,11,12,13,14) by (auto simp: inj_on_def origin_def)
  moreover have "origin h key s v m ` used (after2 h key s d v dv m) = used h"
    using e(1,11,12,13,14) D(2) by (auto simp: origin_def image_iff)
  ultimately show ?thesis by (simp add: bij_betw_def)
qed

lemma origin_entry:
  assumes c2: "case2 h key s d v dv m" and t: "t \<in> used (after2 h key s d v dv m)"
  shows "key_at (after2 h key s d v dv m) t = key_at h (origin h key s v m t)"
    and "val_at (after2 h key s d v dv m) t = val_at h (origin h key s v m t)"
    and "tag_at (after2 h key s d v dv m) t = Sign (Hash (key_at h (origin h key s v m t)))"
proof -
  note e = after2_entries [OF c2] and D = case2D [OF c2]
  let ?hm = "(path (nchunks h) key 0, 0) :: location" and ?nw = "free_slot h (path (nchunks h) v m)"
  consider "t = ?nw" | "t \<noteq> ?nw" "t = ?hm" | "t \<noteq> ?nw" "t \<noteq> ?hm" "t \<in> used h" "t \<noteq> s"
    using t e(1) by blast
  then have "key_at (after2 h key s d v dv m) t = key_at h (origin h key s v m t) \<and>
      val_at (after2 h key s d v dv m) t = val_at h (origin h key s v m t) \<and>
      tag_at (after2 h key s d v dv m) t = Sign (Hash (key_at h (origin h key s v m t)))"
  proof cases
    case 1
    then show ?thesis using e(2-4) D(9) by (simp add: origin_def)
  next
    case 2
    then show ?thesis using e(5-7,13) D(3) by (simp add: origin_def)
  next
    case 3
    then show ?thesis using e(8-10) [of t] pet_invpD(3) [OF D(1), of t] by (simp add: origin_def)
  qed
  then show "key_at (after2 h key s d v dv m) t = key_at h (origin h key s v m t)"
    "val_at (after2 h key s d v dv m) t = val_at h (origin h key s v m t)"
    "tag_at (after2 h key s d v dv m) t = Sign (Hash (key_at h (origin h key s v m t)))" by auto
qed

lemma after2_inj:
  assumes c2: "case2 h key s d v dv m"
  shows "inj_on (key_at (after2 h key s d v dv m)) (used (after2 h key s d v dv m))"
proof -
  have "inj_on (key_at h \<circ> origin h key s v m) (used (after2 h key s d v dv m))"
    using origin_bij [OF c2] pet_invpD(4) [OF case2D(1) [OF c2]]
    by (metis bij_betw_def comp_inj_on)
  then show ?thesis using origin_entry(1) [OF c2] by (simp add: inj_on_def)
qed

lemma abs_after2:
  assumes c2: "case2 h key s d v dv m"
  shows "abs_map (after2 h key s d v dv m) = abs_map h"
proof
  let ?A = "after2 h key s d v dv m" and ?o = "origin h key s v m"
  have im: "?o ` used ?A = used h" using origin_bij [OF c2] by (simp add: bij_betw_def)
  note i = after2_inj [OF c2] and j = pet_invpD(4) [OF case2D(1) [OF c2]]
  fix k
  show "abs_map ?A k = abs_map h k"
  proof (cases "abs_map ?A k")
    case None
    have "key_at h ` used h = key_at ?A ` used ?A"
      unfolding im [symmetric] image_image using origin_entry(1) [OF c2] by (intro image_cong) auto
    then show ?thesis using None by (metis abs_map_None)
  next
    case (Some w)
    then obtain t where t: "t \<in> used ?A" "key_at ?A t = k" "val_at ?A t = w" by (auto dest: abs_map_SomeD)
    then have "?o t \<in> used h" using im by auto
    then show ?thesis using abs_map_SomeI [OF j] origin_entry(1,2) [OF c2 t(1)] t Some by metis
  qed
qed

lemma chunk_wf_cong:
  assumes "chunk_wf c" and "tags c' = tags c" and "ch_size c' = ch_size c" and "length (vals c') = length (vals c)"
  shows "chunk_wf c'"
  using assms by (simp add: chunk_wf_def)

lemma chunk_wf_replace:
  assumes "chunk_wf c" and "InUse c i" and "i < 14" and "sign \<noteq> 0"
  shows "chunk_wf (ChunkSet c i sign e)"
proof -
  have len: "length (tags c) = 14" using chunk_wfD [OF assms(1)] by simp
  have "length (filter (\<lambda>t. t \<noteq> 0) ((tags c)[i := sign])) = length (filter (\<lambda>t. t \<noteq> 0) (tags c))"
    using length_filter_update [of i "tags c" "\<lambda>t. t \<noteq> 0" sign] assms len by (simp add: InUse_def)
  then show ?thesis using assms(1) by (simp add: chunk_wf_def ChunkSet_def)
qed

lemma after2_wf:
  assumes c2: "case2 h key s d v dv m" and q: "q < nchunks h"
  shows "chunk_wf (chunk_table (after2 h key s d v dv m) ! q)"
proof -
  note D = case2D [OF c2] and pl = case2_places [OF c2] and a = after2_chunk [OF c2 q, unfolded Let_def]
  let ?c = "path (nchunks h) v m" and ?x = "chunk_table h ! q"
  let ?i = "ctz (MatchTag (chunk_table h ! q) 0)"
  have wf: "chunk_wf ?x" using pet_invpD(2) [OF D(1) q] .
  have free: "?i < 14" "tags ?x ! ?i = 0" if "q = ?c"
    using free_slot_mask [OF wf] D(15) that by (auto simp: chunk_full_def)
  have used: "InUse ?x (snd s)" "snd s < 14" if "q = fst s" using D(2) that by (auto simp: used_iff)
  have use: "chunk_wf (ChunkSet (?x\<lparr>ch_size := ch_size ?x + 1\<rparr>) ?i (Sign (Hash v)) e)" if "q = ?c" for e
    using chunk_wf_use_slot [OF wf free Sign_nonzero] that by blast
  consider "q = ?c" "q \<noteq> fst s" | "q = ?c" "q = fst s" | "q \<noteq> ?c" "q = fst s"
    | "q = path (nchunks h) key 0" "q \<noteq> ?c" "q \<noteq> fst s"
    | "q \<noteq> ?c" "q \<noteq> fst s" "q \<noteq> path (nchunks h) key 0" by blast
  then show ?thesis
  proof cases
    case 1
    show ?thesis
      by (rule chunk_wf_cong [OF use [OF 1(1), of undefined]]) (use 1 pl(5) a in \<open>simp_all add: ChunkSet_def\<close>)
  next
    case 2
    let ?y = "ChunkSet (?x\<lparr>ch_size := ch_size ?x + 1\<rparr>) ?i (Sign (Hash v)) undefined"
    have "?i \<noteq> snd s" using free(2) [OF 2(1)] used(1) [OF 2(2)] by (auto simp: InUse_def)
    then have "InUse ?y (snd s)" using used(1) [OF 2(2)] by (simp add: InUse_def ChunkSet_def)
    from chunk_wf_ChunkDelete [OF use [OF 2(1)] used(2) [OF 2(2)] this] show ?thesis
      by (rule chunk_wf_cong) (use 2 pl(4,5) a in \<open>simp_all add: ChunkSet_def ChunkDelete_def\<close>)
  next
    case 3
    from chunk_wf_ChunkDelete [OF wf used(2,1) [OF 3(2)]] show ?thesis
      by (rule chunk_wf_cong) (use 3 pl(4) a in \<open>simp_all add: ChunkDelete_def\<close>)
  next
    case 4
    have "InUse ?x 0" using pl(7) 4(1) by (simp add: used_iff)
    from chunk_wf_replace [OF wf this _ Sign_nonzero, of "Hash key" undefined]
    have "chunk_wf (ChunkSet ?x 0 (Sign (Hash key)) undefined)" by simp
    then show ?thesis by (rule chunk_wf_cong) (use 4 a in \<open>simp_all add: ChunkSet_def\<close>)
  next
    case 5
    show ?thesis by (rule chunk_wf_cong [OF wf]) (use 5 a in simp_all)
  qed
qed

lemma u8_pred: "c \<noteq> (0 :: u8) \<Longrightarrow> unat (c - 1) = unat c - 1"
  by (simp add: unat_minus_one)

lemma after2_bound:
  assumes c2: "case2 h key s d v dv m" and p: "p < nchunks h"
  shows "overflow_bound (after2 h key s d v dv m) {} p"
proof -
  note D = case2D [OF c2]
  let ?o = "overflow_count (chunk_table h ! p)"
  let ?b = "p \<in> path (nchunks h) v ` {dv..<m}" and ?a = "p \<in> path (nchunks h) key ` {..<d}"
  define o1 where "o1 = (if ?b then (if ?o \<noteq> 255 then ?o + 1 else 255) else ?o)"
  have o2: "overflow_count (chunk_table (after2 h key s d v dv m) ! p) =
      (if ?a then (if o1 \<noteq> 255 then o1 - 1 else 255) else o1)"
    using after2_chunk(4) [OF c2 p] by (simp add: Let_def overflow_only o1_def)
  have ps: "?a \<Longrightarrow> card (passing h p) \<noteq> 0"
  proof -
    obtain k where k: "nchunks h = 2 ^ k" using pet_invpD(1) [OF D(1)] by (rule shapeE)
    assume ?a
    then have "s \<in> passing h p" using D(2,3) trail_path [OF k D(5), of key] D(6) by (auto simp: passing_def)
    then show ?thesis by auto
  qed
  have b: "?o = 255 \<or> card (passing h p) \<le> unat ?o"
    using pet_invpD(6) [OF D(1) p] by (simp add: overflow_bound_def)
  have "o1 = 255 \<or> card (passing h p) + of_bool ?b \<le> unat o1"
    using b u8_Suc [of ?o] by (auto simp: o1_def)
  moreover note after2_passing [OF c2, of p]
  moreover have "?a \<Longrightarrow> o1 \<noteq> 255 \<Longrightarrow> unat (o1 - 1) = unat o1 - 1"
    using calculation(1) ps by (intro u8_pred) auto
  ultimately show ?thesis unfolding overflow_bound_def o2 by (auto simp: of_bool_def split: if_splits)
qed

lemma inv_after2:
  assumes c2: "case2 h key s d v dv m"
  shows "pet_inv (after2 h key s d v dv m)"
proof -
  let ?A = "after2 h key s d v dv m"
  note D = case2D [OF c2]
  have "card (used ?A) = card (used h)" using origin_bij [OF c2] by (rule bij_betw_same_card)
  moreover have "tag_at ?A t = Sign (Hash (key_at ?A t))" if "t \<in> used ?A" for t
    using origin_entry [OF c2 that] by simp
  moreover have "shape ?A" using pet_invpD(1) [OF D(1)] by (simp add: shape_cong [of ?A h])
  ultimately show ?thesis
    using pet_invpD(5) [OF D(1)] after2_inj [OF c2] after2_wf [OF c2] after2_bound [OF c2]
    by (simp add: pet_invp_def all_chunks_iff)
qed

lemma settled_after2:
  assumes "case2 h key s d v dv m" and "settled h"
  shows "settled (after2 h key s d v dv m)"
  using after2_chunk(5) [OF assms(1)] assms(2) by (auto simp: settled_iff)

end
