(* ===== verification/Pet_Hot.thy ===== *)
theory Pet_Hot
  imports Pet_Migrated
begin

text \<open>
  What a migration does to the table: moving a hot key into its full home chunk (case 2)
  keeps every entry, while moving it into a free slot (case 1) lowers the wrong counter and
  can hide another key.
\<close>

section \<open>A run of case 2\<close>

abbreviation flagged :: "PetHash \<Rightarrow> u64 \<Rightarrow> nat \<Rightarrow> PetHash" where
  "flagged h key d \<equiv> upd_all (\<lambda>_ c. c\<lparr>is_migrating := True\<rparr>) (chain (nchunks h) key d) h"

lemma nth_flagged:
  assumes "case2 h key s d v dv m" and "q < nchunks h"
  shows "chunk_table (flagged h key d) ! q =
    (if q \<in> set (chain (nchunks h) key d) then (chunk_table h ! q)\<lparr>is_migrating := True\<rparr> else chunk_table h ! q)"
proof -
  note D = case2D [OF assms(1)]
  obtain k where k: "nchunks h = 2 ^ k" using pet_invpD(1) [OF D(1)] by (rule shapeE)
  show ?thesis using nth_upd_all [OF distinct_chain [OF k D(5)] assms(2)] by simp
qed

lemma flagged_same:
  assumes "case2 h key s d v dv m" and "q < nchunks h"
  shows "chunk_full (flagged h key d) q = chunk_full h q"
    "chunk_wf (chunk_table (flagged h key d) ! q)"
    "vals (chunk_table (flagged h key d) ! q) = vals (chunk_table h ! q)"
    "tags (chunk_table (flagged h key d) ! q) = tags (chunk_table h ! q)"
  using nth_flagged [OF assms] pet_invpD(2) [OF case2D(1) [OF assms(1)] assms(2)]
  by (auto simp: chunk_full_def intro: chunk_wf_cong)

lemma Full_flagged: "Full (flagged h key d) = Full h"
  by (simp add: Full_def)

text \<open>The table from which the last traversal starts.\<close>

definition swapped :: "PetHash \<Rightarrow> u64 \<Rightarrow> u64 \<Rightarrow> location \<Rightarrow> PetHash \<Rightarrow> PetHash" where
  "swapped h2 home key s h =
     upd_chunk (upd_chunk (upd_chunk h2 (unat home) IncOverflow) (unat home)
       (\<lambda>c. ChunkSet c 0 (Sign (Hash key)) \<lparr>first = key, second = val_at h s\<rparr>))
       (fst s) (\<lambda>c. ChunkDelete c (snd s))"

lemma swapped_fields [simp]:
  "nchunks (swapped h2 home key s h) = nchunks h2" "chunk_num (swapped h2 home key s h) = chunk_num h2"
  "capacity (swapped h2 home key s h) = capacity h2" "dict_size (swapped h2 home key s h) = dict_size h2"
  by (simp_all add: swapped_def)

lemma victim_placed_fields [simp]:
  "nchunks (victim_placed h v w ps c) = nchunks h" "chunk_num (victim_placed h v w ps c) = chunk_num h"
  "capacity (victim_placed h v w ps c) = capacity h" "dict_size (victim_placed h v w ps c) = dict_size h"
  by (simp_all add: victim_placed_def)

lemma PetHash_eqI:
  assumes "nchunks h = nchunks h'" "chunk_num h = chunk_num h'" "capacity h = capacity h'"
    "dict_size h = dict_size h'" "\<And>q. q < nchunks h \<Longrightarrow> chunk_table h ! q = chunk_table h' ! q"
  shows "h = (h' :: PetHash)"
  using assms by (intro PetHash.equality) (auto simp: nchunks_def intro: nth_equalityI)

lemma nth_upd_chunk_at:
  "q < nchunks h \<Longrightarrow>
   chunk_table (upd_chunk h c f) ! q = (if q = c then f (chunk_table h ! q) else chunk_table h ! q)"
  by (simp add: nth_upd_chunk)

lemma upd_chunk_twice: "upd_chunk (upd_chunk h c f) c g = upd_chunk h c (\<lambda>x. g (f x))"
  by (cases "c < length (chunk_table h)") (simp_all add: upd_chunk_def list_update_beyond)

lemma case2_final:
  assumes c2: "case2 h key s d v dv m" and home: "unat home = path (nchunks h) key 0"
    and w: "w = second (vals (chunk_table h ! path (nchunks h) key 0) ! 0)"
  shows "upd_all (\<lambda>q c. let c1 = c\<lparr>is_migrating := False\<rparr> in if q = fst s then c1 else DecOverflow c1)
     (chain (nchunks h) key d)
     (swapped (victim_placed (flagged h key d) v w (passed h v dv m) (path (nchunks h) v m)) home key s h) =
    after2 h key s d v dv m" (is "upd_all ?f ?ch ?h5 = ?A")
proof (rule PetHash_eqI)
  note D = case2D [OF c2] and pl = case2_places [OF c2]
  obtain k where k: "nchunks h = 2 ^ k" using pet_invpD(1) [OF D(1)] by (rule shapeE)
  have v: "v = first (vals (chunk_table h ! path (nchunks h) key 0) ! 0)" using D(9) by (simp add: key_at_def)
  fix q assume "q < nchunks (upd_all ?f ?ch ?h5)"
  then have q: "q < nchunks h" by simp
  have "chunk_table (upd_all ?f ?ch ?h5) ! q =
      (if q \<in> set ?ch then ?f q (chunk_table ?h5 ! q) else chunk_table ?h5 ! q)"
    by (rule nth_upd_all [OF distinct_chain [OF k D(5)]]) (use q in simp)
  moreover have "chunk_table ?h5 ! q = (let
      x1 = (if q \<in> set ?ch then (chunk_table h ! q)\<lparr>is_migrating := True\<rparr> else chunk_table h ! q);
      x2 = (if q \<in> set (passed h v dv m) then IncOverflow x1 else x1);
      x3 = (if q = path (nchunks h) v m then ChunkSet (x2\<lparr>ch_size := ch_size x2 + 1\<rparr>)
        (ctz (MatchTag x2 0)) (Sign (Hash v)) \<lparr>first = v, second = w\<rparr> else x2);
      x4 = (if q = unat home then ChunkSet (IncOverflow x3) 0 (Sign (Hash key))
        \<lparr>first = key, second = val_at h s\<rparr> else x3)
      in if q = fst s then ChunkDelete x4 (snd s) else x4)"
    using q by (simp only: swapped_def victim_placed_def upd_chunk_twice nth_upd_chunk_at upd_chunk_fields upd_all_fields
        nth_upd_all [OF pl(8)] nth_flagged [OF c2 q] Let_def)
  ultimately show "chunk_table (upd_all ?f ?ch ?h5) ! q = chunk_table ?A ! q"
    by (simp only: nth_moved [OF q] moved_chunk_def Let_def home v [symmetric] w [symmetric])
qed simp_all

lemma of_nat_chunk:
  assumes "pet_inv h" and "s \<in> used h"
  shows "unat (of_nat (fst s) :: u64) = fst s"
proof -
  have "nchunks h = unat (chunk_num h)" using chunk_num_nchunks [OF assms(1)] by simp
  moreover have "unat (chunk_num h) < 2 ^ 64" by (rule order_less_le_trans [OF unsigned_less]) simp
  ultimately have "nchunks h < 2 ^ 64" by simp
  then show ?thesis using assms(2) by (simp add: unat_of_nat used_iff)
qed

lemma migrate_case2_Returns:
  assumes c2: "case2 h key s d v dv m" and home: "unat home = path (nchunks h) key 0"
  shows "migrate_case2 home key (val_at h s) s (flagged h key d) = Returns (after2 h key s d v dv m)"
proof -
  note D = case2D [OF c2] and pl = case2_places [OF c2] and fl = flagged_same [OF c2]
  obtain k where k: "nchunks h = 2 ^ k" "unat (chunk_num h) = 2 ^ k"
    using pet_invpD(1) [OF D(1)] by (rule shapeE)
  let ?h1 = "flagged h key d" and ?w = "second (vals (chunk_table h ! path (nchunks h) key 0) ! 0)"
  let ?vs = "ProbeDelta (ucast (Sign (Hash v)))"
  have pn: "path (nchunks h) v j < nchunks h" for j using path_less k(1) by simp
  have v: "first (vals (chunk_table h ! path (nchunks h) key 0) ! 0) = v" using D(9) by (simp add: key_at_def)
  have "unat ((home + ?vs) AND (chunk_num h - 1)) = path (nchunks h) v (Suc dv)"
    using word_path_Suc [OF k(2)] home D(11) k(1) by simp
  moreover have "shape ?h1" using pet_invpD(1) [OF D(1)] by (simp add: shape_cong [of ?h1 h])
  moreover have "\<not> Full ?h1" using D(8) by (simp add: Full_flagged)
  ultimately have vl: "victim_loop (unat (chunk_num h)) home v ?w (Sign (Hash v)) ?vs
      ((home + ?vs) AND (chunk_num h - 1)) ?h1 =
      Returns (victim_placed ?h1 v ?w (passed h v dv m) (path (nchunks h) v m))"
    using victim_loop_placed [of ?h1 "(home + ?vs) AND (chunk_num h - 1)" v "Suc dv" m "unat (chunk_num h)" home ?w]
      fl(1,2) D(12-15) pl(5) k pn by (simp add: home)
  have use: "InUse (chunk_table ?h1 ! unat home) 0"
    using pl(1,7) fl(4) by (simp add: home InUse_def used_iff)
  let ?h5 = "swapped (victim_placed ?h1 v ?w (passed h v dv m) (path (nchunks h) v m)) home key s h"
  have sh: "shape ?h5" using pet_invpD(1) [OF D(1)] by (simp add: shape_cong [of ?h5 h])
  have cur: "unat (of_nat (fst s) :: u64) = path (nchunks ?h5) key d"
    using of_nat_chunk [OF D(1,2)] D(6) by simp
  let ?f = "\<lambda>q c. let c1 = c\<lparr>is_migrating := False\<rparr> in if q = fst s then c1 else DecOverflow c1"
  have "ChainTraverseReverse ?f home (ProbeDelta (ucast (Sign (Hash key)))) (of_nat (fst s)) ?h5 =
      Some (after2 h key s d v dv m)"
    using ChainTraverseReverse_chain [OF sh _ _ cur, of home ?f] home D(5) case2_final [OF c2 home refl]
    by (simp only: swapped_fields victim_placed_fields upd_all_fields)
  moreover have "vals (chunk_table ?h1 ! unat home) ! 0 = \<lparr>first = v, second = ?w\<rparr>"
    using fl(3) [OF pl(1)] v home by simp
  ultimately show ?thesis
    using use vl unfolding migrate_case2_def Let_def
    by (simp only: swapped_def run_check_True run_bind.simps run_of_option_def option.case upd_all_fields EntryT.simps)
qed

section \<open>The situation of case 2\<close>

lemma room_ex:
  assumes inv: "pet_inv h" and "\<not> Full h"
  obtains c where "c < nchunks h" "\<not> chunk_full h c"
proof -
  have False if full: "\<And>c. c < nchunks h \<Longrightarrow> chunk_full h c"
  proof -
    have "{..<nchunks h} \<times> {..<14} \<subseteq> used h" using chunk_full_iff [OF inv] full by auto
    then have "card ({..<nchunks h} \<times> {..<14 :: nat}) \<le> card (used h)" by (rule card_mono [OF finite_used])
    then show False using assms(2) Full_iff [OF inv] by (simp add: card_cartesian_product)
  qed
  then show thesis using that by blast
qed

lemma case2_ex:
  assumes inv: "pet_inv h" and s: "s \<in> used h" and away: "fst s \<noteq> path (nchunks h) (key_at h s) 0"
    and full: "chunk_full h (path (nchunks h) (key_at h s) 0)" and "\<not> Full h"
  obtains d v dv m where "case2 h (key_at h s) s d v dv m"
proof -
  let ?n = "nchunks h" and ?key = "key_at h s"
  let ?home = "path (nchunks h) ?key 0" and ?v = "key_at h (path (nchunks h) (key_at h s) 0, 0)"
  obtain k where k: "?n = 2 ^ k" using pet_invpD(1) [OF inv] by (rule shapeE)
  have hn: "?home < ?n" using path_less k by simp
  obtain d where d: "d < ?n" "path ?n ?key d = fst s" using depth_ex [OF inv s] .
  have d0: "0 < d" using d(2) away by (cases d) auto
  obtain dv where dv: "dv < ?n" "path ?n ?v dv = ?home" using path_covers [OF k hn] by blast
  obtain c where c: "c < ?n" "\<not> chunk_full h c" using room_ex [OF inv assms(5)] .
  obtain e where e: "e < ?n" "path ?n ?v e = c" using path_covers [OF k c(1)] by blast
  let ?P = "\<lambda>m. dv < m \<and> \<not> chunk_full h (path ?n ?v m)"
  let ?e = "if dv < e then e else e + ?n"
  have pe: "path ?n ?v ?e = c" using e path_mod [of ?n ?v "e + ?n"] by simp
  have "e \<noteq> dv" using e(2) dv(2) c(2) full by auto
  then have e': "?P ?e" "?e < dv + ?n" using pe c(2) dv(1) e(1) by auto
  define m where "m = (LEAST m. ?P m)"
  have m: "?P m" unfolding m_def by (rule LeastI [of ?P, OF e'(1)])
  have "m \<le> ?e" unfolding m_def by (rule Least_le [of ?P, OF e'(1)])
  then have "m < dv + ?n" using e'(2) by simp
  moreover have "chunk_full h (path ?n ?v j)" if "dv < j" "j < m" for j
    using not_less_Least [of j ?P] that unfolding m_def by blast
  ultimately have "case2 h ?key s d ?v dv m"
    unfolding case2_def using inv s d d0 full assms(5) dv m by auto
  then show thesis by (rule that)
qed

section \<open>Migration of a key\<close>

lemma home_Find:
  assumes inv: "pet_inv h" and s: "s \<in> used h"
  shows "Find (chunk_table h ! path (nchunks h) (key_at h s) 0) (key_at h s) (Sign (Hash (key_at h s))) \<noteq> -1
    \<longleftrightarrow> fst s = path (nchunks h) (key_at h s) 0"
proof -
  let ?p = "path (nchunks h) (key_at h s) 0" and ?g = "Sign (Hash (key_at h s))"
  let ?f = "find_match (chunk_table h ! ?p) (key_at h s) (MatchTag (chunk_table h ! ?p) ?g)"
  obtain k where k: "nchunks h = 2 ^ k" using pet_invpD(1) [OF inv] by (rule shapeE)
  have p: "?p < nchunks h" using path_less k by simp
  note len = chunk_wfD(1) [OF pet_invpD(2) [OF inv p]]
  have "Find (chunk_table h ! ?p) (key_at h s) ?g \<noteq> -1 \<longleftrightarrow> ?f \<noteq> None"
    by (auto simp: Find_def split: option.splits)
  also have "\<dots> \<longleftrightarrow> fst s = ?p"
  proof
    assume "?f \<noteq> None"
    then obtain i where i: "?f = Some i" by blast
    note f = find_match_SomeD [OF len i]
    have "(?p, i) \<in> used h" using f p Sign_nonzero [of "Hash (key_at h s)"] by (simp add: used_iff InUse_def)
    moreover have "key_at h (?p, i) = key_at h s" using f by (simp add: key_at_def)
    ultimately have "(?p, i) = s" using pet_invpD(4) [OF inv] s by (meson inj_onD)
    then show "fst s = ?p" by (metis fst_conv)
  next
    assume e: "fst s = ?p"
    have "tag_at h s = ?g" "snd s < 14" using pet_invpD(3) [OF inv s] s by (auto simp: used_iff)
    moreover have "tag_at h s = tags (chunk_table h ! ?p) ! snd s"
        "key_at h s = first (vals (chunk_table h ! ?p) ! snd s)"
      unfolding e [symmetric] by (simp_all only: tag_at_def key_at_def)
    ultimately show "?f \<noteq> None" using find_match_NoneD [OF len, of _ ?g "snd s"] by metis
  qed
  finally show ?thesis .
qed

lemma GetInternal_flags:
  assumes inv: "pet_inv h" and s: "s \<in> used h" and d: "d < nchunks h" "path (nchunks h) (key_at h s) d = fst s"
    and away: "fst s \<noteq> path (nchunks h) (key_at h s) 0"
  shows "migrate_key h (key_at h s) =
    (let home = HomeChunk h (key_at h s); h1 = flagged h (key_at h s) d
     in if unat (ch_size (chunk_table h1 ! unat home)) \<noteq> kChunkSize
        then migrate_case1 home (key_at h s) (val_at h s) s h1
        else migrate_case2 home (key_at h s) (val_at h s) s h1)"
proof -
  note home = HomeChunk_path [OF inv, of "key_at h s"]
  have "unat (of_nat (fst s) :: u64) = path (nchunks h) (key_at h s) d"
    using of_nat_chunk [OF inv s] d(2) by simp
  from ChainTraverseReverse_chain [OF pet_invpD(1) [OF inv] home d(1) this] show ?thesis
    using home_Find [OF inv s] away GetInternal_hit [OF inv s]
    by (simp add: migrate_key_def Let_def home)
qed

lemma migrate_key_away:
  assumes inv: "pet_inv h" and s: "s \<in> used h" and away: "fst s \<noteq> path (nchunks h) (key_at h s) 0"
    and full: "chunk_full h (path (nchunks h) (key_at h s) 0)" and "\<not> Full h"
  obtains d v dv m where "case2 h (key_at h s) s d v dv m"
    "migrate_key h (key_at h s) = Returns (after2 h (key_at h s) s d v dv m)"
proof -
  obtain d v dv m where c2: "case2 h (key_at h s) s d v dv m" using case2_ex [OF assms] .
  note D = case2D [OF c2] and home = HomeChunk_path [OF inv, of "key_at h s"] and pl = case2_places [OF c2]
  have "unat (ch_size (chunk_table (flagged h (key_at h s) d) ! path (nchunks h) (key_at h s) 0)) = 14"
    using flagged_same(1,2) [OF c2 pl(1)] full chunk_wfD(3) by (fastforce simp: chunk_full_def)
  then have "migrate_key h (key_at h s) = Returns (after2 h (key_at h s) s d v dv m)"
    using GetInternal_flags [OF inv s D(5,6) away] migrate_case2_Returns [OF c2 home]
    by (simp add: Let_def home kChunkSize_def kMaxSize_def)
  then show thesis by (rule that [OF c2])
qed

end
