(* ===== verification/Pet_Hotness.thy ===== *)
theory Pet_Hotness
  imports Pet_Hot
begin

text \<open>
  The properties of hotness-aware migration, on tables of two chunks for the concrete runs:
  what a migration with a victim keeps, the key that a migration into a free slot hides, and
  the lookups that wait for a migration.
\<close>

section \<open>Tables of two chunks\<close>

definition key_chunk :: "u64 list \<Rightarrow> nat \<Rightarrow> F14Chunk" where
  "key_chunk ks n = \<lparr>tags = map (\<lambda>k. Sign (Hash k)) ks @ replicate (14 - length ks) 0,
     ch_size = of_nat (length ks), overflow_count = of_nat n, is_migrating = False,
     vals = map (\<lambda>k. \<lparr>first = k, second = k\<rparr>) ks @ replicate (14 - length ks) \<lparr>first = -1, second = 0\<rparr>\<rparr>"

definition two_table :: "u64 list \<Rightarrow> u64 list \<Rightarrow> PetHash" where
  "two_table ks ls = \<lparr>capacity = 28, chunk_num = 2, dict_size = of_nat (length ks + length ls),
     chunk_table = [key_chunk ks (length ls), key_chunk ls (length ks)]\<rparr>"

abbreviation "two_ok ks ls \<equiv> length ks \<le> 14 \<and> length ls \<le> 14 \<and> distinct (ks @ ls)"

lemma key_chunk_fields:
  assumes "length ks \<le> 14"
  shows "chunk_wf (key_chunk ks n)" "i < 14 \<Longrightarrow> tags (key_chunk ks n) ! i \<noteq> 0 \<longleftrightarrow> i < length ks"
    "i < length ks \<Longrightarrow> tags (key_chunk ks n) ! i = Sign (Hash (ks ! i))"
    "i < length ks \<Longrightarrow> vals (key_chunk ks n) ! i = \<lparr>first = ks ! i, second = ks ! i\<rparr>"
proof -
  have "unat (of_nat (length ks) :: u8) = length ks" using assms by (simp add: unat_of_nat)
  then show "chunk_wf (key_chunk ks n)"
    using assms by (simp add: chunk_wf_def key_chunk_def kMaxSize_def filter_map comp_def Sign_nonzero)
  show "i < 14 \<Longrightarrow> tags (key_chunk ks n) ! i \<noteq> 0 \<longleftrightarrow> i < length ks"
    by (simp add: key_chunk_def nth_append Sign_nonzero)
  show "i < length ks \<Longrightarrow> tags (key_chunk ks n) ! i = Sign (Hash (ks ! i))"
    "i < length ks \<Longrightarrow> vals (key_chunk ks n) ! i = \<lparr>first = ks ! i, second = ks ! i\<rparr>"
    by (simp_all add: key_chunk_def nth_append)
qed

lemma two_table_fields [simp]: "nchunks (two_table ks ls) = 2" "settled (two_table ks ls)"
  by (simp_all add: two_table_def nchunks_def settled_def key_chunk_def)

lemma two_table_chunk:
  "chunk_table (two_table ks ls) ! 0 = key_chunk ks (length ls)"
  "chunk_table (two_table ks ls) ! Suc 0 = key_chunk ls (length ks)"
  by (simp_all add: two_table_def)

lemma two_table_used:
  assumes "two_ok ks ls"
  shows "used (two_table ks ls) = {0} \<times> {..<length ks} \<union> {Suc 0} \<times> {..<length ls}"
  using assms key_chunk_fields(2) [of ks _ "length ls"] key_chunk_fields(2) [of ls _ "length ks"]
  by (auto simp: used_iff InUse_def two_table_chunk less_2_cases_iff)

lemma two_table_entry:
  assumes "two_ok ks ls"
  shows "i < length ks \<Longrightarrow> key_at (two_table ks ls) (0, i) = ks ! i"
    "i < length ks \<Longrightarrow> val_at (two_table ks ls) (0, i) = ks ! i"
    "i < length ls \<Longrightarrow> key_at (two_table ks ls) (Suc 0, i) = ls ! i"
    "i < length ls \<Longrightarrow> val_at (two_table ks ls) (Suc 0, i) = ls ! i"
  using assms by (simp_all add: key_at_def val_at_def two_table_chunk key_chunk_fields)

lemma two_table_inv:
  assumes ok: "two_ok ks ls"
  shows "pet_inv (two_table ks ls)"
proof -
  let ?h = "two_table ks ls"
  note u = two_table_used [OF ok] and e = two_table_entry [OF ok]
  have c: "card (used ?h) = length ks + length ls"
    unfolding u by (subst card_Un_disjoint) (auto simp: card_cartesian_product)
  have "tag_at ?h s = Sign (Hash (key_at ?h s))" if "s \<in> used ?h" for s
    using that ok unfolding u by (auto simp: e tag_at_def two_table_chunk key_chunk_fields)
  moreover have "inj_on (key_at ?h) (used ?h)"
  proof -
    have "ks ! i \<noteq> ls ! j" "ls ! j \<noteq> ks ! i" if "i < length ks" "j < length ls" for i j
      using that ok by (metis distinct_append disjoint_iff nth_mem)+
    then show ?thesis using ok unfolding u by (auto simp: inj_on_def e nth_eq_iff_index_eq)
  qed
  moreover have "overflow_bound ?h {} p" if "p < 2" for p
  proof -
    define q where "q = Suc 0 - p"
    have "s \<in> {q} \<times> {..<length (if q = 0 then ks else ls)}" if "s \<in> passing ?h p" for s
    proof -
      have "p \<in> set (trail 2 (key_at ?h s) (fst s))" "s \<in> used ?h" using that by (auto simp: passing_def)
      moreover have "fst s \<notin> set (trail 2 (key_at ?h s) (fst s))"
        unfolding trail_def using set_takeWhileD by fastforce
      ultimately show ?thesis using \<open>p < 2\<close> unfolding u q_def by (auto simp: less_2_cases_iff)
    qed
    then have "card (passing ?h p) \<le> card ({q} \<times> {..<length (if q = 0 then ks else ls)})"
      by (intro card_mono) auto
    moreover have "unat (overflow_count (chunk_table ?h ! p)) = length (if q = 0 then ks else ls)"
      using \<open>p < 2\<close> ok by (auto simp: less_2_cases_iff two_table_chunk key_chunk_def q_def unat_of_nat)
    ultimately show ?thesis by (simp add: overflow_bound_def card_cartesian_product)
  qed
  moreover have "shape ?h" by (auto simp: shape_def two_table_def nchunks_def intro: bexI [of _ 1])
  moreover have "unat (dict_size ?h) = length ks + length ls"
    using ok by (simp add: two_table_def unat_of_nat flip: of_nat_add)
  moreover have "chunk_wf (chunk_table ?h ! q)" if "q < 2" for q
    using that ok by (auto simp: less_2_cases_iff two_table_chunk key_chunk_fields)
  ultimately show ?thesis using c by (simp add: pet_invp_def all_chunks_iff)
qed

section \<open>Properties\<close>

lemma migrate_key_home:
  assumes "pet_inv h" and "s \<in> used h" and "fst s = path (nchunks h) (key_at h s) 0"
  shows "migrate_key h (key_at h s) = Returns h"
  using home_Find [OF assms(1,2)] HomeChunk_path [OF assms(1)] assms(3) by (simp add: migrate_key_def Let_def)

lemma after2_home:
  assumes c2: "case2 h key s d v dv m"
  shows "(path (nchunks h) key 0, 0) \<in> used (after2 h key s d v dv m)"
    "key_at (after2 h key s d v dv m) (path (nchunks h) key 0, 0) = key"
  using after2_entries [OF c2] by auto

text \<open>
  (C12) Migrating a stored key into its full home chunk returns and keeps the invariant and every
  binding; afterwards the key is found in its home chunk. A key that is already there is left
  alone. The table must have room for the evicted entry.
\<close>

theorem migrate_key_correct:
  assumes "pet_inv h" and "settled h" and "key \<in> dom (abs_map h)" and "\<not> Full h"
    and "chunk_full h (unat (HomeChunk h key))"
  shows "\<exists>h'. migrate_key h key = Returns h' \<and> pet_inv h' \<and> settled h' \<and> abs_map h' = abs_map h \<and>
    Find (chunk_table h' ! unat (HomeChunk h' key)) key (Sign (Hash key)) \<noteq> -1"
proof -
  obtain s where s: "s \<in> used h" and k: "key = key_at h s" using assms(3) by (auto simp: dom_abs_map)
  note home = HomeChunk_path [OF assms(1), of key]
  show ?thesis
  proof (cases "fst s = path (nchunks h) key 0")
    case True
    then show ?thesis
      using migrate_key_home [OF assms(1) s] home_Find [OF assms(1) s] home assms(1,2) k by auto
  next
    case False
    obtain d v dv m where c2: "case2 h key s d v dv m" "migrate_key h key = Returns (after2 h key s d v dv m)"
      using migrate_key_away [OF assms(1) s] False assms(4,5) home k by metis
    let ?A = "after2 h key s d v dv m"
    note inv = inv_after2 [OF c2(1)] and a = after2_home [OF c2(1)]
    have "Find (chunk_table ?A ! unat (HomeChunk ?A key)) key (Sign (Hash key)) \<noteq> -1"
      using home_Find [OF inv a(1)] HomeChunk_path [OF inv, of key] a(2) by simp
    then show ?thesis
      using c2(2) inv settled_after2 [OF c2(1) assms(2)] abs_after2 [OF c2(1)] by blast
  qed
qed

definition evens :: "u64 list" where
  "evens = [2, 4, 6, 8, 10, 12, 14, 16, 18, 20, 22, 24, 26, 28]"

lemma two_ok_evens: "two_ok evens [30]"
  by (simp add: evens_def)

theorem migrate_key_correct_witness:
  "\<exists>h'. migrate_key (two_table evens [30]) 30 = Returns h' \<and> pet_inv h' \<and>
     abs_map h' = abs_map (two_table evens [30])"
proof -
  let ?h = "two_table evens [30]"
  note i = two_table_inv [OF two_ok_evens] and e = two_table_entry [OF two_ok_evens]
  have "(Suc 0, 0) \<in> used ?h" by (simp add: two_table_used [OF two_ok_evens])
  then have "30 \<in> dom (abs_map ?h)" using e(3) [of 0] by (auto simp: dom_abs_map intro: rev_image_eqI)
  moreover have "unat (HomeChunk ?h 30) = 0" by (simp add: HomeChunk_def Hash_def two_table_def)
  then have "chunk_full ?h (unat (HomeChunk ?h 30))"
    by (simp add: chunk_full_def two_table_chunk key_chunk_def evens_def)
  moreover have "\<not> Full ?h" by (simp add: Full_def two_table_def kMaxLoadFactor_def evens_def)
  ultimately show ?thesis using migrate_key_correct [of ?h 30] i by fastforce
qed

text \<open>The table in which a migration hides a key, and the run that does it.\<close>

lemma lost_table:
  "pet_inv (two_table [1] [2])" "settled (two_table [1] [2])" "abs_map (two_table [1] [2]) 1 = Some 1"
  "(Suc 0, 0) \<in> used (two_table [1] [2])" "key_at (two_table [1] [2]) (Suc 0, 0) = 2"
proof -
  have ok: "two_ok [1 :: u64] [2]" by simp
  note e = two_table_entry [OF ok]
  show i: "pet_inv (two_table [1] [2])" using two_table_inv [OF ok] .
  show "settled (two_table [1] [2])" by simp
  have "(0, 0) \<in> used (two_table [1] [2])" by (simp add: two_table_used [OF ok])
  from abs_map_SomeI [OF pet_invpD(4) [OF i] this] show "abs_map (two_table [1] [2]) 1 = Some 1"
    using e(1,2) [of 0] by simp
  show "(Suc 0, 0) \<in> used (two_table [1] [2])" by (simp add: two_table_used [OF ok])
  show "key_at (two_table [1] [2]) (Suc 0, 0) = 2" using e(3) [of 0] by simp
qed

definition hides_key :: "PetHash \<Rightarrow> u64 \<Rightarrow> bool" where
  "hides_key h key \<longleftrightarrow> chunk_num h = 2 \<and> (let c = chunk_table h ! unat (HomeChunk h key) in
     tags c = replicate 14 0 \<and> overflow_count c = 0 \<and> \<not> is_migrating c)"

lemma PetHash_Get_hidden:
  assumes "hides_key h key"
  shows "PetHash_Get h key = Returns None"
proof -
  let ?c = "chunk_table h ! unat (HomeChunk h key)"
  have h: "chunk_num h = 2" "tags ?c = replicate 14 0" "overflow_count ?c = 0" "\<not> is_migrating ?c"
    using assms by (auto simp: hides_key_def Let_def)
  have "find_match ?c key (MatchTag ?c (Sign (Hash key))) = None"
    using find_match_SomeD(1,2) [of ?c key "Sign (Hash key)"] h(2) Sign_nonzero [of "Hash key"]
    by (cases "find_match ?c key (MatchTag ?c (Sign (Hash key)))") auto
  moreover have u: "unat (chunk_num h) = Suc (Suc 0)" using h(1) by simp
  ultimately have "get_pass h key = (None, False)"
    unfolding get_pass_def Let_def u get_loop.simps using h by (simp add: HomeChunk_def)
  then show ?thesis by (simp add: PetHash_Get_def GetInternal.simps [of h key])
qed

lemma lost_run: "\<exists>h'. migrate_key (two_table [1] [2]) 2 = Returns h' \<and> hides_key h' 1"
proof -
  let ?h = "two_table [1] [2]" and ?f = "\<lambda>(_ :: nat) c. c\<lparr>is_migrating := False\<rparr>"
  note i = lost_table(1) and s = lost_table(4) and k = lost_table(5)
  have p0: "path 2 2 0 = 0" by (simp add: path_def Hash_def)
  obtain d where d: "d < 2" "path 2 2 d = 1" using depth_ex [OF i s] k by auto
  then have d1: "d = 1" using p0 by (cases d) auto
  have ch: "chain 2 2 (Suc 0) = [1, 0]" using p0 d(2) d1 by (simp add: chain_def)
  have home: "HomeChunk ?h 2 = 0" "unat (HomeChunk ?h 1) = 1"
    by (simp_all add: HomeChunk_def Hash_def two_table_def)
  let ?v = "val_at ?h (Suc 0, 0)"
  define F where "F = flagged ?h 2 1"
  have n: "distinct (chain (nchunks ?h) 2 1)" by (simp add: ch)
  have fl: "chunk_table F ! 0 = (key_chunk [1] 1)\<lparr>is_migrating := True\<rparr>"
      "chunk_table F ! Suc 0 = (key_chunk [2] 1)\<lparr>is_migrating := True\<rparr>"
    using nth_upd_all [OF n, of _ ?h "\<lambda>_ c. c\<lparr>is_migrating := True\<rparr>"] by (simp_all add: F_def ch two_table_chunk)
  have n2: "nchunks F = 2" "chunk_num F = 2" by (simp_all add: F_def) (simp add: two_table_def)
  have "migrate_key ?h 2 = migrate_case1 0 2 ?v (Suc 0, 0) F"
    using GetInternal_flags [OF i s, of 1] k d p0 d1 fl(1)
    by (simp add: home Let_def kChunkSize_def kMaxSize_def key_chunk_def F_def)
  moreover have wf: "chunk_wf (chunk_table F ! 0)"
    by (rule chunk_wf_cong [OF key_chunk_fields(1) [of "[1]" 1]]) (simp_all add: fl)
  moreover have sz: "unat (ch_size (chunk_table F ! 0)) < 14" by (simp add: fl key_chunk_def)
  moreover obtain x where x: "ChunkInsert (chunk_table F ! 0) 2 ?v (Sign (Hash 2)) = Returns x"
    using ChunkInsert_Returns [OF wf sz Sign_nonzero] by blast
  let ?h4 = "upd_chunk (upd_chunk (upd_chunk F 0 (\<lambda>_. fst x)) (Suc 0) (\<lambda>c. ChunkDelete c 0)) (Suc 0) DecOverflow"
  have "shape ?h4 = shape ?h" by (rule shape_cong) (simp_all add: F_def)
  then have sh: "shape ?h4" using pet_invpD(1) [OF i] by blast
  have "ChainTraverseReverse ?f 0 (ProbeDelta (ucast (Sign (Hash 2)))) 1 ?h4 = Some (upd_all ?f [1, 0] ?h4)"
    using ChainTraverseReverse_chain [OF sh, of 0 2 1 1 ?f] p0 d(2) d1 ch by (simp add: F_def)
  ultimately have run: "migrate_key ?h 2 = Returns (upd_all ?f [1, 0] ?h4)"
    using x by (simp add: migrate_case1_def Let_def run_of_option_def split: prod.splits)
  have "chunk_table (upd_all ?f [1, 0] ?h4) ! Suc 0 =
      (DecOverflow (ChunkDelete ((key_chunk [2] 1)\<lparr>is_migrating := True\<rparr>) 0))\<lparr>is_migrating := False\<rparr>"
    using nth_upd_all [of "[1, 0]" "Suc 0" ?h4 ?f] by (simp add: nth_upd_chunk fl(2) n2)
  moreover have "replicate 14 (0 :: u8) = 0 # replicate 13 0" by (simp add: eval_nat_numeral)
  ultimately have "hides_key (upd_all ?f [1, 0] ?h4) 1"
    by (simp add: hides_key_def Let_def HomeChunk_def Hash_def n2)
      (simp add: key_chunk_def DecOverflow_def ChunkDelete_def)
  then show ?thesis using run by blast
qed

text \<open>
  (C13) Moving a hot key into a free slot of its home chunk can hide another key. The counter of the
  chunk the key came from is lowered, instead of the counters of the chunks it had passed; in
  a table with key 1 in the chunk that key 2 calls home and key 2 in the chunk that key 1 calls
  home, migrating key 2 makes key 1 unreachable although it is still stored.
\<close>

theorem HotnessAwareMigration_loses_key:
  "\<exists>h'. pet_inv (two_table [1] [2]) \<and> settled (two_table [1] [2]) \<and>
     PetHash_Get (two_table [1] [2]) 1 = Returns (Some 1) \<and>
     HotnessAwareMigration [2] (two_table [1] [2]) = Returns h' \<and>
     PetHash_Get h' 1 = Returns None"
proof -
  let ?h = "two_table [1] [2]"
  obtain h' where h': "migrate_key ?h 2 = Returns h'" "hides_key h' 1" using lost_run by blast
  show ?thesis
    using lost_table(1,2) h'(1) PetHash_Get_stored [OF lost_table(1,3)] PetHash_Get_hidden [OF h'(2)]
    by auto
qed

abbreviation mark :: "PetHash \<Rightarrow> nat \<Rightarrow> PetHash" where
  "mark h p \<equiv> upd_chunk h p (\<lambda>c. c\<lparr>is_migrating := True\<rparr>)"

lemma mark_entries:
  shows "used (mark h p) = used h"
    and "t \<in> used h \<Longrightarrow> key_at (mark h p) t = key_at h t"
    and "t \<in> used h \<Longrightarrow> tag_at (mark h p) t = tag_at h t"
  by (auto simp: used_iff InUse_def key_at_def tag_at_def nth_upd_chunk split: if_splits)

lemma inv_mark:
  assumes inv: "pet_inv h"
  shows "pet_inv (mark h p)"
proof -
  note e = mark_entries [where h = h and p = p]
  have pas: "passing (mark h p) q = passing h q" for q using e by (auto simp: passing_def)
  have "overflow_bound (mark h p) {} q" if "q < nchunks h" for q
    using pet_invpD(6) [OF inv that] that by (auto simp: overflow_bound_def pas nth_upd_chunk)
  moreover have "inj_on (key_at (mark h p)) (used h)" using pet_invpD(4) [OF inv] e(2) by (simp add: inj_on_def)
  moreover have "chunk_wf (chunk_table (mark h p) ! q)" if "q < nchunks h" for q
    using pet_invpD(2) [OF inv that] that by (auto simp: nth_upd_chunk chunk_wf_def)
  ultimately show ?thesis
    using pet_invpD(1,3,5) [OF inv] e by (simp add: pet_invp_def all_chunks_iff shape_cong [of "mark h p" h])
qed

text \<open>
  (C14) A lookup of a key that is not stored never returns while its home chunk is marked as being
  migrated: \<open>GetInternal\<close> starts over whenever it has touched such a chunk, and only the
  migration thread clears the mark.
\<close>

theorem PetHash_Get_waits_for_migration:
  assumes "pet_inv h" and "key \<notin> dom (abs_map h)" and "is_migrating (chunk_table h ! unat (HomeChunk h key))"
  shows "PetHash_Get h key = Diverges"
proof -
  have "abs_map h key = None" using assms(2) by auto
  then show ?thesis using GetInternal_spins [OF get_pass_touch [OF assms(1) _ assms(3)]]
    by (simp add: PetHash_Get_def)
qed

theorem PetHash_Get_waits_for_migration_witness:
  "PetHash_Get (mark (two_table evens [30]) 0) 1000 = Diverges"
proof -
  let ?t = "two_table evens [30]"
  let ?h = "mark ?t 0"
  note u = two_table_used [OF two_ok_evens] and e = two_table_entry [OF two_ok_evens]
  have "evens ! i \<noteq> 1000" if "i < length evens" for i
    using nth_mem [OF that] by (auto simp: evens_def)
  then have "key_at ?h t \<noteq> 1000" if "t \<in> used ?t" for t
    using that mark_entries(2) [OF that] u by (auto simp: e)
  then have "1000 \<notin> dom (abs_map ?h)" by (auto simp: dom_abs_map mark_entries(1))
  moreover have "is_migrating (chunk_table ?h ! unat (HomeChunk ?h 1000))"
    by (simp add: HomeChunk_def Hash_def two_table_def upd_chunk_def)
  ultimately show ?thesis
    using PetHash_Get_waits_for_migration [OF inv_mark [OF two_table_inv [OF two_ok_evens]]] by blast
qed

end
