(* ===== verification/Base_BitMap.thy ===== *)
theory Base_BitMap
  imports Pet_Prelude
begin

text \<open>
  The bitmap that marks the used entries of a memory chunk (\<open>src/src/base/bitmap.h\<close>) and the
  contract of an allocator of slots that the memory pool relies on. The number of bits and the
  positions are \<open>int\<close> in the code and never negative here.
\<close>

section \<open>Definitions\<close>

record BitMap =
  bm_n :: nat
  bits :: "u64 list"

text \<open>An \<open>int\<close>, padded to the alignment of the words that follow it.\<close>

definition sizeof_BitMap :: nat where
  "sizeof_BitMap = 8"

definition BitMap_MemorySize :: "nat \<Rightarrow> nat run" where
  "BitMap_MemorySize n =
     run_bind (run_check (n mod 64 = 0) ''n % 64 == 0'') (\<lambda>_.
       Returns (sizeof_BitMap + n div 64 * 8))"

text \<open>The constructor; the memory it is built in does not matter, every word is cleared.\<close>

definition BitMap_new :: "nat \<Rightarrow> BitMap run" where
  "BitMap_new n =
     run_bind (run_check (n mod 64 = 0) ''n % 64 == 0'') (\<lambda>_.
       Returns \<lparr>bm_n = n, bits = replicate (n div 64) 0\<rparr>)"

definition BitMap_Get :: "BitMap \<Rightarrow> nat \<Rightarrow> bool" where
  "BitMap_Get b pos = (drop_bit (pos mod 64) (bits b ! (pos div 64)) AND 1 \<noteq> 0)"

definition BitMap_Set :: "BitMap \<Rightarrow> nat \<Rightarrow> BitMap" where
  "BitMap_Set b pos =
     b\<lparr>bits := (bits b)[pos div 64 := (bits b ! (pos div 64)) OR push_bit (pos mod 64) 1]\<rparr>"

definition NumberOfOnes :: "BitMap \<Rightarrow> nat" where
  "NumberOfOnes b = fold (\<lambda>i ret. if BitMap_Get b i then ret + 1 else ret) [0..<bm_n b] 0"

definition BitMap_ClearAll :: "BitMap \<Rightarrow> BitMap" where
  "BitMap_ClearAll b = b\<lparr>bits := replicate (bm_n b div 64) 0\<rparr>"

definition BitMap_Clear :: "BitMap \<Rightarrow> nat \<Rightarrow> BitMap" where
  "BitMap_Clear b pos =
     b\<lparr>bits := (bits b)[pos div 64 := (bits b ! (pos div 64)) AND NOT (push_bit (pos mod 64) 1)]\<rparr>"

text \<open>
  The loop over the words that \<open>FirstZeroPos\<close> and \<open>SetZeroPos\<close> share: the first word with a
  clear bit, and its lowest clear bit.
\<close>

fun zero_scan :: "u64 list \<Rightarrow> nat \<Rightarrow> (nat \<times> nat) option" where
  "zero_scan [] i = None"
| "zero_scan (v # vs) i = (let b = NOT v in if b \<noteq> 0 then Some (i, ctz b) else zero_scan vs (i + 1))"

definition FirstZeroPos :: "BitMap \<Rightarrow> int" where
  "FirstZeroPos b =
     (case zero_scan (take (bm_n b div 64) (bits b)) 0 of
        None \<Rightarrow> -1 | Some (i, pos) \<Rightarrow> int (i * 64 + pos))"

definition SetZeroPos :: "BitMap \<Rightarrow> int \<times> BitMap" where
  "SetZeroPos b =
     (case zero_scan (take (bm_n b div 64) (bits b)) 0 of
        None \<Rightarrow> (-1, b)
      | Some (i, pos) \<Rightarrow>
          (int (i * 64 + pos), b\<lparr>bits := (bits b)[i := (bits b ! i) OR push_bit pos 1]\<rparr>))"

section \<open>The set of ones\<close>

definition bitmap_wf :: "BitMap \<Rightarrow> bool" where
  "bitmap_wf b \<longleftrightarrow> bm_n b mod 64 = 0 \<and> length (bits b) = bm_n b div 64"

definition ones :: "BitMap \<Rightarrow> nat set" where
  "ones b = {i. i < bm_n b \<and> BitMap_Get b i}"

lemma BitMap_Get_bit: "BitMap_Get b pos = bit (bits b ! (pos div 64)) (pos mod 64)"
proof -
  have "(drop_bit (pos mod 64) (bits b ! (pos div 64)) AND 1 \<noteq> 0) =
      odd (drop_bit (pos mod 64) (bits b ! (pos div 64)))"
    by (simp add: and_one_eq odd_iff_mod_2_eq_one)
  then show ?thesis by (simp add: BitMap_Get_def bit_iff_odd_drop_bit)
qed

lemma bitmap_wf_new: "BitMap_new n = Returns b \<Longrightarrow> bitmap_wf b \<and> bm_n b = n \<and> ones b = {}"
  by (auto simp: BitMap_new_def bitmap_wf_def ones_def BitMap_Get_bit run_simps)

lemma word_index: "bitmap_wf b \<Longrightarrow> pos < bm_n b \<Longrightarrow> pos div 64 < length (bits b)"
  by (auto simp: bitmap_wf_def div_less_iff_less_mult elim!: dvdE simp flip: dvd_eq_mod_eq_0)

lemma bitmap_wf_update:
  "bitmap_wf b \<Longrightarrow> bitmap_wf (BitMap_Set b pos)" "bitmap_wf b \<Longrightarrow> bitmap_wf (BitMap_Clear b pos)"
  "bitmap_wf b \<Longrightarrow> bitmap_wf (BitMap_ClearAll b)"
  "bm_n (BitMap_Set b pos) = bm_n b" "bm_n (BitMap_Clear b pos) = bm_n b" "bm_n (BitMap_ClearAll b) = bm_n b"
  by (simp_all add: bitmap_wf_def BitMap_Set_def BitMap_Clear_def BitMap_ClearAll_def)

lemma same_position: "i div 64 = pos div 64 \<Longrightarrow> i mod 64 = pos mod 64 \<Longrightarrow> i = (pos :: nat)"
  by (metis div_mult_mod_eq)

lemma BitMap_Get_Set:
  assumes "bitmap_wf b" and "pos < bm_n b" and "i < bm_n b"
  shows "BitMap_Get (BitMap_Set b pos) i \<longleftrightarrow> i = pos \<or> BitMap_Get b i"
  using word_index [OF assms(1,2)] same_position [of i pos]
  by (auto simp: BitMap_Get_bit BitMap_Set_def nth_list_update bit_simps)

lemma BitMap_Get_Clear:
  assumes "bitmap_wf b" and "pos < bm_n b" and "i < bm_n b"
  shows "BitMap_Get (BitMap_Clear b pos) i \<longleftrightarrow> i \<noteq> pos \<and> BitMap_Get b i"
  using word_index [OF assms(1,2)] same_position [of i pos]
  by (auto simp: BitMap_Get_bit BitMap_Clear_def nth_list_update bit_simps)

lemma ones_Set: "bitmap_wf b \<Longrightarrow> pos < bm_n b \<Longrightarrow> ones (BitMap_Set b pos) = insert pos (ones b)"
  by (auto simp: ones_def BitMap_Get_Set bitmap_wf_update)

lemma ones_Clear: "bitmap_wf b \<Longrightarrow> pos < bm_n b \<Longrightarrow> ones (BitMap_Clear b pos) = ones b - {pos}"
  by (auto simp: ones_def BitMap_Get_Clear bitmap_wf_update)

lemma ones_ClearAll: "bitmap_wf b \<Longrightarrow> ones (BitMap_ClearAll b) = {}"
  using word_index [of b] by (auto simp: ones_def BitMap_ClearAll_def BitMap_Get_bit bitmap_wf_def)

lemma finite_ones [simp]: "finite (ones b)"
  by (simp add: ones_def)

lemma NumberOfOnes_card: "NumberOfOnes b = card (ones b)"
proof -
  have "fold (\<lambda>i ret. if P i then ret + 1 else ret) xs a = a + length (filter P xs)" for P and xs :: "nat list" and a :: nat
    by (induction xs arbitrary: a) auto
  then have "NumberOfOnes b = length (filter (BitMap_Get b) [0..<bm_n b])" by (simp add: NumberOfOnes_def)
  also have "\<dots> = card (set (filter (BitMap_Get b) [0..<bm_n b]))" by (metis distinct_card distinct_filter distinct_upt)
  also have "set (filter (BitMap_Get b) [0..<bm_n b]) = ones b" by (auto simp: ones_def)
  finally show ?thesis .
qed

section \<open>The first zero\<close>

lemma zero_scan_None: "zero_scan vs i = None \<longleftrightarrow> (\<forall>v \<in> set vs. NOT v = 0)"
  by (induction vs i rule: zero_scan.induct) (auto simp: Let_def)

lemma zero_scan_Some:
  assumes "zero_scan vs i = Some (k, pos)"
  shows "i \<le> k" "k - i < length vs" "pos < 64" "\<not> bit (vs ! (k - i)) pos"
    "\<And>p. p < pos \<Longrightarrow> bit (vs ! (k - i)) p" "\<And>j. j < k - i \<Longrightarrow> NOT (vs ! j) = 0"
  using assms
proof (induction vs i rule: zero_scan.induct)
  case (2 v vs i)
  {
    case 1
    then show ?case using 2(1) by (auto simp: Let_def split: if_splits)
  next
    case 2
    then show ?case using "2.IH"(1,2) by (fastforce simp: Let_def split: if_splits)
  next
    case 3
    then show ?case using "2.IH"(3) ctz_bit(1) [of "NOT v"] by (auto simp: Let_def split: if_splits)
  next
    case 4
    then show ?case using "2.IH"(1,4) ctz_bit(2) [of "NOT v"]
      by (auto simp: Let_def bit_simps nth_Cons' split: if_splits)
  next
    case 5
    have "bit v p" if "p < ctz (NOT v)" "NOT v \<noteq> 0"
      using ctz_below [OF that(1)] ctz_bit(1) [OF that(2)] that(1) by (auto simp: bit_simps)
    then show ?case using 5 "2.IH"(1,5) by (auto simp: Let_def nth_Cons' split: if_splits)
  next
    case 6
    then show ?case using "2.IH"(1,6) by (auto simp: Let_def nth_Cons' split: if_splits)
  }
qed simp_all

lemma SetZeroPos_full:
  assumes wf: "bitmap_wf b" and "zero_scan (take (bm_n b div 64) (bits b)) 0 = None"
  shows "ones b = {..<bm_n b}" "SetZeroPos b = (-1, b)" "FirstZeroPos b = -1"
proof -
  have len: "take (bm_n b div 64) (bits b) = bits b" using wf by (simp add: bitmap_wf_def)
  have "BitMap_Get b i" if i: "i < bm_n b" for i
  proof -
    have "NOT (bits b ! (i div 64)) = 0"
      using assms(2) word_index [OF wf i] by (auto simp: zero_scan_None len)
    then have "\<not> bit (NOT (bits b ! (i div 64))) (i mod 64)" by simp
    then show ?thesis by (simp add: bit_simps BitMap_Get_bit)
  qed
  then show "ones b = {..<bm_n b}" by (auto simp: ones_def)
  show "SetZeroPos b = (-1, b)" "FirstZeroPos b = -1" using assms(2) by (simp_all add: SetZeroPos_def FirstZeroPos_def)
qed

lemma SetZeroPos_some:
  assumes wf: "bitmap_wf b" and z: "zero_scan (take (bm_n b div 64) (bits b)) 0 = Some (k, pos)"
  defines "i \<equiv> k * 64 + pos"
  shows "i < bm_n b" "i \<notin> ones b" "{..<i} \<subseteq> ones b" "SetZeroPos b = (int i, BitMap_Set b i)" "FirstZeroPos b = int i"
proof -
  have len: "take (bm_n b div 64) (bits b) = bits b" using wf by (simp add: bitmap_wf_def)
  note zs = zero_scan_Some [OF z [unfolded len], simplified]
  have i: "i div 64 = k" "i mod 64 = pos" using zs(3) by (simp_all add: i_def)
  have n: "bm_n b = bm_n b div 64 * 64" using wf by (auto simp: bitmap_wf_def)
  have k: "Suc k * 64 \<le> bm_n b div 64 * 64" using zs(2) wf by (simp add: bitmap_wf_def)
  then show "i < bm_n b" using n zs(3) by (simp add: i_def)
  show "i \<notin> ones b" using zs(4) i by (simp add: ones_def BitMap_Get_bit)
  show "{..<i} \<subseteq> ones b"
  proof
    fix j assume "j \<in> {..<i}"
    then have j: "j < i" by simp
    show "j \<in> ones b"
    proof (cases "j div 64 = k")
      case True
      then have "j mod 64 < pos" using j zs(3) div_mult_mod_eq [of j 64] by (simp add: i_def)
      then show ?thesis using zs(5) True j \<open>i < bm_n b\<close> by (simp add: ones_def BitMap_Get_bit)
    next
      case False
      then have "j div 64 < k" using div_le_mono [of j i 64] j i(1) by simp
      then have "NOT (bits b ! (j div 64)) = 0" using zs(6) by simp
      then have "\<not> bit (NOT (bits b ! (j div 64))) (j mod 64)" by simp
      then show ?thesis using j \<open>i < bm_n b\<close> by (simp add: bit_simps ones_def BitMap_Get_bit)
    qed
  qed
  show "SetZeroPos b = (int i, BitMap_Set b i)" "FirstZeroPos b = int i"
    unfolding SetZeroPos_def FirstZeroPos_def z BitMap_Set_def i by (simp_all add: i_def)
qed

lemma full_scan:
  assumes "bitmap_wf b" and "ones b = {..<bm_n b}"
  shows "zero_scan (take (bm_n b div 64) (bits b)) 0 = None"
proof (cases "zero_scan (take (bm_n b div 64) (bits b)) 0")
  case (Some z)
  then show ?thesis using SetZeroPos_some(1,2) [OF assms(1), of "fst z" "snd z"] assms(2) by simp
qed

section \<open>Allocators of slots\<close>

text \<open>
  What the users of a bitmap rely on: an allocation yields a slot that was free, or -1 exactly
  if there is none; a release frees exactly its slot.
\<close>

locale slot_allocator =
  fixes ok :: "'s \<Rightarrow> bool" and cap :: "'s \<Rightarrow> nat" and live :: "'s \<Rightarrow> nat set"
    and alloc :: "'s \<Rightarrow> int \<times> 's" and release :: "'s \<Rightarrow> nat \<Rightarrow> 's"
  assumes live_cap: "ok s \<Longrightarrow> live s \<subseteq> {..<cap s}"
    and alloc_full: "ok s \<Longrightarrow> live s = {..<cap s} \<Longrightarrow> alloc s = (-1, s)"
    and alloc_free: "ok s \<Longrightarrow> live s \<noteq> {..<cap s} \<Longrightarrow> \<exists>i s'. alloc s = (int i, s') \<and>
      i < cap s \<and> i \<notin> live s \<and> ok s' \<and> cap s' = cap s \<and> live s' = insert i (live s)"
    and release_ok: "ok s \<Longrightarrow> i < cap s \<Longrightarrow>
      ok (release s i) \<and> cap (release s i) = cap s \<and> live (release s i) = live s - {i}"

text \<open>A number of allocations in a row, with the slots they return.\<close>

fun allocs :: "('s \<Rightarrow> int \<times> 's) \<Rightarrow> nat \<Rightarrow> 's \<Rightarrow> int list \<times> 's" where
  "allocs alloc 0 s = ([], s)"
| "allocs alloc (Suc n) s =
     (let (i, s1) = alloc s; (is, s2) = allocs alloc n s1 in (i # is, s2))"

context slot_allocator
begin

lemma live_finite: "ok s \<Longrightarrow> finite (live s)"
  using live_cap finite_subset by blast

lemma card_live: "ok s \<Longrightarrow> card (live s) \<le> cap s"
  using card_mono [of "{..<cap s}" "live s"] live_cap by simp

lemma full_iff: "ok s \<Longrightarrow> live s = {..<cap s} \<longleftrightarrow> card (live s) = cap s"
  using card_subset_eq [of "{..<cap s}" "live s"] live_cap by auto

lemma alloc_room:
  assumes "ok s" and "card (live s) < cap s"
  obtains i s' where "alloc s = (int i, s')" "i < cap s" "i \<notin> live s" "ok s'" "cap s' = cap s"
    "live s' = insert i (live s)"
  using alloc_free [OF assms(1)] full_iff [OF assms(1)] assms(2) by auto

lemma allocs_fresh:
  assumes "ok s" and "card (live s) + n \<le> cap s"
  shows "\<exists>is s'. allocs alloc n s = (map int is, s') \<and> length is = n \<and> distinct is \<and>
    set is \<inter> live s = {} \<and> ok s' \<and> cap s' = cap s \<and> live s' = live s \<union> set is"
  using assms
proof (induction n arbitrary: s)
  case (Suc n)
  have "card (live s) < cap s" using Suc.prems(2) by simp
  from alloc_room [OF Suc.prems(1) this] obtain i s1 where 1: "alloc s = (int i, s1)" "i \<notin> live s"
    "ok s1" "cap s1 = cap s" "live s1 = insert i (live s)" by blast
  then have "card (live s1) + n \<le> cap s1" using live_finite [OF Suc.prems(1)] Suc.prems(2) by simp
  from Suc.IH [OF 1(3) this] obtain "is" s2 where 2: "allocs alloc n s1 = (map int is, s2)"
    "length is = n" "distinct is" "set is \<inter> live s1 = {}" "ok s2" "cap s2 = cap s1" "live s2 = live s1 \<union> set is"
    by blast
  then show ?case using 1 by (intro exI [of _ "i # is"] exI [of _ s2]) auto
qed simp

lemma allocs_full:
  assumes "ok s" and "card (live s) = cap s"
  shows "alloc s = (-1, s)"
  using alloc_full full_iff assms by simp

end

interpretation bitmap: slot_allocator bitmap_wf bm_n ones SetZeroPos BitMap_Clear
proof (unfold_locales, goal_cases)
  case (1 s)
  then show ?case by (auto simp: ones_def)
next
  case (2 s)
  then show ?case using SetZeroPos_full(2) full_scan by blast
next
  case (3 s)
  then obtain k pos where "zero_scan (take (bm_n s div 64) (bits s)) 0 = Some (k, pos)"
    using SetZeroPos_full(1) by (cases "zero_scan (take (bm_n s div 64) (bits s)) 0") auto
  note z = SetZeroPos_some [OF 3(1) this]
  show ?case using z bitmap_wf_update(1,4) ones_Set [OF 3(1) z(1)] 3(1) by blast
next
  case (4 s i)
  then show ?case by (simp add: bitmap_wf_update ones_Clear)
qed

section \<open>Properties\<close>



end
