(* ===== verification/Mem_Pool.thy ===== *)
theory Mem_Pool
  imports Base_BitMap
begin

text \<open>
  The persistent memory pool (\<open>src/src/memory/persist_malloc.h\<close>: \<open>PersistMemoryPool\<close> with its
  class \<open>Chunk\<close>). The file is an array of chunks of 2 MiB; a chunk in use has a header, a bitmap
  and entries of one size. Pointers are offsets from the start of the file, chunks are named by
  their index. The headers and bitmaps are the persistent part of the state, the rest is rebuilt
  when the pool is opened. Locks are left out; \<open>DEBUG\<close> is not defined.
\<close>

section \<open>Chunks\<close>

definition kPoolChunkSize :: nat where
  "kPoolChunkSize = 2 * 1024 * 1024"

definition kMetaDataSize :: nat where
  "kMetaDataSize = 8"

record ChunkHeader =
  is_used :: bool
  slab_size :: nat
  nr_entries :: nat
  bitmap :: BitMap

definition sizeof_ChunkHeader :: nat where
  "sizeof_ChunkHeader = 16"

definition HeaderSize :: "nat \<Rightarrow> nat run" where
  "HeaderSize nr = run_bind (BitMap_MemorySize nr) (\<lambda>m. Returns (sizeof_ChunkHeader + m))"

definition Header_Initialize :: "nat \<Rightarrow> nat \<Rightarrow> ChunkHeader run" where
  "Header_Initialize slab nr =
     run_bind (BitMap_new nr) (\<lambda>b.
       Returns \<lparr>is_used = True, slab_size = slab, nr_entries = nr, bitmap = BitMap_ClearAll b\<rparr>)"

text \<open>\<open>data_ptr\<close> is the offset of \<open>data_\<close> in the chunk, \<open>None\<close> a null pointer.\<close>

record PoolChunk =
  header :: ChunkHeader
  data_ptr :: "nat option"
  is_recovered :: bool
  allocated_entries :: int
  chunk_id :: nat

definition Chunk_new :: "ChunkHeader \<Rightarrow> nat \<Rightarrow> PoolChunk" where
  "Chunk_new hdr i =
     \<lparr>header = hdr, data_ptr = None, is_recovered = False, allocated_entries = 0, chunk_id = i\<rparr>"

definition Chunk_Initialize :: "PoolChunk \<Rightarrow> PoolChunk" where
  "Chunk_Initialize c = c\<lparr>header := (header c)\<lparr>is_used := False\<rparr>\<rparr>"

text \<open>The loop of \<open>Use\<close> that gives up groups of 64 entries until header and entries fit.\<close>

function use_loop :: "nat \<Rightarrow> nat \<Rightarrow> nat run" where
  "use_loop slab nr =
     run_bind (HeaderSize nr) (\<lambda>hs.
       if hs + nr * slab > kPoolChunkSize then use_loop slab (nr - 64) else Returns nr)"
  by pat_completeness auto
termination
  by (relation "measure snd")
    (auto simp: HeaderSize_def BitMap_MemorySize_def sizeof_ChunkHeader_def sizeof_BitMap_def
      kPoolChunkSize_def run_simps intro!: diff_less Nat.gr0I)

declare use_loop.simps [simp del]

definition Use :: "nat \<Rightarrow> PoolChunk \<Rightarrow> PoolChunk run" where
  "Use slab c =
     (if slab = 0 then Aborts (Undefined ''division by zero'')
      else let nr = kPoolChunkSize div slab in
      run_bind (use_loop slab (nr - nr mod 64)) (\<lambda>nr.
      run_bind (run_check (nr > 0) ''nr_entries > 0'') (\<lambda>_.
      run_bind (Header_Initialize slab nr) (\<lambda>hdr.
      run_bind (HeaderSize (nr_entries hdr)) (\<lambda>hs.
        Returns (c\<lparr>header := hdr, data_ptr := Some hs, allocated_entries := 0, is_recovered := True\<rparr>))))))"

definition ValidPointerRange :: "PoolChunk \<Rightarrow> nat \<Rightarrow> nat \<Rightarrow> bool" where
  "ValidPointerRange c s e =
     (if int e - int s \<noteq> int (slab_size (header c)) then False
      else case data_ptr c of None \<Rightarrow> False
      | Some d \<Rightarrow> if s < d \<or> e > d + slab_size (header c) * nr_entries (header c) then False else True)"

definition Recovery :: "PoolChunk \<Rightarrow> PoolChunk run" where
  "Recovery c =
     (if \<not> is_recovered c
      then run_bind (HeaderSize (nr_entries (header c))) (\<lambda>hs.
        Returns (c\<lparr>allocated_entries := int (NumberOfOnes (bitmap (header c))),
                   data_ptr := Some hs, is_recovered := True\<rparr>))
      else Returns c)"

definition MaxEntryNumber :: "PoolChunk \<Rightarrow> nat" where
  "MaxEntryNumber c = nr_entries (header c)"

definition Chunk_Full :: "PoolChunk \<Rightarrow> bool" where
  "Chunk_Full c = (allocated_entries c = int (MaxEntryNumber c))"

definition SlabSize :: "PoolChunk \<Rightarrow> nat" where
  "SlabSize c = slab_size (header c)"

text \<open>\<open>Entry\<close> and \<open>EntryId\<close> convert between entries and offsets in the chunk.\<close>

definition Entry :: "PoolChunk \<Rightarrow> nat \<Rightarrow> nat run" where
  "Entry c entry_id =
     (case data_ptr c of None \<Rightarrow> Aborts (NullDeref ''data_'') | Some d \<Rightarrow> Returns (d + entry_id * SlabSize c))"

definition EntryId :: "PoolChunk \<Rightarrow> nat \<Rightarrow> nat run" where
  "EntryId c off =
     (case data_ptr c of None \<Rightarrow> Aborts (NullDeref ''data_'')
      | Some d \<Rightarrow>
          if off < d \<or> SlabSize c = 0 \<or> (off - d) div SlabSize c \<ge> bm_n (bitmap (header c))
          then Aborts (Undefined ''entry out of range'')
          else Returns ((off - d) div SlabSize c))"

definition Chunk_Malloc :: "PoolChunk \<Rightarrow> (nat option \<times> PoolChunk) run" where
  "Chunk_Malloc c =
     run_bind (Recovery c) (\<lambda>c.
       let (entry_id, b) = SetZeroPos (bitmap (header c)) in
       if entry_id = -1 then Returns (None, c)
       else
         let c1 = c\<lparr>header := (header c)\<lparr>bitmap := b\<rparr>, allocated_entries := allocated_entries c + 1\<rparr>
         in run_bind (Entry c1 (nat entry_id)) (\<lambda>e. Returns (Some e, c1)))"

definition Chunk_Free :: "nat \<Rightarrow> PoolChunk \<Rightarrow> PoolChunk run" where
  "Chunk_Free off c =
     run_bind (Recovery c) (\<lambda>c.
     run_bind (EntryId c off) (\<lambda>e.
       Returns (c\<lparr>allocated_entries := allocated_entries c - 1,
                  header := (header c)\<lparr>bitmap := BitMap_Clear (bitmap (header c)) e\<rparr>\<rparr>)))"

definition GetMallocedIds :: "PoolChunk \<Rightarrow> nat list run" where
  "GetMallocedIds c =
     (let ids = filter (BitMap_Get (bitmap (header c))) [0..<MaxEntryNumber c] in
      run_bind (run_check (int (length ids) = allocated_entries c) ''return_id.size() == allocated_entries_'')
        (\<lambda>_. Returns ids))"

definition GetMallocedData :: "PoolChunk \<Rightarrow> nat list run" where
  "GetMallocedData c =
     (let ids = filter (BitMap_Get (bitmap (header c))) [0..<MaxEntryNumber c];
          d = (case data_ptr c of None \<Rightarrow> 0 | Some d \<Rightarrow> d);
          dat = map (\<lambda>i. d + i * SlabSize c) ids in
      run_bind (run_check (int (length dat) = allocated_entries c) ''return_data.size() == allocated_entries_'')
        (\<lambda>_. Returns dat))"

section \<open>The pool\<close>

text \<open>
  The maps from a slab size to its chunks hold what the pointers in \<open>size_to_chunks_\<close> point to;
  \<open>pool_ints\<close> holds the sizes written in front of the blocks of a pool that is not in
  \<open>PERFECT_FIT_MOD\<close>.
\<close>

record PersistMemoryPool =
  chunks :: "PoolChunk list"
  free_chunks :: "nat list"
  size_to_chunks :: "nat \<rightharpoonup> nat list"
  size_to_last_used_chunk :: "nat \<rightharpoonup> nat"
  allocated_slab_sizes :: "nat list"
  total_malloc :: int
  pool_ints :: "nat \<rightharpoonup> int"

definition Pool_Valid :: "PersistMemoryPool \<Rightarrow> bool" where
  "Pool_Valid p = True"

text \<open>The loop of the constructor that sorts the chunks of an existing file.\<close>

fun recover_loop :: "nat list \<Rightarrow> PersistMemoryPool \<Rightarrow> PersistMemoryPool run" where
  "recover_loop [] p = Returns p"
| "recover_loop (i # is) p =
     (let each = chunks p ! i in
      if is_used (header each) then
        (case size_to_chunks p (SlabSize each) of
           None \<Rightarrow> Aborts (NullDeref ''size_to_chunks_'')
         | Some q \<Rightarrow>
             run_bind (Recovery each) (\<lambda>each'.
               recover_loop is (p\<lparr>chunks := (chunks p)[i := each'],
                 size_to_chunks := (size_to_chunks p)(SlabSize each \<mapsto> q @ [i]),
                 total_malloc := total_malloc p + allocated_entries each'\<rparr>)))
      else recover_loop is (p\<lparr>free_chunks := free_chunks p @ [i]\<rparr>))"

text \<open>
  The constructor, with the headers and the sizes in front of the blocks that are found in the
  file. \<open>file_exists\<close> is false also if the file had to be replaced because its size is another one.
\<close>

definition PersistMemoryPool_new ::
  "bool \<Rightarrow> nat \<Rightarrow> nat list \<Rightarrow> ChunkHeader list \<Rightarrow> (nat \<rightharpoonup> int) \<Rightarrow> PersistMemoryPool run" where
  "PersistMemoryPool_new file_exists memory_size slab_sizes headers ints =
     (let nr_chunks = (memory_size - memory_size mod kPoolChunkSize) div kPoolChunkSize in
      run_bind (run_check (nr_chunks \<ge> length slab_sizes) ''nr_chunks_ >= slab_sizes.size()'') (\<lambda>_.
      let p = \<lparr>chunks = map (\<lambda>i. Chunk_new (headers ! i) i) [0..<nr_chunks], free_chunks = [],
                size_to_chunks = map_of (map (\<lambda>s. (s, [])) slab_sizes),
                size_to_last_used_chunk = Map.empty,
                allocated_slab_sizes = sorted_list_of_set (set slab_sizes), total_malloc = 0,
                pool_ints = ints\<rparr>
      in if \<not> file_exists \<or> \<not> Pool_Valid p
         then Returns (p\<lparr>chunks := map Chunk_Initialize (chunks p), free_chunks := [0..<nr_chunks]\<rparr>)
         else recover_loop [0..<nr_chunks] p))"

definition GetChunkID :: "nat \<Rightarrow> nat" where
  "GetChunkID off = off div kPoolChunkSize"

text \<open>An entry of chunk \<open>i\<close>: the chunk is updated and the pointer is an offset in the file.\<close>

definition malloc_in :: "nat \<Rightarrow> PersistMemoryPool \<Rightarrow> (nat option \<times> PersistMemoryPool) run" where
  "malloc_in i p =
     run_bind (Chunk_Malloc (chunks p ! i)) (\<lambda>(r, c).
       Returns (map_option (\<lambda>e. i * kPoolChunkSize + e) r, p\<lparr>chunks := (chunks p)[i := c]\<rparr>))"

text \<open>
  The branches of \<open>NewInternal\<close> for a size whose last used chunk is full or missing: take a free
  chunk, or look for space in the other chunks of the size.
\<close>

definition new_chunk :: "nat \<Rightarrow> PersistMemoryPool \<Rightarrow> (nat option \<times> PersistMemoryPool) run" where
  "new_chunk slab p =
     (case free_chunks p of
        front # rest \<Rightarrow>
          run_bind (Use slab (chunks p ! front)) (\<lambda>c.
            case size_to_chunks p slab of
              None \<Rightarrow> Aborts (NullDeref ''size_to_chunks_'')
            | Some q \<Rightarrow>
                malloc_in front (p\<lparr>free_chunks := rest, chunks := (chunks p)[front := c],
                  size_to_chunks := (size_to_chunks p)(slab \<mapsto> q @ [front]),
                  size_to_last_used_chunk := (size_to_last_used_chunk p)(slab \<mapsto> front)\<rparr>))
      | [] \<Rightarrow>
          (case size_to_chunks p slab of
             None \<Rightarrow> Aborts (NullDeref ''size_to_chunks_'')
           | Some q \<Rightarrow>
               (case find (\<lambda>i. \<not> Chunk_Full (chunks p ! i)) q of
                  None \<Rightarrow> Aborts (LogFatal ''Persist Memory Pool OOM'')
                | Some i \<Rightarrow> malloc_in i p)))"

definition NewInternal :: "nat \<Rightarrow> PersistMemoryPool \<Rightarrow> (nat \<times> PersistMemoryPool) run" where
  "NewInternal slab p =
     run_bind
       (case size_to_last_used_chunk p slab of
          Some i \<Rightarrow>
            if \<not> Chunk_Full (chunks p ! i) then malloc_in i p else new_chunk slab p
        | None \<Rightarrow> new_chunk slab p)
       (\<lambda>(return_ptr, p).
          case return_ptr of
            None \<Rightarrow> Aborts (CheckFailed ''return_ptr'')
          | Some a \<Rightarrow> Returns (a, p\<lparr>total_malloc := total_malloc p + 1\<rparr>))"

definition New :: "bool \<Rightarrow> nat \<Rightarrow> PersistMemoryPool \<Rightarrow> (nat \<times> PersistMemoryPool) run" where
  "New perfect_fit memory_size p =
     (if perfect_fit then NewInternal memory_size p
      else case find (\<lambda>s. kMetaDataSize + memory_size \<le> s) (allocated_slab_sizes p) of
        None \<Rightarrow> Aborts (CheckFailed ''iter != allocated_slab_sizes_.end()'')
      | Some slab \<Rightarrow>
          run_bind (NewInternal slab p) (\<lambda>(ptr, p).
            Returns (ptr + kMetaDataSize, p\<lparr>pool_ints := (pool_ints p)(ptr \<mapsto> int memory_size)\<rparr>)))"

text \<open>A pointer into the first bytes of the file yields a negative chunk number.\<close>

definition Free :: "bool \<Rightarrow> nat \<Rightarrow> PersistMemoryPool \<Rightarrow> (bool \<times> PersistMemoryPool) run" where
  "Free perfect_fit memory_data p =
     (if \<not> perfect_fit \<and> memory_data < kMetaDataSize then Returns (False, p)
      else let off = (if perfect_fit then memory_data else memory_data - kMetaDataSize);
               i = GetChunkID off
      in if i < length (chunks p)
         then run_bind (Chunk_Free (off - i * kPoolChunkSize) (chunks p ! i)) (\<lambda>c.
           Returns (True, p\<lparr>chunks := (chunks p)[i := c], total_malloc := total_malloc p - 1\<rparr>))
         else Returns (False, p))"

fun mallocs_of :: "bool \<Rightarrow> PoolChunk list \<Rightarrow> nat \<Rightarrow> nat list run" where
  "mallocs_of perfect_fit [] i = Returns []"
| "mallocs_of perfect_fit (c # cs) i =
     run_bind (GetMallocedData c) (\<lambda>dat.
     run_bind (mallocs_of perfect_fit cs (i + 1)) (\<lambda>rest.
       Returns (map (\<lambda>e. i * kPoolChunkSize + e + (if perfect_fit then 0 else kMetaDataSize)) dat @ rest)))"

definition GetMallocsAppend :: "bool \<Rightarrow> PersistMemoryPool \<Rightarrow> nat list \<Rightarrow> nat list run" where
  "GetMallocsAppend perfect_fit p mallocs =
     run_bind (mallocs_of perfect_fit (chunks p) 0) (\<lambda>ms. Returns (mallocs @ ms))"

text \<open>The numbers that \<open>GetInfo\<close> prints: used chunks, chunks, and the share of bytes in percent.\<close>

definition GetInfo :: "PersistMemoryPool \<Rightarrow> (nat \<times> nat \<times> int) run" where
  "GetInfo p =
     (let us = filter (\<lambda>c. is_used (header c)) (chunks p);
          malloced_bytes = sum_list (map (\<lambda>c. allocated_entries c * int (SlabSize c)) us)
      in if length (chunks p) = 0 then Aborts (Undefined ''division by zero'')
         else Returns (length us, length (chunks p),
           100 * malloced_bytes div int (kPoolChunkSize * length (chunks p))))"

definition GetMallocOffset :: "nat \<Rightarrow> nat run" where
  "GetMallocOffset off =
     run_bind (run_check (push_bit 3 (drop_bit 3 off) = off) ''(ret >> 3) << 3 == ret'') (\<lambda>_. Returns off)"

definition GetMallocSize :: "bool \<Rightarrow> nat \<Rightarrow> PersistMemoryPool \<Rightarrow> int run" where
  "GetMallocSize perfect_fit off p =
     (if perfect_fit
      then if GetChunkID off < length (chunks p) then Returns (int (SlabSize (chunks p ! GetChunkID off)))
           else Aborts (Undefined ''chunks_ out of range'')
      else if off < kMetaDataSize then Aborts (Undefined ''read below the file'')
      else case pool_ints p (off - kMetaDataSize) of
        None \<Rightarrow> Aborts (Undefined ''no size in front of the block'') | Some n \<Rightarrow> Returns n)"

end
