(* ===== verification/Mem_Pool_Inv.thy ===== *)
theory Mem_Pool_Inv
  imports Mem_Pool
begin

text \<open>
  The invariant of the memory pool and its preservation: the blocks handed out lie inside their
  chunks, behind the header, and do not overlap.
\<close>

section \<open>Chunks in use\<close>

definition data_off :: "PoolChunk \<Rightarrow> nat" where
  "data_off c = 24 + nr_entries (header c) div 64 * 8"

definition entry_off :: "PoolChunk \<Rightarrow> nat \<Rightarrow> nat" where
  "entry_off c e = data_off c + e * SlabSize c"

abbreviation taken :: "PoolChunk \<Rightarrow> nat set" where
  "taken c \<equiv> ones (bitmap (header c))"

definition chunk_ok :: "PoolChunk \<Rightarrow> bool" where
  "chunk_ok c \<longleftrightarrow> is_used (header c) \<and> is_recovered c \<and> 0 < SlabSize c \<and> 0 < nr_entries (header c) \<and>
     bitmap_wf (bitmap (header c)) \<and> bm_n (bitmap (header c)) = nr_entries (header c) \<and>
     allocated_entries c = int (card (taken c)) \<and> data_ptr c = Some (data_off c) \<and>
     entry_off c (nr_entries (header c)) \<le> kPoolChunkSize"

lemma chunk_okD:
  assumes "chunk_ok c"
  shows "is_used (header c)" "is_recovered c" "0 < SlabSize c" "0 < nr_entries (header c)"
    "bitmap_wf (bitmap (header c))" "bm_n (bitmap (header c)) = nr_entries (header c)"
    "allocated_entries c = int (card (taken c))" "data_ptr c = Some (data_off c)"
    "entry_off c (nr_entries (header c)) \<le> kPoolChunkSize"
  using assms by (auto simp: chunk_ok_def)

lemma HeaderSize_eq: "nr mod 64 = 0 \<Longrightarrow> HeaderSize nr = Returns (24 + nr div 64 * 8)"
  by (simp add: HeaderSize_def BitMap_MemorySize_def sizeof_ChunkHeader_def sizeof_BitMap_def)

lemma use_loop_ok:
  assumes "nr mod 64 = 0"
  shows "\<exists>m. use_loop slab nr = Returns m \<and> m mod 64 = 0 \<and> m \<le> nr \<and>
    24 + m div 64 * 8 + m * slab \<le> kPoolChunkSize \<and>
    (m < nr \<longrightarrow> 24 + (m + 64) div 64 * 8 + (m + 64) * slab > kPoolChunkSize)"
  using assms
proof (induction slab nr rule: use_loop.induct)
  case (1 slab nr)
  show ?case
  proof (cases "24 + nr div 64 * 8 + nr * slab > kPoolChunkSize")
    case True
    then have "nr \<noteq> 0" by (cases nr) (auto simp: kPoolChunkSize_def)
    then have n: "(nr - 64) mod 64 = 0" "nr - 64 + 64 = nr" using "1.prems" by (auto elim!: dvdE simp flip: dvd_eq_mod_eq_0)
    obtain m where m: "use_loop slab (nr - 64) = Returns m"
      "m mod 64 = 0" "m \<le> nr - 64" "24 + m div 64 * 8 + m * slab \<le> kPoolChunkSize"
      "m < nr - 64 \<longrightarrow> 24 + (m + 64) div 64 * 8 + (m + 64) * slab > kPoolChunkSize"
      by (rule exE [OF "1.IH" [OF HeaderSize_eq [OF "1.prems"] True n(1)]], elim conjE) (rule that)
    have "m + 64 = nr \<or> m < nr - 64" using m(3) n(2) by linarith
    then have "24 + (m + 64) div 64 * 8 + (m + 64) * slab > kPoolChunkSize" using True m(5) by blast
    then show ?thesis
      using True m HeaderSize_eq [OF "1.prems"] n(2) by (subst use_loop.simps) (intro exI [of _ m], simp)
  next
    case False
    then show ?thesis using "1.prems" HeaderSize_eq [OF "1.prems"] by (subst use_loop.simps) (auto intro: exI [of _ nr])
  qed
qed

lemma use_loopE:
  assumes "nr mod 64 = 0"
  obtains m where "use_loop slab nr = Returns m" "m mod 64 = 0" "m \<le> nr"
    "24 + m div 64 * 8 + m * slab \<le> kPoolChunkSize"
    "m < nr \<longrightarrow> 24 + (m + 64) div 64 * 8 + (m + 64) * slab > kPoolChunkSize"
proof (rule exE [OF use_loop_ok [OF assms, of slab]])
  fix m
  assume "use_loop slab nr = Returns m \<and> m mod 64 = 0 \<and> m \<le> nr \<and>
    24 + m div 64 * 8 + m * slab \<le> kPoolChunkSize \<and>
    (m < nr \<longrightarrow> 24 + (m + 64) div 64 * 8 + (m + 64) * slab > kPoolChunkSize)"
  then show thesis by (intro that [of m]) iprover+
qed

lemma Use_Returns:
  assumes "Use slab c = Returns c'"
  shows "chunk_ok c'" "SlabSize c' = slab" "taken c' = {}" "chunk_id c' = chunk_id c"
proof -
  let ?n = "kPoolChunkSize div slab - kPoolChunkSize div slab mod 64"
  have s: "slab \<noteq> 0" using assms by (auto simp: Use_def split: if_splits)
  have "?n mod 64 = 0" by (simp add: dvd_minus_mod flip: dvd_eq_mod_eq_0)
  then obtain m where m: "use_loop slab ?n = Returns m" "m mod 64 = 0"
    "24 + m div 64 * 8 + m * slab \<le> kPoolChunkSize" by (rule use_loopE [of _ slab])
  obtain b where b: "BitMap_new m = Returns b" using m(2) by (auto simp: BitMap_new_def)
  note w = bitmap_wf_new [OF b]
  have "m > 0 \<and> c' = c\<lparr>header := \<lparr>is_used = True, slab_size = slab, nr_entries = m, bitmap = BitMap_ClearAll b\<rparr>,
      data_ptr := Some (24 + m div 64 * 8), allocated_entries := 0, is_recovered := True\<rparr>"
    using assms s m(1) HeaderSize_eq [OF m(2)] b
    by (auto simp: Use_def Let_def Header_Initialize_def run_simps)
  then show "chunk_ok c'" "SlabSize c' = slab" "taken c' = {}" "chunk_id c' = chunk_id c"
    using w s m(3) by (auto simp: chunk_ok_def SlabSize_def entry_off_def data_off_def bitmap_wf_update ones_ClearAll)
qed

lemma Use_ex:
  assumes "0 < slab" and "slab \<le> 32767"
  shows "\<exists>c'. Use slab c = Returns c'"
proof -
  let ?n = "kPoolChunkSize div slab - kPoolChunkSize div slab mod 64"
  have n: "?n mod 64 = 0" by (simp add: dvd_minus_mod flip: dvd_eq_mod_eq_0)
  then obtain m where m: "use_loop slab ?n = Returns m" "m mod 64 = 0"
    "m < ?n \<longrightarrow> 24 + (m + 64) div 64 * 8 + (m + 64) * slab > kPoolChunkSize" by (rule use_loopE [of _ slab])
  have "64 * slab \<le> kPoolChunkSize" using assms(2) by (simp add: kPoolChunkSize_def)
  then have "64 \<le> kPoolChunkSize div slab" using assms(1) by (simp add: less_eq_div_iff_mult_less_eq)
  then have "0 < kPoolChunkSize div slab div 64" by (simp add: div_greater_zero_iff)
  then have "0 < ?n" by (simp add: minus_mod_eq_mult_div)
  moreover have "24 + 64 div 64 * 8 + 64 * slab \<le> kPoolChunkSize" using assms(2) by (simp add: kPoolChunkSize_def)
  ultimately have "0 < m" using m(3) by (cases m) auto
  then show ?thesis
    using assms(1) m HeaderSize_eq [OF m(2)]
    by (auto simp: Use_def Let_def Header_Initialize_def BitMap_new_def)
qed

lemma Recovery_ok: "chunk_ok c \<Longrightarrow> Recovery c = Returns c"
  using chunk_okD(2) by (simp add: Recovery_def)

lemma Chunk_Full_iff: "chunk_ok c \<Longrightarrow> Chunk_Full c \<longleftrightarrow> card (taken c) = nr_entries (header c)"
  by (simp add: Chunk_Full_def MaxEntryNumber_def chunk_ok_def)

lemma chunk_ok_bits:
  assumes "chunk_ok c" and "bitmap_wf b" and "bm_n b = nr_entries (header c)"
  shows "chunk_ok (c\<lparr>header := (header c)\<lparr>bitmap := b\<rparr>, allocated_entries := int (card (ones b))\<rparr>)"
  using assms by (simp add: chunk_ok_def SlabSize_def entry_off_def data_off_def)

lemma Chunk_Malloc_ok:
  assumes ok: "chunk_ok c" and "\<not> Chunk_Full c"
  obtains e c' where "Chunk_Malloc c = Returns (Some (entry_off c e), c')" "chunk_ok c'"
    "e < nr_entries (header c)" "e \<notin> taken c" "taken c' = insert e (taken c)" "SlabSize c' = SlabSize c"
    "nr_entries (header c') = nr_entries (header c)" "chunk_id c' = chunk_id c"
proof -
  note D = chunk_okD [OF ok]
  let ?b = "bitmap (header c)"
  have "card (ones ?b) < bm_n ?b"
    using assms(2) bitmap.card_live [OF D(5)] D(6) Chunk_Full_iff [OF ok] by (simp add: le_neq_implies_less)
  from bitmap.alloc_room [OF D(5) this] obtain e b' where b: "SetZeroPos ?b = (int e, b')" "e < bm_n ?b"
    "e \<notin> ones ?b" "bitmap_wf b'" "bm_n b' = bm_n ?b" "ones b' = insert e (ones ?b)" by blast
  let ?c = "c\<lparr>header := (header c)\<lparr>bitmap := b'\<rparr>, allocated_entries := int (card (ones b'))\<rparr>"
  have "allocated_entries c + 1 = int (card (ones b'))" using D(7) b(3,6) by simp
  then have "Chunk_Malloc c = Returns (Some (entry_off c e), ?c)"
    using b(1) D(8) by (simp add: Chunk_Malloc_def Recovery_ok [OF ok] Entry_def entry_off_def SlabSize_def)
  moreover have "chunk_ok ?c" using chunk_ok_bits [OF ok b(4)] b(5) D(6) by simp
  ultimately show thesis using that [of e ?c] b D(6) by (simp add: SlabSize_def)
qed

lemma Chunk_Free_ok:
  assumes ok: "chunk_ok c" and e: "e \<in> taken c"
  obtains c' where "Chunk_Free (entry_off c e) c = Returns c'" "chunk_ok c'"
    "taken c' = taken c - {e}" "SlabSize c' = SlabSize c"
    "nr_entries (header c') = nr_entries (header c)" "chunk_id c' = chunk_id c"
proof -
  note D = chunk_okD [OF ok]
  let ?b = "BitMap_Clear (bitmap (header c)) e"
  have lt: "e < bm_n (bitmap (header c))" using e by (simp add: ones_def)
  note r = bitmap.release_ok [OF D(5) lt]
  let ?c = "c\<lparr>header := (header c)\<lparr>bitmap := ?b\<rparr>, allocated_entries := int (card (ones ?b))\<rparr>"
  have "int (card (ones ?b)) = allocated_entries c - 1"
    using r e D(7) card_Suc_Diff1 [OF finite_ones e] by simp
  then have "Chunk_Free (entry_off c e) c = Returns ?c"
    using D(3,8) lt by (simp add: Chunk_Free_def Recovery_ok [OF ok] EntryId_def entry_off_def)
  moreover have "chunk_ok ?c" by (rule chunk_ok_bits [OF ok]) (use r D(6) in auto)
  ultimately show thesis using that [of ?c] r by (simp add: SlabSize_def)
qed

section \<open>The blocks of a pool\<close>

definition chunk_blocks :: "nat \<Rightarrow> PoolChunk \<Rightarrow> (nat \<times> nat) set" where
  "chunk_blocks i c =
     (if is_used (header c) then (\<lambda>e. (i * kPoolChunkSize + entry_off c e, SlabSize c)) ` taken c else {})"

definition pool_blocks :: "PersistMemoryPool \<Rightarrow> (nat \<times> nat) set" where
  "pool_blocks p = (\<Union>i < length (chunks p). chunk_blocks i (chunks p ! i))"

definition pool_inv :: "PersistMemoryPool \<Rightarrow> bool" where
  "pool_inv p \<longleftrightarrow>
     (\<forall>i \<in> {..<length (chunks p)}. is_used (header (chunks p ! i)) \<longrightarrow> chunk_ok (chunks p ! i)) \<and>
     distinct (free_chunks p) \<and>
     set (free_chunks p) = {i. i < length (chunks p) \<and> \<not> is_used (header (chunks p ! i))} \<and>
     (\<forall>i \<in> {..<length (chunks p)}. is_used (header (chunks p ! i)) \<longrightarrow>
        SlabSize (chunks p ! i) \<in> dom (size_to_chunks p)) \<and>
     (\<forall>s \<in> dom (size_to_chunks p). set (the (size_to_chunks p s)) =
        {i. i < length (chunks p) \<and> is_used (header (chunks p ! i)) \<and> SlabSize (chunks p ! i) = s}) \<and>
     (\<forall>s \<in> dom (size_to_last_used_chunk p). let i = the (size_to_last_used_chunk p s) in
        i < length (chunks p) \<and> is_used (header (chunks p ! i)) \<and> SlabSize (chunks p ! i) = s) \<and>
     total_malloc p = int (card (pool_blocks p))"

lemma pool_invD:
  assumes "pool_inv p"
  shows "i < length (chunks p) \<Longrightarrow> is_used (header (chunks p ! i)) \<Longrightarrow> chunk_ok (chunks p ! i)"
    "distinct (free_chunks p)"
    "set (free_chunks p) = {i. i < length (chunks p) \<and> \<not> is_used (header (chunks p ! i))}"
    "i < length (chunks p) \<Longrightarrow> is_used (header (chunks p ! i)) \<Longrightarrow> SlabSize (chunks p ! i) \<in> dom (size_to_chunks p)"
    "size_to_chunks p s = Some q \<Longrightarrow> set q =
        {i. i < length (chunks p) \<and> is_used (header (chunks p ! i)) \<and> SlabSize (chunks p ! i) = s}"
    "size_to_last_used_chunk p s = Some i \<Longrightarrow>
        i < length (chunks p) \<and> is_used (header (chunks p ! i)) \<and> SlabSize (chunks p ! i) = s"
    "total_malloc p = int (card (pool_blocks p))"
proof -
  note c = assms [unfolded pool_inv_def Let_def]
  note c5 = c [THEN conjunct2, THEN conjunct2, THEN conjunct2, THEN conjunct2, THEN conjunct1]
    and c6 = c [THEN conjunct2, THEN conjunct2, THEN conjunct2, THEN conjunct2, THEN conjunct2, THEN conjunct1]
  show "i < length (chunks p) \<Longrightarrow> is_used (header (chunks p ! i)) \<Longrightarrow> chunk_ok (chunks p ! i)"
    "distinct (free_chunks p)"
    "set (free_chunks p) = {i. i < length (chunks p) \<and> \<not> is_used (header (chunks p ! i))}"
    "i < length (chunks p) \<Longrightarrow> is_used (header (chunks p ! i)) \<Longrightarrow> SlabSize (chunks p ! i) \<in> dom (size_to_chunks p)"
    "total_malloc p = int (card (pool_blocks p))"
    using c by simp_all
  show "set q = {i. i < length (chunks p) \<and> is_used (header (chunks p ! i)) \<and> SlabSize (chunks p ! i) = s}"
    if "size_to_chunks p s = Some q"
    using bspec [OF c5 domI [of "size_to_chunks p", OF that]] that by simp
  show "i < length (chunks p) \<and> is_used (header (chunks p ! i)) \<and> SlabSize (chunks p ! i) = s"
    if "size_to_last_used_chunk p s = Some i"
    using bspec [OF c6 domI [of "size_to_last_used_chunk p", OF that]] that by simp
qed

lemma finite_pool_blocks [simp]: "finite (pool_blocks p)"
  by (simp add: pool_blocks_def chunk_blocks_def)

lemma entry_range:
  assumes "chunk_ok c" and "e \<in> taken c"
  shows "entry_off c e + SlabSize c \<le> kPoolChunkSize" "24 \<le> entry_off c e"
proof -
  have "Suc e \<le> nr_entries (header c)" using assms(2) chunk_okD(6) [OF assms(1)] by (simp add: ones_def)
  then have "Suc e * SlabSize c \<le> nr_entries (header c) * SlabSize c" by (rule mult_le_mono1)
  then show "entry_off c e + SlabSize c \<le> kPoolChunkSize" using chunk_okD(9) [OF assms(1)] by (simp add: entry_off_def)
  show "24 \<le> entry_off c e" by (simp add: entry_off_def data_off_def)
qed

lemma entry_off_inj: "chunk_ok c \<Longrightarrow> entry_off c e = entry_off c e' \<longleftrightarrow> e = e'"
  using chunk_okD(3) [of c] by (simp add: entry_off_def)

lemma block_range:
  assumes "chunk_ok c" and "(a, s) \<in> chunk_blocks i c"
  shows "s = SlabSize c" "i * kPoolChunkSize \<le> a" "a + s \<le> Suc i * kPoolChunkSize" "0 < s" "a div kPoolChunkSize = i"
proof -
  obtain e where e: "e \<in> taken c" "a = i * kPoolChunkSize + entry_off c e" "s = SlabSize c"
    using assms(2) by (auto simp: chunk_blocks_def split: if_splits)
  show "s = SlabSize c" using e(3) .
  show "i * kPoolChunkSize \<le> a" using e(2) by simp
  show ps: "0 < s" using chunk_okD(3) [OF assms(1)] e(3) by simp
  show "a + s \<le> Suc i * kPoolChunkSize" using entry_range(1) [OF assms(1) e(1)] e by simp
  have "entry_off c e < kPoolChunkSize" using entry_range(1) [OF assms(1) e(1)] ps e(3) by simp
  then show "a div kPoolChunkSize = i" using e(2) by simp
qed

lemma pool_blocksE:
  assumes "pool_inv p" and "(a, s) \<in> pool_blocks p"
  obtains e where "GetChunkID a < length (chunks p)" "chunk_ok (chunks p ! GetChunkID a)"
    "e \<in> taken (chunks p ! GetChunkID a)" "s = SlabSize (chunks p ! GetChunkID a)"
    "a = GetChunkID a * kPoolChunkSize + entry_off (chunks p ! GetChunkID a) e"
proof -
  obtain i where i: "i < length (chunks p)" "(a, s) \<in> chunk_blocks i (chunks p ! i)"
    using assms(2) by (auto simp: pool_blocks_def)
  then have "is_used (header (chunks p ! i))" by (auto simp: chunk_blocks_def split: if_splits)
  then have ok: "chunk_ok (chunks p ! i)" using pool_invD(1) [OF assms(1) i(1)] by simp
  have g: "GetChunkID a = i" using block_range(5) [OF ok i(2)] by (simp add: GetChunkID_def)
  show thesis using i ok g by (auto simp: chunk_blocks_def intro: that split: if_splits)
qed

text \<open>Two blocks of a pool do not overlap.\<close>

lemma pool_blocks_disjoint:
  assumes inv: "pool_inv p" and a: "(a, s) \<in> pool_blocks p" and b: "(b, t) \<in> pool_blocks p" and ne: "(a, s) \<noteq> (b, t)"
  shows "a + s \<le> b \<or> b + t \<le> a"
proof -
  obtain e where e: "chunk_ok (chunks p ! GetChunkID a)" "e \<in> taken (chunks p ! GetChunkID a)"
    "s = SlabSize (chunks p ! GetChunkID a)" "a = GetChunkID a * kPoolChunkSize + entry_off (chunks p ! GetChunkID a) e"
    using pool_blocksE [OF inv a] by metis
  obtain f where f: "chunk_ok (chunks p ! GetChunkID b)" "f \<in> taken (chunks p ! GetChunkID b)"
    "t = SlabSize (chunks p ! GetChunkID b)" "b = GetChunkID b * kPoolChunkSize + entry_off (chunks p ! GetChunkID b) f"
    using pool_blocksE [OF inv b] by metis
  have order: "x * s + s \<le> y * s" if "x < y" for x y s :: nat
    using mult_le_mono1 [of "Suc x" y s] that by simp
  have ra: "a + s \<le> GetChunkID a * kPoolChunkSize + kPoolChunkSize" using entry_range(1) [OF e(1,2)] e(3,4) by linarith
  have rb: "b + t \<le> GetChunkID b * kPoolChunkSize + kPoolChunkSize" using entry_range(1) [OF f(1,2)] f(3,4) by linarith
  consider "GetChunkID a < GetChunkID b" | "GetChunkID b < GetChunkID a" | "GetChunkID a = GetChunkID b" by linarith
  then show ?thesis
  proof cases
    case 1
    then show ?thesis using order [OF 1, of kPoolChunkSize] ra f(4) by linarith
  next
    case 2
    then show ?thesis using order [OF 2, of kPoolChunkSize] rb e(4) by linarith
  next
    case 3
    then have st: "s = t" using e(3) f(3) by simp
    then have "e \<noteq> f" using ne 3 e(4) f(4) by metis
    then have "e * s + s \<le> f * s \<or> f * s + s \<le> e * s" using order [of e f s] order [of f e s] by linarith
    then show ?thesis using e(3,4) f(3,4) st 3 by (auto simp: entry_off_def)
  qed
qed

end
