(* ===== verification/Mem_Pool_Ops.thy ===== *)
theory Mem_Pool_Ops
  imports Mem_Pool_Inv
begin

text \<open>
  The operations of the memory pool keep its invariant: what \<open>New\<close> and \<open>Free\<close> do to the set of
  blocks, when \<open>New\<close> runs out of memory, and what the constructor recovers from a file.
\<close>

section \<open>Changing one chunk\<close>

lemma pool_blocks_update:
  assumes "i < length (chunks p)"
  shows "pool_blocks (p\<lparr>chunks := (chunks p)[i := c]\<rparr>) =
    (\<Union>j \<in> {..<length (chunks p)} - {i}. chunk_blocks j (chunks p ! j)) \<union> chunk_blocks i c"
  unfolding pool_blocks_def using assms by (auto simp: nth_list_update_any split: if_splits)

lemma pool_blocks_at:
  assumes "i < length (chunks p)"
  shows "pool_blocks p =
    (\<Union>j \<in> {..<length (chunks p)} - {i}. chunk_blocks j (chunks p ! j)) \<union> chunk_blocks i (chunks p ! i)"
  using pool_blocks_update [OF assms, of "chunks p ! i"] by simp

lemma pool_inv_update:
  assumes inv: "pool_inv p" and i: "i < length (chunks p)" "is_used (header (chunks p ! i))"
    and c: "chunk_ok c" "SlabSize c = SlabSize (chunks p ! i)"
    and t: "t = int (card (pool_blocks (p\<lparr>chunks := (chunks p)[i := c]\<rparr>)))"
  shows "pool_inv (p\<lparr>chunks := (chunks p)[i := c], total_malloc := t\<rparr>)"
proof -
  let ?p = "p\<lparr>chunks := (chunks p)[i := c], total_malloc := t\<rparr>"
  have u: "is_used (header (chunks ?p ! j)) \<longleftrightarrow> is_used (header (chunks p ! j))"
    "SlabSize (chunks ?p ! j) = SlabSize (chunks p ! j)" if "j < length (chunks p)" for j
    using that i c chunk_okD(1) [OF c(1)] by (auto simp: nth_list_update)
  have ok: "chunk_ok (chunks ?p ! j)" if "j < length (chunks p)" "is_used (header (chunks p ! j))" for j
    using that pool_invD(1) [OF inv that] c(1) by (simp add: nth_list_update_any)
  have eq: "{j. j < length (chunks p) \<and> is_used (header ((chunks p)[i := c] ! j)) \<and> SlabSize ((chunks p)[i := c] ! j) = s} =
      {j. j < length (chunks p) \<and> is_used (header (chunks p ! j)) \<and> SlabSize (chunks p ! j) = s}"
    "{j. j < length (chunks p) \<and> \<not> is_used (header ((chunks p)[i := c] ! j))} =
      {j. j < length (chunks p) \<and> \<not> is_used (header (chunks p ! j))}" for s
    using u by auto
  show ?thesis
    using inv t u ok unfolding pool_inv_def Let_def by (simp add: eq pool_blocks_def)
qed

lemma chunk_blocks_insert:
  assumes "is_used (header c)" "is_used (header c')" "SlabSize c' = SlabSize c"
    "nr_entries (header c') = nr_entries (header c)" "taken c' = insert e (taken c)"
  shows "chunk_blocks i c' = insert (i * kPoolChunkSize + entry_off c e, SlabSize c) (chunk_blocks i c)"
  using assms by (simp add: chunk_blocks_def entry_off_def data_off_def)

lemma chunk_blocks_remove:
  assumes "chunk_ok c" "is_used (header c')" "SlabSize c' = SlabSize c"
    "nr_entries (header c') = nr_entries (header c)" "taken c' = taken c - {e}"
  shows "chunk_blocks i c' = chunk_blocks i c - {(i * kPoolChunkSize + entry_off c e, SlabSize c)}"
proof -
  have "entry_off c' = entry_off c" using assms(3,4) by (simp add: fun_eq_iff entry_off_def data_off_def)
  then show ?thesis using assms chunk_okD(1) [OF assms(1)] entry_off_inj [OF assms(1)]
    by (auto simp: chunk_blocks_def)
qed

lemma malloc_in_ok:
  assumes inv: "pool_inv p" and i: "i < length (chunks p)" "is_used (header (chunks p ! i))"
    and nf: "\<not> Chunk_Full (chunks p ! i)"
  defines "s \<equiv> SlabSize (chunks p ! i)"
  obtains a c where "malloc_in i p = Returns (Some a, p\<lparr>chunks := (chunks p)[i := c]\<rparr>)"
    "(a, s) \<notin> pool_blocks p"
    "pool_inv (p\<lparr>chunks := (chunks p)[i := c], total_malloc := total_malloc p + 1\<rparr>)"
    "pool_blocks (p\<lparr>chunks := (chunks p)[i := c]\<rparr>) = insert (a, s) (pool_blocks p)"
proof -
  have ok: "chunk_ok (chunks p ! i)" using pool_invD(1) [OF inv i] .
  obtain e c where c: "Chunk_Malloc (chunks p ! i) = Returns (Some (entry_off (chunks p ! i) e), c)" "chunk_ok c"
    "e \<notin> taken (chunks p ! i)" "taken c = insert e (taken (chunks p ! i))" "SlabSize c = SlabSize (chunks p ! i)"
    "nr_entries (header c) = nr_entries (header (chunks p ! i))" "e < nr_entries (header (chunks p ! i))"
    using Chunk_Malloc_ok [OF ok nf] by metis
  let ?a = "i * kPoolChunkSize + entry_off (chunks p ! i) e" and ?p = "p\<lparr>chunks := (chunks p)[i := c]\<rparr>"
  have bl: "pool_blocks ?p = insert (?a, s) (pool_blocks p)"
    unfolding pool_blocks_update [OF i(1)] pool_blocks_at [OF i(1)]
    using chunk_blocks_insert [OF i(2) chunk_okD(1) [OF c(2)] c(5,6,4)] by (simp add: s_def)
  have "(?a, s) \<in> chunk_blocks i c"
    using c(4) chunk_okD(1) [OF c(2)] c(5,6) by (simp add: chunk_blocks_def s_def entry_off_def data_off_def)
  then have g: "GetChunkID ?a = i" using block_range(5) [OF c(2)] by (simp add: GetChunkID_def)
  have fresh: "(?a, s) \<notin> pool_blocks p"
  proof
    assume "(?a, s) \<in> pool_blocks p"
    from pool_blocksE [OF inv this] obtain f where "f \<in> taken (chunks p ! i)"
      "?a = i * kPoolChunkSize + entry_off (chunks p ! i) f" unfolding g by metis
    then show False using c(3) entry_off_inj [OF ok] by simp
  qed
  have "pool_inv (p\<lparr>chunks := (chunks p)[i := c], total_malloc := total_malloc p + 1\<rparr>)"
    by (rule pool_inv_update [OF inv i c(2,5)]) (use bl fresh pool_invD(7) [OF inv] in simp)
  moreover have "malloc_in i p = Returns (Some ?a, ?p)" using c(1) by (simp add: malloc_in_def)
  ultimately show thesis using that bl fresh by blast
qed

section \<open>Taking a new chunk\<close>

lemma use_front:
  assumes inv: "pool_inv p" and fr: "free_chunks p = front # rest"
    and u: "Use slab (chunks p ! front) = Returns c" and q: "size_to_chunks p slab = Some q"
  defines "p' \<equiv> p\<lparr>free_chunks := rest, chunks := (chunks p)[front := c],
    size_to_chunks := (size_to_chunks p)(slab \<mapsto> q @ [front]),
    size_to_last_used_chunk := (size_to_last_used_chunk p)(slab \<mapsto> front)\<rparr>"
  shows "pool_inv p'" "pool_blocks p' = pool_blocks p" "front < length (chunks p)"
    "chunks p' ! front = c" "\<not> Chunk_Full c"
proof -
  note U = Use_Returns [OF u] and free = pool_invD(2,3) [OF inv]
  have f: "front < length (chunks p)" "\<not> is_used (header (chunks p ! front))" "front \<notin> set rest"
    using free unfolding fr by auto
  then show "front < length (chunks p)" "chunks p' ! front = c" by (simp_all add: p'_def)
  show "\<not> Chunk_Full c" using Chunk_Full_iff [OF U(1)] U(3) chunk_okD(4) [OF U(1)] by simp
  have cu: "is_used (header c)" using chunk_okD(1) [OF U(1)] .
  show bl: "pool_blocks p' = pool_blocks p"
    using pool_blocks_update [OF f(1), of c] pool_blocks_at [OF f(1)] f(2) U(3) cu
    by (simp add: p'_def chunk_blocks_def pool_blocks_def)
  have n: "chunks p' ! j = (if j = front then c else chunks p ! j)" if "j < length (chunks p)" for j
    using that by (simp add: p'_def nth_list_update_any)
  have pf: "length (chunks p') = length (chunks p)" "free_chunks p' = rest" "total_malloc p' = total_malloc p"
    "size_to_chunks p' = (size_to_chunks p)(slab \<mapsto> q @ [front])"
    "size_to_last_used_chunk p' = (size_to_last_used_chunk p)(slab \<mapsto> front)" by (simp_all add: p'_def)
  have used: "{j. j < length (chunks p) \<and> is_used (header (chunks p' ! j)) \<and> SlabSize (chunks p' ! j) = s} =
      {j. j < length (chunks p) \<and> is_used (header (chunks p ! j)) \<and> SlabSize (chunks p ! j) = s} \<union>
      (if s = slab then {front} else {})" for s
    using n f(1,2) cu U(2) by (auto split: if_splits)
  have "{j. j < length (chunks p) \<and> \<not> is_used (header (chunks p' ! j))} =
      {j. j < length (chunks p) \<and> \<not> is_used (header (chunks p ! j))} - {front}"
    using n cu by (auto split: if_splits)
  also have "\<dots> = set rest" unfolding free(2) [symmetric] fr using f(3) by auto
  finally have fs: "set (free_chunks p') = {j. j < length (chunks p) \<and> \<not> is_used (header (chunks p' ! j))}"
    by (simp only: pf)
  have "chunk_ok (chunks p' ! j)" if "j < length (chunks p)" "is_used (header (chunks p' ! j))" for j
    using that n [OF that(1)] U(1) pool_invD(1) [OF inv that(1)] by (auto split: if_splits)
  moreover have "SlabSize (chunks p' ! j) \<in> dom (size_to_chunks p')" if "j < length (chunks p)" "is_used (header (chunks p' ! j))" for j
    using that n [OF that(1)] U(2) pool_invD(4) [OF inv that(1)] by (auto simp: pf split: if_splits)
  moreover have "set (the (size_to_chunks p' s)) =
      {j. j < length (chunks p) \<and> is_used (header (chunks p' ! j)) \<and> SlabSize (chunks p' ! j) = s}"
    if sd: "s \<in> dom (size_to_chunks p')" for s
  proof (cases "s = slab")
    case True
    then show ?thesis unfolding used using pool_invD(5) [OF inv q] by (simp add: pf)
  next
    case False
    then obtain q' where "size_to_chunks p s = Some q'" using sd by (auto simp: pf)
    then show ?thesis unfolding used using pool_invD(5) [OF inv, of s q'] False by (simp add: pf)
  qed
  moreover have "i < length (chunks p) \<and> is_used (header (chunks p' ! i)) \<and> SlabSize (chunks p' ! i) = s"
    if "size_to_last_used_chunk p' s = Some i" for s i
    using that pool_invD(6) [OF inv, of s i] f(1,2) n [of i] U(2) cu by (auto simp: pf split: if_splits)
  moreover have "distinct (free_chunks p')" using free(1) unfolding fr by (simp add: pf)
  moreover have "total_malloc p' = int (card (pool_blocks p'))" using pool_invD(7) [OF inv] bl by (simp add: pf)
  ultimately show "pool_inv p'" unfolding pool_inv_def Let_def pf(1) using fs by auto
qed

section \<open>New\<close>

definition grown :: "nat \<times> nat \<Rightarrow> PersistMemoryPool \<Rightarrow> PersistMemoryPool \<Rightarrow> bool" where
  "grown b p p' \<longleftrightarrow> pool_inv p' \<and> b \<notin> pool_blocks p \<and> pool_blocks p' = insert b (pool_blocks p) \<and>
     allocated_slab_sizes p' = allocated_slab_sizes p \<and> pool_ints p' = pool_ints p \<and>
     dom (size_to_chunks p') = dom (size_to_chunks p) \<and> length (chunks p') = length (chunks p)"

lemma malloc_in_grown:
  assumes "pool_inv p" and "i < length (chunks p)" "is_used (header (chunks p ! i))" and "\<not> Chunk_Full (chunks p ! i)"
  obtains a p' where "malloc_in i p = Returns (Some a, p')"
    "grown (a, SlabSize (chunks p ! i)) p (p'\<lparr>total_malloc := total_malloc p' + 1\<rparr>)"
proof -
  obtain a c where c: "malloc_in i p = Returns (Some a, p\<lparr>chunks := (chunks p)[i := c]\<rparr>)"
    "(a, SlabSize (chunks p ! i)) \<notin> pool_blocks p"
    "pool_inv (p\<lparr>chunks := (chunks p)[i := c], total_malloc := total_malloc p + 1\<rparr>)"
    "pool_blocks (p\<lparr>chunks := (chunks p)[i := c]\<rparr>) = insert (a, SlabSize (chunks p ! i)) (pool_blocks p)"
    using malloc_in_ok [OF assms] .
  then show thesis using that [of a "p\<lparr>chunks := (chunks p)[i := c]\<rparr>"] by (simp add: grown_def pool_blocks_def)
qed

definition room :: "nat \<Rightarrow> PersistMemoryPool \<Rightarrow> bool" where
  "room slab p \<longleftrightarrow> free_chunks p \<noteq> [] \<or>
     (\<exists>c \<in> set (chunks p). is_used (header c) \<and> SlabSize c = slab \<and> \<not> Chunk_Full c)"

lemma new_chunk_ok:
  assumes inv: "pool_inv p" and slab: "slab \<in> dom (size_to_chunks p)" "0 < slab" "slab \<le> 32767" and "room slab p"
  obtains a p' where "new_chunk slab p = Returns (Some a, p')"
    "grown (a, slab) p (p'\<lparr>total_malloc := total_malloc p' + 1\<rparr>)"
proof -
  obtain q where q: "size_to_chunks p slab = Some q" using slab(1) by auto
  show thesis
  proof (cases "free_chunks p")
    case Nil
    then obtain c where c: "c \<in> set (chunks p)" "is_used (header c)" "SlabSize c = slab" "\<not> Chunk_Full c"
      using assms(5) by (auto simp: room_def)
    have "\<exists>i \<in> set q. \<not> Chunk_Full (chunks p ! i)"
      using c unfolding pool_invD(5) [OF inv q] in_set_conv_nth by blast
    then obtain i where i: "find (\<lambda>i. \<not> Chunk_Full (chunks p ! i)) q = Some i"
      using find_None_all [of "\<lambda>i. \<not> Chunk_Full (chunks p ! i)" q] by blast
    then have iq: "i < length (chunks p)" "is_used (header (chunks p ! i))" "SlabSize (chunks p ! i) = slab"
      "\<not> Chunk_Full (chunks p ! i)" using find_Some_first [OF i] pool_invD(5) [OF inv q] by auto
    show thesis using malloc_in_grown [OF inv iq(1,2,4)] that i q Nil iq(3) by (auto simp: new_chunk_def)
  next
    case (Cons front rest)
    obtain c where u: "Use slab (chunks p ! front) = Returns c" using Use_ex [OF slab(2,3)] by blast
    let ?p = "p\<lparr>free_chunks := rest, chunks := (chunks p)[front := c],
      size_to_chunks := (size_to_chunks p)(slab \<mapsto> q @ [front]),
      size_to_last_used_chunk := (size_to_last_used_chunk p)(slab \<mapsto> front)\<rparr>"
    note f = use_front [OF inv Cons u q] and U = Use_Returns [OF u]
    have fi: "front < length (chunks ?p)" "is_used (header (chunks ?p ! front))" "\<not> Chunk_Full (chunks ?p ! front)"
      using f(3,4,5) chunk_okD(1) [OF U(1)] by simp_all
    obtain a p' where a: "malloc_in front ?p = Returns (Some a, p')"
      "grown (a, SlabSize (chunks ?p ! front)) ?p (p'\<lparr>total_malloc := total_malloc p' + 1\<rparr>)"
      using malloc_in_grown [OF f(1) fi] .
    have "grown (a, slab) p (p'\<lparr>total_malloc := total_malloc p' + 1\<rparr>)"
      using a(2) f(2,3,4) U(2) slab(1) by (simp add: grown_def insert_absorb)
    moreover have "new_chunk slab p = Returns (Some a, p')" using a(1) u q Cons by (simp add: new_chunk_def)
    ultimately show thesis using that by blast
  qed
qed

lemma NewInternal_ok:
  assumes inv: "pool_inv p" and slab: "slab \<in> dom (size_to_chunks p)" "0 < slab" "slab \<le> 32767" and "room slab p"
  obtains a p' where "NewInternal slab p = Returns (a, p')" "grown (a, slab) p p'"
proof (cases "\<exists>i. size_to_last_used_chunk p slab = Some i \<and> \<not> Chunk_Full (chunks p ! i)")
  case True
  then obtain i where i: "size_to_last_used_chunk p slab = Some i" "\<not> Chunk_Full (chunks p ! i)" by blast
  note l = pool_invD(6) [OF inv i(1)]
  obtain a p' where "malloc_in i p = Returns (Some a, p')" "grown (a, SlabSize (chunks p ! i)) p (p'\<lparr>total_malloc := total_malloc p' + 1\<rparr>)"
    using malloc_in_grown [OF inv _ _ i(2)] l by blast
  then show thesis using that i l by (simp add: NewInternal_def)
next
  case False
  then have "NewInternal slab p = run_bind (new_chunk slab p) (\<lambda>(return_ptr, p).
      case return_ptr of None \<Rightarrow> Aborts (CheckFailed ''return_ptr'')
      | Some a \<Rightarrow> Returns (a, p\<lparr>total_malloc := total_malloc p + 1\<rparr>))"
    by (auto simp: NewInternal_def split: option.splits)
  moreover obtain a p' where "new_chunk slab p = Returns (Some a, p')"
    "grown (a, slab) p (p'\<lparr>total_malloc := total_malloc p' + 1\<rparr>)" using new_chunk_ok [OF assms] .
  ultimately show thesis using that by simp
qed

lemma NewInternal_oom:
  assumes inv: "pool_inv p" and slab: "slab \<in> dom (size_to_chunks p)" and "\<not> room slab p"
  shows "NewInternal slab p = Aborts (LogFatal ''Persist Memory Pool OOM'')"
proof -
  obtain q where q: "size_to_chunks p slab = Some q" using slab by auto
  have full: "Chunk_Full (chunks p ! i)" if "i < length (chunks p)" "is_used (header (chunks p ! i))" "SlabSize (chunks p ! i) = slab" for i
    using assms(3) that by (auto simp: room_def)
  then have "find (\<lambda>i. \<not> Chunk_Full (chunks p ! i)) q = None"
    unfolding find_None_all using pool_invD(5) [OF inv q] by auto
  moreover have "free_chunks p = []" using assms(3) by (simp add: room_def)
  ultimately have "new_chunk slab p = Aborts (LogFatal ''Persist Memory Pool OOM'')"
    using q by (simp add: new_chunk_def)
  moreover have "Chunk_Full (chunks p ! i)" if "size_to_last_used_chunk p slab = Some i" for i
    using full pool_invD(6) [OF inv that] by blast
  ultimately show ?thesis by (auto simp: NewInternal_def split: option.splits)
qed

end
