(* ===== verification/Mem_Api.thy ===== *)
theory Mem_Api
  imports Mem_Pool_Ops
begin

text \<open>
  The contract of an allocator (\<open>src/src/memory/malloc.h\<close>: \<open>MallocApi\<close>) and the memory pool as an
  implementation of it, in both modes.
\<close>

section \<open>The contract\<close>

text \<open>
  A block is an address with the number of usable bytes. \<open>New\<close> may end the process when memory
  runs out; if it returns, the block is new and large enough.
\<close>

locale malloc_api =
  fixes inv :: "'s \<Rightarrow> bool" and blocks :: "'s \<Rightarrow> (nat \<times> nat) set"
    and new :: "nat \<Rightarrow> 's \<Rightarrow> (nat \<times> 's) run" and free :: "nat \<Rightarrow> 's \<Rightarrow> (bool \<times> 's) run"
  assumes new_block: "inv p \<Longrightarrow> new sz p = Returns (a, p') \<Longrightarrow>
      inv p' \<and> (\<exists>n \<ge> sz. (a, n) \<notin> blocks p \<and> blocks p' = insert (a, n) (blocks p))"
    and free_block: "inv p \<Longrightarrow> (a, n) \<in> blocks p \<Longrightarrow>
      \<exists>p'. free a p = Returns (True, p') \<and> inv p' \<and> blocks p' = blocks p - {(a, n)}"
    and block_unique: "inv p \<Longrightarrow> (a, n) \<in> blocks p \<Longrightarrow> (a, m) \<in> blocks p \<Longrightarrow> n = m"
    and no_overlap: "inv p \<Longrightarrow> (a, n) \<in> blocks p \<Longrightarrow> (b, m) \<in> blocks p \<Longrightarrow> a \<noteq> b \<Longrightarrow>
      a + n \<le> b \<or> b + m \<le> a"

context malloc_api
begin

lemma new_addr:
  assumes "inv p" and "new sz p = Returns (a, p')"
  shows "inv p'" "a \<notin> fst ` blocks p" "fst ` blocks p' = insert a (fst ` blocks p)"
    "\<exists>n \<ge> sz. blocks p' = insert (a, n) (blocks p)"
proof -
  obtain n where n: "inv p'" "n \<ge> sz" "(a, n) \<notin> blocks p" "blocks p' = insert (a, n) (blocks p)"
    using new_block [OF assms] by blast
  show "inv p'" "fst ` blocks p' = insert a (fst ` blocks p)" "\<exists>n \<ge> sz. blocks p' = insert (a, n) (blocks p)"
    using n by auto
  show "a \<notin> fst ` blocks p"
  proof
    assume "a \<in> fst ` blocks p"
    then obtain m where "(a, m) \<in> blocks p" by auto
    then show False using block_unique [OF n(1), of a n m] n(3,4) by auto
  qed
qed

lemma free_addr:
  assumes "inv p" and "a \<in> fst ` blocks p"
  obtains p' where "free a p = Returns (True, p')" "inv p'" "fst ` blocks p' = fst ` blocks p - {a}"
    "blocks p' = {b \<in> blocks p. fst b \<noteq> a}"
proof -
  obtain n where n: "(a, n) \<in> blocks p" using assms(2) by auto
  from free_block [OF assms(1) n] obtain p' where p': "free a p = Returns (True, p')" "inv p'"
    "blocks p' = blocks p - {(a, n)}" by blast
  have "blocks p - {(a, n)} = {b \<in> blocks p. fst b \<noteq> a}" by (auto dest: block_unique [OF assms(1) n])
  moreover have "fst ` {b \<in> blocks p. fst b \<noteq> a} = fst ` blocks p - {a}" by auto
  ultimately show thesis using that [OF p'(1,2)] p'(3) by simp
qed

end

section \<open>The pool in both modes\<close>

lemma slab_bound:
  assumes "chunk_ok c"
  shows "SlabSize c \<le> 32767"
proof -
  note D = chunk_okD [OF assms]
  have "64 \<le> nr_entries (header c)"
    using D(4-6) by (auto simp: bitmap_wf_def elim!: dvdE simp flip: dvd_eq_mod_eq_0)
  then have "64 * SlabSize c \<le> nr_entries (header c) * SlabSize c" by (rule mult_le_mono1)
  moreover have "nr_entries (header c) * SlabSize c + 24 \<le> kPoolChunkSize"
    using D(9) by (simp add: entry_off_def data_off_def)
  ultimately have "64 * SlabSize c + 24 \<le> kPoolChunkSize" by linarith
  then show ?thesis by (simp add: kPoolChunkSize_def)
qed

lemma NewInternal_valid:
  assumes inv: "pool_inv p" and r: "NewInternal slab p = Returns r"
  shows "slab \<in> dom (size_to_chunks p)" "0 < slab" "slab \<le> 32767" "room slab p"
proof -
  have used: "SlabSize (chunks p ! i) \<in> dom (size_to_chunks p) \<and> 0 < SlabSize (chunks p ! i) \<and> SlabSize (chunks p ! i) \<le> 32767"
    if "i < length (chunks p)" "is_used (header (chunks p ! i))" for i
    using pool_invD(1,4) [OF inv that] chunk_okD(3) slab_bound by blast
  have "slab \<in> dom (size_to_chunks p) \<and> 0 < slab \<and> slab \<le> 32767"
  proof (cases "size_to_last_used_chunk p slab")
    case (Some i)
    then show ?thesis using pool_invD(6) [OF inv Some] used by blast
  next
    case None
    then obtain r' where n: "new_chunk slab p = Returns r'"
      using r by (auto simp: NewInternal_def run_simps)
    show ?thesis
    proof (cases "free_chunks p")
      case Nil
      then obtain q i where q: "size_to_chunks p slab = Some q" "find (\<lambda>i. \<not> Chunk_Full (chunks p ! i)) q = Some i"
        using n by (auto simp: new_chunk_def split: option.splits)
      then have "i \<in> set q" using find_Some_first by fastforce
      then show ?thesis using pool_invD(5) [OF inv q(1)] used by auto
    next
      case (Cons front rest)
      then obtain c q where c: "Use slab (chunks p ! front) = Returns c" "size_to_chunks p slab = Some q"
        using n by (auto simp: new_chunk_def run_simps split: option.splits)
      note U = Use_Returns [OF c(1)]
      show ?thesis using c(2) slab_bound [OF U(1)] chunk_okD(3) [OF U(1)] U(2) by auto
    qed
  qed
  then show s: "slab \<in> dom (size_to_chunks p)" "0 < slab" "slab \<le> 32767" by auto
  show "room slab p" using NewInternal_oom [OF inv s(1)] r by auto
qed

lemma NewInternal_Returns:
  assumes inv: "pool_inv p" and r: "NewInternal slab p = Returns (a, p')"
  shows "grown (a, slab) p p'"
proof -
  obtain b q where "NewInternal slab p = Returns (b, q)" "grown (b, slab) p q"
    using NewInternal_ok [OF inv NewInternal_valid [OF inv r]] .
  then show ?thesis using r by simp
qed

lemma Free_perfect:
  assumes inv: "pool_inv p" and b: "(a, s) \<in> pool_blocks p"
  obtains p' where "Free True a p = Returns (True, p')" "pool_inv p'" "pool_blocks p' = pool_blocks p - {(a, s)}"
    "allocated_slab_sizes p' = allocated_slab_sizes p" "pool_ints p' = pool_ints p"
proof -
  define i where "i = GetChunkID a"
  obtain e where e: "i < length (chunks p)" "chunk_ok (chunks p ! i)" "e \<in> taken (chunks p ! i)"
    "s = SlabSize (chunks p ! i)" "a = i * kPoolChunkSize + entry_off (chunks p ! i) e"
    using pool_blocksE [OF inv b] unfolding i_def by metis
  obtain c where c: "Chunk_Free (entry_off (chunks p ! i) e) (chunks p ! i) = Returns c" "chunk_ok c"
    "taken c = taken (chunks p ! i) - {e}" "SlabSize c = SlabSize (chunks p ! i)"
    "nr_entries (header c) = nr_entries (header (chunks p ! i))" using Chunk_Free_ok [OF e(2,3)] by metis
  let ?p = "p\<lparr>chunks := (chunks p)[i := c], total_malloc := total_malloc p - 1\<rparr>"
  have "(a, s) \<notin> (\<Union>j \<in> {..<length (chunks p)} - {i}. chunk_blocks j (chunks p ! j))"
  proof
    assume "(a, s) \<in> (\<Union>j \<in> {..<length (chunks p)} - {i}. chunk_blocks j (chunks p ! j))"
    then obtain j where j: "j < length (chunks p)" "j \<noteq> i" "(a, s) \<in> chunk_blocks j (chunks p ! j)" by auto
    then have "chunk_ok (chunks p ! j)" using pool_invD(1) [OF inv j(1)] by (auto simp: chunk_blocks_def split: if_splits)
    from block_range(5) [OF this j(3)] show False using j(2) by (simp add: i_def GetChunkID_def)
  qed
  then have bl: "pool_blocks (p\<lparr>chunks := (chunks p)[i := c]\<rparr>) = pool_blocks p - {(a, s)}"
    unfolding pool_blocks_update [OF e(1)] pool_blocks_at [OF e(1)]
      chunk_blocks_remove [OF e(2) chunk_okD(1) [OF c(2)] c(4,5,3)] e(4,5) by auto
  have "int (card (pool_blocks p - {(a, s)})) = total_malloc p - 1"
    using pool_invD(7) [OF inv] card_Suc_Diff1 [OF finite_pool_blocks b] by simp
  then have "pool_inv ?p"
    using pool_inv_update [OF inv e(1) chunk_okD(1) [OF e(2)] c(2,4)] bl by simp
  moreover have "a - i * kPoolChunkSize = entry_off (chunks p ! i) e" using e(5) by simp
  then have "Free True a p = Returns (True, ?p)" using c(1) e(1) by (simp add: Free_def i_def [symmetric])
  ultimately show thesis using that bl by (simp add: pool_blocks_def)
qed

text \<open>The blocks as the users of the pool see them: without the bytes for the size.\<close>

definition user_blocks :: "bool \<Rightarrow> PersistMemoryPool \<Rightarrow> (nat \<times> nat) set" where
  "user_blocks perfect_fit p =
     (if perfect_fit then pool_blocks p
      else (\<lambda>(a, s). (a + kMetaDataSize, s - kMetaDataSize)) ` pool_blocks p)"

lemma pool_block_unique:
  assumes "pool_inv p" and "(a, s) \<in> pool_blocks p" and "(a, t) \<in> pool_blocks p"
  shows "s = t"
  using pool_blocksE [OF assms(1,2)] pool_blocksE [OF assms(1,3)] by metis

lemma user_blocks_False:
  assumes "pool_inv p"
  shows "(a, n) \<in> user_blocks False p \<longleftrightarrow> kMetaDataSize \<le> a \<and>
    (\<exists>s. (a - kMetaDataSize, s) \<in> pool_blocks p \<and> n = s - kMetaDataSize)"
  by (force simp: user_blocks_def image_iff)

lemma pool_inv_ints [simp]: "pool_inv (p\<lparr>pool_ints := m\<rparr>) = pool_inv p" "pool_blocks (p\<lparr>pool_ints := m\<rparr>) = pool_blocks p"
  by (simp_all add: pool_inv_def pool_blocks_def)

lemma New_grown:
  assumes inv: "pool_inv p" and r: "New perfect_fit sz p = Returns (a, p')"
  obtains (exact) "perfect_fit" "grown (a, sz) p p'"
  | (rounded) slab b q where "\<not> perfect_fit" "kMetaDataSize + sz \<le> slab" "grown (b, slab) p q"
      "a = b + kMetaDataSize" "p' = q\<lparr>pool_ints := (pool_ints q)(b \<mapsto> int sz)\<rparr>"
proof (cases perfect_fit)
  case True
  then show thesis using exact NewInternal_Returns [OF inv] r by (simp add: New_def)
next
  case False
  then obtain slab b q where q: "find (\<lambda>s. kMetaDataSize + sz \<le> s) (allocated_slab_sizes p) = Some slab"
    "NewInternal slab p = Returns (b, q)" "a = b + kMetaDataSize" "p' = q\<lparr>pool_ints := (pool_ints q)(b \<mapsto> int sz)\<rparr>"
    using r by (auto simp: New_def run_simps split: option.splits)
  then show thesis using rounded [OF False] NewInternal_Returns [OF inv q(2)] find_Some_first [OF q(1)] by blast
qed

lemma New_Returns:
  assumes inv: "pool_inv p" and r: "New perfect_fit sz p = Returns (a, p')"
  shows "pool_inv p' \<and> (\<exists>n \<ge> sz. (a, n) \<notin> user_blocks perfect_fit p \<and>
    user_blocks perfect_fit p' = insert (a, n) (user_blocks perfect_fit p))"
proof (cases rule: New_grown [OF assms, case_names exact rounded])
  case exact
  then show ?thesis by (auto simp: grown_def user_blocks_def)
next
  case (rounded slab b q)
  note g = rounded(3) [unfolded grown_def]
  have "sz \<le> slab - kMetaDataSize" using rounded(2) by simp
  moreover have "(a, slab - kMetaDataSize) \<notin> user_blocks False p"
  proof
    assume "(a, slab - kMetaDataSize) \<in> user_blocks False p"
    then obtain t where "(b, t) \<in> pool_blocks p" using rounded(4) by (auto simp: user_blocks_False [OF inv])
    then show False using g pool_block_unique [of q b t slab] by auto
  qed
  moreover have "user_blocks False p' = insert (a, slab - kMetaDataSize) (user_blocks False p)"
    using g rounded(4,5) by (simp add: user_blocks_def)
  ultimately show ?thesis using g rounded(1,5) by auto
qed

lemma Free_Returns:
  assumes inv: "pool_inv p" and b: "(a, n) \<in> user_blocks perfect_fit p"
  shows "\<exists>p'. Free perfect_fit a p = Returns (True, p') \<and> pool_inv p' \<and>
    user_blocks perfect_fit p' = user_blocks perfect_fit p - {(a, n)}"
proof (cases perfect_fit)
  case True
  then have pb: "(a, n) \<in> pool_blocks p" using b by (simp add: user_blocks_def)
  obtain p' where "Free True a p = Returns (True, p')" "pool_inv p'" "pool_blocks p' = pool_blocks p - {(a, n)}"
    using Free_perfect [OF inv pb] .
  then show ?thesis using True by (simp add: user_blocks_def)
next
  case False
  then obtain s where s: "(a - kMetaDataSize, s) \<in> pool_blocks p" "kMetaDataSize \<le> a" "n = s - kMetaDataSize"
    using b user_blocks_False [OF inv] by auto
  obtain p' where p': "Free True (a - kMetaDataSize) p = Returns (True, p')" "pool_inv p'"
    "pool_blocks p' = pool_blocks p - {(a - kMetaDataSize, s)}" using Free_perfect [OF inv s(1)] .
  have "user_blocks False p' = user_blocks False p - {(a, n)}"
  proof (rule set_eqI)
    fix x :: "nat \<times> nat"
    obtain c m where x: "x = (c, m)" by fastforce
    show "x \<in> user_blocks False p' \<longleftrightarrow> x \<in> user_blocks False p - {(a, n)}"
      unfolding x Diff_iff user_blocks_False [OF inv] user_blocks_False [OF p'(2)] p'(3) using s
      by (auto dest: pool_block_unique [OF inv s(1)])
  qed
  moreover have "Free False a p = Free True (a - kMetaDataSize) p" using s(2) by (simp add: Free_def)
  ultimately show ?thesis using p' False by auto
qed

interpretation pool: malloc_api pool_inv "user_blocks perfect_fit" "New perfect_fit" "Free perfect_fit" for perfect_fit
proof (unfold_locales, goal_cases)
  case (1 p sz a p')
  then show ?case by (rule New_Returns)
next
  case (2 p a n)
  then show ?case by (rule Free_Returns)
next
  case (3 p a n m)
  then show ?case
    using user_blocks_False [OF 3(1)]
    by (cases perfect_fit) (auto simp: user_blocks_def dest: pool_block_unique [OF 3(1)])
next
  case (4 p a n b m)
  show ?case
  proof (cases perfect_fit)
    case True
    then show ?thesis using 4 pool_blocks_disjoint [OF 4(1)] by (simp add: user_blocks_def)
  next
    case False
    then obtain s t where s: "(a - kMetaDataSize, s) \<in> pool_blocks p" "kMetaDataSize \<le> a" "n = s - kMetaDataSize"
      "(b - kMetaDataSize, t) \<in> pool_blocks p" "kMetaDataSize \<le> b" "m = t - kMetaDataSize"
      using 4(2,3) user_blocks_False [OF 4(1)] by auto
    have "a - kMetaDataSize \<noteq> b - kMetaDataSize" using s(2,5) 4(4) by simp
    then have "a - kMetaDataSize + s \<le> b - kMetaDataSize \<or> b - kMetaDataSize + t \<le> a - kMetaDataSize"
      using pool_blocks_disjoint [OF 4(1) s(1,4)] by blast
    then show ?thesis using s by linarith
  qed
qed

end
