(* ===== verification/Mem_Recover.thy ===== *)
theory Mem_Recover
  imports Mem_Api
begin

text \<open>
  What the constructor of the memory pool builds: an empty pool over a new file, and over the file
  of a pool that was closed or crashed a pool with the same blocks.
\<close>

section \<open>Opening an existing file\<close>

definition header_ok :: "ChunkHeader \<Rightarrow> bool" where
  "header_ok h \<longleftrightarrow> 0 < slab_size h \<and> 0 < nr_entries h \<and> bitmap_wf (bitmap h) \<and> bm_n (bitmap h) = nr_entries h \<and>
     24 + nr_entries h div 64 * 8 + nr_entries h * slab_size h \<le> kPoolChunkSize"

definition recovered :: "ChunkHeader \<Rightarrow> nat \<Rightarrow> PoolChunk" where
  "recovered h i =
     (if is_used h then \<lparr>header = h, data_ptr = Some (24 + nr_entries h div 64 * 8), is_recovered = True,
        allocated_entries = int (card (ones (bitmap h))), chunk_id = i\<rparr> else Chunk_new h i)"

lemma recovered_simps [simp]: "header (recovered h i) = h" "SlabSize (recovered h i) = slab_size h"
  by (simp_all add: recovered_def Chunk_new_def SlabSize_def)

lemma recovered_ok: "header_ok h \<Longrightarrow> is_used h \<Longrightarrow> chunk_ok (recovered h i)"
  by (simp add: header_ok_def chunk_ok_def entry_off_def data_off_def) (simp add: recovered_def)

lemma Recovery_new:
  "header_ok h \<Longrightarrow> is_used h \<Longrightarrow> Recovery (Chunk_new h i) = Returns (recovered h i)"
  using HeaderSize_eq [of "nr_entries h"]
  by (auto simp: Recovery_def Chunk_new_def header_ok_def bitmap_wf_def recovered_def NumberOfOnes_card)

text \<open>The pool after the first \<open>j\<close> rounds of the loop.\<close>

definition reopened :: "nat list \<Rightarrow> ChunkHeader list \<Rightarrow> (nat \<rightharpoonup> int) \<Rightarrow> nat \<Rightarrow> PersistMemoryPool" where
  "reopened slabs hs ints j =
     \<lparr>chunks = map (\<lambda>i. if i < j then recovered (hs ! i) i else Chunk_new (hs ! i) i) [0..<length hs],
      free_chunks = filter (\<lambda>i. \<not> is_used (hs ! i)) [0..<j],
      size_to_chunks = (\<lambda>s. if s \<in> set slabs
        then Some (filter (\<lambda>i. is_used (hs ! i) \<and> slab_size (hs ! i) = s) [0..<j]) else None),
      size_to_last_used_chunk = Map.empty, allocated_slab_sizes = sorted_list_of_set (set slabs),
      total_malloc = (\<Sum>i\<leftarrow>filter (\<lambda>i. is_used (hs ! i)) [0..<j]. int (card (ones (bitmap (hs ! i))))),
      pool_ints = ints\<rparr>"

lemma reopened_step:
  assumes "j < length hs" and "\<And>h. h \<in> set hs \<Longrightarrow> is_used h \<Longrightarrow> header_ok h \<and> slab_size h \<in> set slabs"
  shows "recover_loop (j # js) (reopened slabs hs ints j) = recover_loop js (reopened slabs hs ints (Suc j))"
proof (cases "is_used (hs ! j)")
  case True
  then have h: "header_ok (hs ! j)" "slab_size (hs ! j) \<in> set slabs" using assms by auto
  let ?p = "reopened slabs hs ints j"
  have c: "chunks ?p ! j = Chunk_new (hs ! j) j" using assms(1) by (simp add: reopened_def)
  have "(chunks ?p)[j := recovered (hs ! j) j] = chunks (reopened slabs hs ints (Suc j))"
    by (rule nth_equalityI) (auto simp: reopened_def nth_list_update_any less_Suc_eq)
  moreover have "size_to_chunks ?p (slab_size (hs ! j)) =
      Some (filter (\<lambda>i. is_used (hs ! i) \<and> slab_size (hs ! i) = slab_size (hs ! j)) [0..<j])"
    using h(2) by (simp add: reopened_def)
  moreover have "(size_to_chunks ?p)(slab_size (hs ! j) \<mapsto>
      filter (\<lambda>i. is_used (hs ! i) \<and> slab_size (hs ! i) = slab_size (hs ! j)) [0..<j] @ [j]) =
      size_to_chunks (reopened slabs hs ints (Suc j))"
    using h(2) True by (auto simp: reopened_def fun_eq_iff)
  moreover have "total_malloc ?p + allocated_entries (recovered (hs ! j) j) = total_malloc (reopened slabs hs ints (Suc j))"
    using True by (simp add: reopened_def recovered_def)
  moreover have "?p\<lparr>chunks := chunks (reopened slabs hs ints (Suc j)),
      size_to_chunks := size_to_chunks (reopened slabs hs ints (Suc j)),
      total_malloc := total_malloc (reopened slabs hs ints (Suc j))\<rparr> = reopened slabs hs ints (Suc j)"
    using True by (simp add: reopened_def)
  ultimately show ?thesis
    using True c Recovery_new [OF h(1) True, of j] by (simp add: SlabSize_def Chunk_new_def)
next
  case False
  let ?p = "reopened slabs hs ints j"
  have c: "chunks ?p ! j = Chunk_new (hs ! j) j" using assms(1) by (simp add: reopened_def)
  have "chunks ?p = chunks (reopened slabs hs ints (Suc j))"
    by (rule nth_equalityI) (use False in \<open>auto simp: reopened_def less_Suc_eq recovered_def\<close>)
  then have "?p\<lparr>free_chunks := free_chunks ?p @ [j]\<rparr> = reopened slabs hs ints (Suc j)"
    using False by (simp add: reopened_def cong: if_cong)
  then show ?thesis using False c by (simp add: Chunk_new_def)
qed

lemma reopened_loop:
  assumes "\<And>h. h \<in> set hs \<Longrightarrow> is_used h \<Longrightarrow> header_ok h \<and> slab_size h \<in> set slabs" and "j \<le> length hs"
  shows "recover_loop [j..<length hs] (reopened slabs hs ints j) = Returns (reopened slabs hs ints (length hs))"
  using assms(2)
proof (induction "length hs - j" arbitrary: j)
  case (Suc k)
  then have j: "j < length hs" by linarith
  have "recover_loop [j..<length hs] (reopened slabs hs ints j) = recover_loop [Suc j..<length hs] (reopened slabs hs ints (Suc j))"
    using reopened_step [OF j assms(1), where js = "[Suc j..<length hs]"] j by (simp add: upt_conv_Cons)
  also have "\<dots> = Returns (reopened slabs hs ints (length hs))"
    using Suc.hyps(1) [of "Suc j"] Suc.hyps(2) j by simp
  finally show ?case .
qed simp

lemma card_chunk_blocks:
  assumes "is_used (header c) \<Longrightarrow> chunk_ok c"
  shows "card (chunk_blocks i c) = (if is_used (header c) then card (taken c) else 0)"
proof -
  have "inj_on (\<lambda>e. (i * kPoolChunkSize + entry_off c e, SlabSize c)) (taken c)" if "chunk_ok c"
    using entry_off_inj [OF that] by (auto simp: inj_on_def)
  then show ?thesis using assms by (simp add: chunk_blocks_def card_image)
qed

lemma card_pool_blocks:
  assumes ok: "\<And>i. i < length (chunks p) \<Longrightarrow> is_used (header (chunks p ! i)) \<Longrightarrow> chunk_ok (chunks p ! i)"
  shows "card (pool_blocks p) =
    (\<Sum>i < length (chunks p). if is_used (header (chunks p ! i)) then card (taken (chunks p ! i)) else 0)"
proof -
  have "chunk_blocks i (chunks p ! i) \<inter> chunk_blocks j (chunks p ! j) = {}"
    if "i < length (chunks p)" "j < length (chunks p)" "i \<noteq> j" for i j
  proof (rule equals0I)
    fix b assume b: "b \<in> chunk_blocks i (chunks p ! i) \<inter> chunk_blocks j (chunks p ! j)"
    then have "chunk_ok (chunks p ! i)" "chunk_ok (chunks p ! j)"
      using ok that by (auto simp: chunk_blocks_def split: if_splits)
    then show False using block_range(5) [of _ "fst b" "snd b"] b that(3) by (metis IntE prod.collapse)
  qed
  then have "card (pool_blocks p) = (\<Sum>i < length (chunks p). card (chunk_blocks i (chunks p ! i)))"
    unfolding pool_blocks_def by (intro card_UN_disjoint) (auto simp: chunk_blocks_def)
  then show ?thesis using card_chunk_blocks ok by simp
qed

lemma sum_list_upt: "(\<Sum>i\<leftarrow>filter P [0..<n]. f i) = (\<Sum>i < n. if P i then f i else 0)" for f :: "nat \<Rightarrow> int"
  by (induction n) auto

lemma reopened_inv:
  assumes "\<And>h. h \<in> set hs \<Longrightarrow> is_used h \<Longrightarrow> header_ok h \<and> slab_size h \<in> set slabs"
  shows "pool_inv (reopened slabs hs ints (length hs))"
    "pool_blocks (reopened slabs hs ints (length hs)) = (\<Union>i < length hs. chunk_blocks i (recovered (hs ! i) i))"
proof -
  let ?p = "reopened slabs hs ints (length hs)"
  have c: "length (chunks ?p) = length hs" "\<And>i. i < length hs \<Longrightarrow> chunks ?p ! i = recovered (hs ! i) i"
    by (simp_all add: reopened_def)
  show bl: "pool_blocks ?p = (\<Union>i < length hs. chunk_blocks i (recovered (hs ! i) i))"
    by (simp add: pool_blocks_def c)
  have ok: "chunk_ok (chunks ?p ! i)" if "i < length (chunks ?p)" "is_used (header (chunks ?p ! i))" for i
    using that assms [of "hs ! i"] recovered_ok [of "hs ! i" i] c by simp
  have "total_malloc ?p = int (card (pool_blocks ?p))"
  proof -
    have "int (card (pool_blocks ?p)) = (\<Sum>i < length hs. if is_used (hs ! i) then int (card (ones (bitmap (hs ! i)))) else 0)"
      using card_pool_blocks [of ?p] ok by (simp add: c of_nat_sum if_distrib cong: if_cong)
    moreover have "total_malloc ?p = (\<Sum>i < length hs. if is_used (hs ! i) then int (card (ones (bitmap (hs ! i)))) else 0)"
      by (simp add: reopened_def sum_list_upt)
    ultimately show ?thesis by simp
  qed
  moreover have "SlabSize (chunks ?p ! i) \<in> dom (size_to_chunks ?p)" if "i < length hs" "is_used (header (chunks ?p ! i))" for i
    using that assms [of "hs ! i"] c by (simp add: reopened_def dom_def)
  moreover have "set (the (size_to_chunks ?p s)) = {i. i < length hs \<and> is_used (header (chunks ?p ! i)) \<and> SlabSize (chunks ?p ! i) = s}"
    if "s \<in> dom (size_to_chunks ?p)" for s
  proof -
    have "set (the (size_to_chunks ?p s)) = {i. i < length hs \<and> is_used (hs ! i) \<and> slab_size (hs ! i) = s}"
      using that by (auto simp: reopened_def split: if_splits)
    then show ?thesis using c by auto
  qed
  moreover have "set (free_chunks ?p) = {i. i < length hs \<and> \<not> is_used (header (chunks ?p ! i))}"
    using c by (auto simp: reopened_def)
  moreover have "distinct (free_chunks ?p)" "size_to_last_used_chunk ?p = Map.empty" by (simp_all add: reopened_def)
  ultimately show "pool_inv ?p" unfolding pool_inv_def Let_def using ok by (simp add: c(1))
qed

lemma chunk_ok_header: "chunk_ok c \<Longrightarrow> header_ok (header c)"
  by (simp add: chunk_ok_def header_ok_def entry_off_def data_off_def SlabSize_def)

lemma chunk_blocks_header: "chunk_blocks i (recovered (header c) i) = chunk_blocks i c"
  by (simp add: chunk_blocks_def entry_off_def data_off_def SlabSize_def recovered_def Chunk_new_def)

lemma size_map_init: "map_of (map (\<lambda>s. (s, [])) slabs) = (\<lambda>s. if s \<in> set slabs then Some [] else None)"
  by (induction slabs) (auto simp: fun_eq_iff)

lemma PersistMemoryPool_reopen:
  assumes "\<And>h. h \<in> set hs \<Longrightarrow> is_used h \<Longrightarrow> header_ok h \<and> slab_size h \<in> set slabs"
    and "length hs = memory_size div kPoolChunkSize" and "length slabs \<le> length hs"
  shows "PersistMemoryPool_new True memory_size slabs hs ints = Returns (reopened slabs hs ints (length hs))"
proof -
  have n: "(memory_size - memory_size mod kPoolChunkSize) div kPoolChunkSize = length hs"
    using assms(2) by (simp add: minus_mod_eq_mult_div kPoolChunkSize_def)
  have "reopened slabs hs ints 0 = \<lparr>chunks = map (\<lambda>i. Chunk_new (hs ! i) i) [0..<length hs], free_chunks = [],
      size_to_chunks = map_of (map (\<lambda>s. (s, [])) slabs), size_to_last_used_chunk = Map.empty,
      allocated_slab_sizes = sorted_list_of_set (set slabs), total_malloc = 0, pool_ints = ints\<rparr>"
    by (simp add: reopened_def size_map_init cong: if_cong)
  moreover have "recover_loop [0..<length hs] (reopened slabs hs ints 0) = Returns (reopened slabs hs ints (length hs))"
    by (rule reopened_loop [OF assms(1)]) simp_all
  ultimately show ?thesis
    using assms(3)
    unfolding PersistMemoryPool_new_def Let_def n by (simp add: Pool_Valid_def)
qed

section \<open>A new file\<close>

lemma PersistMemoryPool_first:
  assumes "length slabs \<le> memory_size div kPoolChunkSize" and "length hs = memory_size div kPoolChunkSize"
  obtains p where "PersistMemoryPool_new False memory_size slabs hs ints = Returns p" "pool_inv p"
    "pool_blocks p = {}" "dom (size_to_chunks p) = set slabs" "length (chunks p) = length hs"
    "free_chunks p = [0..<length hs]" "allocated_slab_sizes p = sorted_list_of_set (set slabs)"
proof -
  have n: "(memory_size - memory_size mod kPoolChunkSize) div kPoolChunkSize = length hs"
    using assms(2) by (simp add: minus_mod_eq_mult_div kPoolChunkSize_def)
  let ?p = "\<lparr>chunks = map Chunk_Initialize (map (\<lambda>i. Chunk_new (hs ! i) i) [0..<length hs]), free_chunks = [0..<length hs],
      size_to_chunks = map_of (map (\<lambda>s. (s, [])) slabs), size_to_last_used_chunk = Map.empty,
      allocated_slab_sizes = sorted_list_of_set (set slabs), total_malloc = 0, pool_ints = ints\<rparr>"
  have "PersistMemoryPool_new False memory_size slabs hs ints = Returns ?p"
    using assms unfolding PersistMemoryPool_new_def Let_def n by simp
  moreover have u: "\<not> is_used (header (chunks ?p ! i))" if "i < length hs" for i
    using that by (simp add: Chunk_Initialize_def)
  have bl: "pool_blocks ?p = {}" using u by (auto simp: pool_blocks_def chunk_blocks_def)
  moreover have "pool_inv ?p"
    unfolding pool_inv_def Let_def bl using u by (auto simp: size_map_init split: if_splits)
  ultimately show thesis using that [of ?p] by (auto simp: size_map_init dom_def)
qed

section \<open>Properties\<close>

text \<open>A pool of one chunk for entries of 32000 bytes.\<close>

definition demo_pool :: PersistMemoryPool where
  "demo_pool = \<lparr>chunks = [\<lparr>header = \<lparr>is_used = False, slab_size = 0, nr_entries = 0, bitmap = \<lparr>bm_n = 0, bits = []\<rparr>\<rparr>,
       data_ptr = None, is_recovered = False, allocated_entries = 0, chunk_id = 0\<rparr>],
     free_chunks = [0], size_to_chunks = [32000 \<mapsto> []], size_to_last_used_chunk = Map.empty,
     allocated_slab_sizes = [32000], total_malloc = 0, pool_ints = Map.empty\<rparr>"

lemma demo_pool_inv: "pool_inv demo_pool" "pool_blocks demo_pool = {}"
  by (auto simp: pool_inv_def demo_pool_def pool_blocks_def chunk_blocks_def)

lemma ctz_all_ones: "ctz (- 1 :: 'a::len word) = 0"
  by (simp add: ctz_def upt_conv_Cons)

lemma demo_New: "\<exists>p'. New True 32000 demo_pool = Returns (32, p')"
  by (simp add: New_def NewInternal_def new_chunk_def malloc_in_def Use_def demo_pool_def use_loop.simps
      HeaderSize_def BitMap_MemorySize_def sizeof_ChunkHeader_def sizeof_BitMap_def kPoolChunkSize_def
      Header_Initialize_def BitMap_new_def BitMap_ClearAll_def Chunk_Malloc_def Recovery_def SetZeroPos_def
      Entry_def SlabSize_def Let_def ctz_all_ones)

lemma New_counts:
  assumes "pool_inv p" and "New perfect_fit sz p = Returns (a, p')"
  shows "total_malloc p' = total_malloc p + 1"
proof -
  have "total_malloc q = total_malloc p + 1" if "grown b p q" for b q
    using that pool_invD(7) [of q] pool_invD(7) [OF assms(1)] by (simp add: grown_def)
  then show ?thesis by (cases rule: New_grown [OF assms, case_names exact rounded]) auto
qed

lemma New_size:
  assumes "pool_inv p" and "New perfect_fit sz p = Returns (a, p')" and "(a, n) \<in> user_blocks perfect_fit p'"
  shows "GetMallocSize perfect_fit a p' = Returns (int (if perfect_fit then n else sz))"
proof (cases rule: New_grown [OF assms(1,2), case_names exact rounded])
  case exact
  then have "(a, n) \<in> pool_blocks p'" "pool_inv p'" using assms(3) by (auto simp: user_blocks_def grown_def)
  from pool_blocksE [OF this(2,1)] show ?thesis using exact(1) by (auto simp: GetMallocSize_def)
next
  case (rounded slab b q)
  then show ?thesis by (simp add: GetMallocSize_def)
qed

lemma pool_block_range:
  assumes "pool_inv p" and "(a, s) \<in> pool_blocks p"
  shows "a + s \<le> length (chunks p) * kPoolChunkSize"
proof -
  let ?i = "GetChunkID a"
  obtain e where e: "?i < length (chunks p)" "chunk_ok (chunks p ! ?i)" "e \<in> taken (chunks p ! ?i)"
    "s = SlabSize (chunks p ! ?i)" "a = ?i * kPoolChunkSize + entry_off (chunks p ! ?i) e"
    using pool_blocksE [OF assms] .
  have "a + s \<le> ?i * kPoolChunkSize + kPoolChunkSize" using entry_range(1) [OF e(2,3)] e(4,5) by linarith
  also have "\<dots> \<le> length (chunks p) * kPoolChunkSize" using mult_le_mono1 [OF Suc_leI [OF e(1)], of kPoolChunkSize] by simp
  finally show ?thesis .
qed

lemma New_range:
  assumes "pool_inv p" and "New perfect_fit sz p = Returns (a, p')" and "(a, n) \<in> user_blocks perfect_fit p'"
  shows "a + n \<le> length (chunks p') * kPoolChunkSize"
proof (cases rule: New_grown [OF assms(1,2), case_names exact rounded])
  case exact
  then show ?thesis using pool_block_range [of p' a n] assms(3) by (simp add: user_blocks_def grown_def)
next
  case (rounded slab b q)
  then have q: "pool_inv q" "(b, slab) \<in> pool_blocks q" by (auto simp: grown_def)
  obtain t where "(b, t) \<in> pool_blocks q" "n = t - kMetaDataSize"
    using assms(3) rounded q by (auto simp: user_blocks_False)
  then have "n = slab - kMetaDataSize" using pool_block_unique [OF q] by simp
  then show ?thesis using pool_block_range [OF q] rounded(2,4,5) by simp
qed

text \<open>
  (C16) A block returned by \<open>New\<close> is large enough, lies inside the file, overlaps no block that is
  still in use, and its size can be read back: the slab size in a pool of exact sizes, the
  requested size in a pool that rounds up.
\<close>

theorem Pool_New_safe:
  assumes "pool_inv p" and "New perfect_fit sz p = Returns (a, p')"
  shows "\<exists>n \<ge> sz. pool_inv p' \<and> user_blocks perfect_fit p' = insert (a, n) (user_blocks perfect_fit p) \<and>
    (\<forall>(b, m) \<in> user_blocks perfect_fit p. a + n \<le> b \<or> b + m \<le> a) \<and>
    a + n \<le> length (chunks p') * kPoolChunkSize \<and> total_malloc p' = total_malloc p + 1 \<and>
    GetMallocSize perfect_fit a p' = Returns (int (if perfect_fit then n else sz))"
proof -
  obtain n where n: "n \<ge> sz" "pool_inv p'" "(a, n) \<notin> user_blocks perfect_fit p"
    "user_blocks perfect_fit p' = insert (a, n) (user_blocks perfect_fit p)"
    using pool.new_block [OF assms] by blast
  have "a + n \<le> b \<or> b + m \<le> a" if b: "(b, m) \<in> user_blocks perfect_fit p" for b m
  proof -
    have "a \<noteq> b" using pool.block_unique [OF n(2), where a = a and n = n and m = m and perfect_fit = perfect_fit] b n(3,4) by auto
    then show ?thesis using pool.no_overlap [OF n(2), where a = a and n = n and b = b and m = m and perfect_fit = perfect_fit] b n(4) by auto
  qed
  then have ov: "\<forall>(b, m) \<in> user_blocks perfect_fit p. a + n \<le> b \<or> b + m \<le> a" by blast
  have "(a, n) \<in> user_blocks perfect_fit p'" using n(4) by simp
  then show ?thesis
    using n(1,2,4) ov New_counts [OF assms] New_range [OF assms] New_size [OF assms]
    by (intro exI [of _ n]) simp
qed

theorem Pool_New_safe_witness:
  "\<exists>p'. New True 32000 demo_pool = Returns (32, p') \<and> pool_inv p' \<and> total_malloc p' = 1 \<and>
     GetMallocSize True 32 p' = Returns 32000"
proof -
  obtain p' where p': "New True 32000 demo_pool = Returns (32, p')" using demo_New by blast
  from Pool_New_safe [OF demo_pool_inv(1) this] obtain n where n: "pool_inv p'" "user_blocks True p' = insert (32, n) (user_blocks True demo_pool)"
    "total_malloc p' = total_malloc demo_pool + 1" "GetMallocSize True 32 p' = Returns (int n)" by auto
  have "grown (32, 32000) demo_pool p'" using New_grown [OF demo_pool_inv(1) p'] by auto
  then have "n = 32000" using n(2) by (auto simp: grown_def user_blocks_def demo_pool_inv)
  then show ?thesis using p' n by (simp add: demo_pool_def)
qed

text \<open>
  (C17) A pool in which the requested slab size is configured runs out of memory exactly when no chunk
  is free and every chunk of that size is full; otherwise \<open>New\<close> returns.
\<close>

theorem Pool_New_oom_iff:
  assumes "pool_inv p" and "slab \<in> dom (size_to_chunks p)" and "0 < slab" and "slab \<le> 32767"
  shows "if free_chunks p = [] \<and>
      (\<forall>c \<in> set (chunks p). is_used (header c) \<and> SlabSize c = slab \<longrightarrow> NumberOfOnes (bitmap (header c)) = MaxEntryNumber c)
    then New True slab p = Aborts (LogFatal ''Persist Memory Pool OOM'')
    else \<exists>a p'. New True slab p = Returns (a, p')"
proof -
  have "chunk_ok c" if "c \<in> set (chunks p)" "is_used (header c)" for c
    using that pool_invD(1) [OF assms(1)] by (auto simp: in_set_conv_nth)
  then have "\<not> room slab p \<longleftrightarrow> free_chunks p = [] \<and>
      (\<forall>c \<in> set (chunks p). is_used (header c) \<and> SlabSize c = slab \<longrightarrow> NumberOfOnes (bitmap (header c)) = MaxEntryNumber c)"
    unfolding room_def by (auto simp: Chunk_Full_iff NumberOfOnes_card MaxEntryNumber_def)
  then show ?thesis
    using NewInternal_oom [OF assms(1,2)] NewInternal_ok [OF assms] by (auto simp: New_def)
qed

theorem Pool_New_oom_iff_witness: "\<exists>a p'. New True 32000 demo_pool = Returns (a, p')"
  using Pool_New_oom_iff [of demo_pool 32000] demo_pool_inv by (simp add: demo_pool_def)

lemma Free_counts: "Free perfect_fit a p = Returns (True, p') \<Longrightarrow> total_malloc p' = total_malloc p - 1"
  by (auto simp: Free_def Let_def run_simps split: if_splits)



text \<open>
  (C19) Opening the file of a pool again, with the slab sizes it was used with, recovers its blocks: the
  headers and bitmaps in the file are enough to rebuild the lists of chunks and all the counters.
\<close>

theorem PersistMemoryPool_recovers:
  assumes "pool_inv p" and "dom (size_to_chunks p) \<subseteq> set slabs" and "length slabs \<le> length (chunks p)"
    and "memory_size div kPoolChunkSize = length (chunks p)"
  shows "\<exists>p'. PersistMemoryPool_new True memory_size slabs (map header (chunks p)) (pool_ints p) = Returns p' \<and>
    pool_inv p' \<and> pool_blocks p' = pool_blocks p \<and> total_malloc p' = total_malloc p"
proof -
  let ?hs = "map header (chunks p)"
  have hs: "header_ok h \<and> slab_size h \<in> set slabs" if h: "h \<in> set ?hs" "is_used h" for h
  proof -
    obtain i where i: "i < length (chunks p)" "h = header (chunks p ! i)" using h(1) by (auto simp: in_set_conv_nth)
    then show ?thesis
      using h(2) pool_invD(1,4) [OF assms(1) i(1)] chunk_ok_header assms(2) by (auto simp: SlabSize_def)
  qed
  have "PersistMemoryPool_new True memory_size slabs ?hs (pool_ints p) = Returns (reopened slabs ?hs (pool_ints p) (length ?hs))"
    by (rule PersistMemoryPool_reopen [OF hs]) (use assms in simp_all)
  moreover have bl: "pool_blocks (reopened slabs ?hs (pool_ints p) (length ?hs)) = pool_blocks p"
    using reopened_inv(2) [of ?hs slabs "pool_ints p", OF hs] by (simp add: pool_blocks_def chunk_blocks_header)
  moreover note inv = reopened_inv(1) [of ?hs slabs "pool_ints p", OF hs]
  ultimately show ?thesis using pool_invD(7) [OF inv] pool_invD(7) [OF assms(1)] by auto
qed

theorem PersistMemoryPool_recovers_witness:
  "\<exists>p p'. New True 32000 demo_pool = Returns (32, p) \<and>
     PersistMemoryPool_new True 2097152 [32000] (map header (chunks p)) (pool_ints p) = Returns p' \<and>
     pool_blocks p' = {(32, 32000)}"
proof -
  obtain p where p: "New True 32000 demo_pool = Returns (32, p)" using demo_New by blast
  have g: "grown (32, 32000) demo_pool p" using New_grown [OF demo_pool_inv(1) p] by auto
  then have "pool_inv p" "dom (size_to_chunks p) \<subseteq> set [32000]" "length (chunks p) = 1" "pool_blocks p = {(32, 32000)}"
    by (auto simp: grown_def demo_pool_inv) (auto simp: demo_pool_def)
  then show ?thesis
    using p PersistMemoryPool_recovers [of p "[32000]" 2097152] by (auto simp: kPoolChunkSize_def)
qed

end
