(* ===== verification/Mem_Epoch.thy ===== *)
theory Mem_Epoch
  imports Pet_Prelude
begin

text \<open>
  The epochs that protect readers (\<open>src/src/memory/epoch_manager.h\<close>): \<open>MinEpochTable\<close> with its entries
  and \<open>EpochManager\<close>. The hash of a thread id (CityHash) and the readings of the clock are parameters.
  The table holds, besides the entries, the pointer that each thread keeps in its thread-local
  variable. Each operation is a function on the state; the interleaving of threads is the subject of
  \<open>Mem_Epoch_Steps\<close>.
\<close>

section \<open>Entries\<close>

record EpochEntry =
  thread_id :: u64
  epoch_list :: "u64 list"

definition EpochEntry_new :: EpochEntry where
  "EpochEntry_new = \<lparr>thread_id = 0, epoch_list = []\<rparr>"

definition Entry_EnqueProtect :: "u64 \<Rightarrow> EpochEntry \<Rightarrow> EpochEntry" where
  "Entry_EnqueProtect current_epoch e = e\<lparr>epoch_list := epoch_list e @ [current_epoch]\<rparr>"

text \<open>\<open>pop_front\<close> of an empty deque is undefined.\<close>

definition Entry_DequeUnProtect :: "EpochEntry \<Rightarrow> EpochEntry run" where
  "Entry_DequeUnProtect e =
     (case epoch_list e of
        [] \<Rightarrow> Aborts (Undefined ''pop_front of an empty deque'')
      | _ # es \<Rightarrow> Returns (e\<lparr>epoch_list := es\<rparr>))"

definition MinEpoch :: "EpochEntry \<Rightarrow> u64" where
  "MinEpoch e = (case epoch_list e of [] \<Rightarrow> 0 | x # xs \<Rightarrow> fold min xs x)"

definition PendingEpochNum :: "EpochEntry \<Rightarrow> nat" where
  "PendingEpochNum e = length (epoch_list e)"

section \<open>The table\<close>

record MinEpochTable =
  epoch_entries :: "EpochEntry list"
  thread_local_entry :: "u64 \<rightharpoonup> nat"

definition MinEpochTable_new :: "nat \<Rightarrow> MinEpochTable" where
  "MinEpochTable_new max_thread_num =
     \<lparr>epoch_entries = replicate max_thread_num EpochEntry_new, thread_local_entry = Map.empty\<rparr>"

text \<open>One round over the table, from \<open>start_index\<close> on, for an entry without an owner.\<close>

definition reserve_scan :: "nat \<Rightarrow> EpochEntry list \<Rightarrow> nat option" where
  "reserve_scan start_index es =
     map_option (\<lambda>i. (start_index + i) mod length es)
       (find (\<lambda>i. thread_id (es ! ((start_index + i) mod length es)) = 0) [0..<length es])"

text \<open>The loop ends when an entry is found or the clock, read once per round, has advanced two seconds.\<close>

partial_function (option) reserve_loop ::
  "(nat \<Rightarrow> int) \<Rightarrow> int \<Rightarrow> nat \<Rightarrow> nat \<Rightarrow> EpochEntry list \<Rightarrow> nat run option" where
  "reserve_loop clock start_ts n start_index es =
     (if clock n - start_ts > 2000000 then Some (Aborts (LogFatal ''can not ReserveEntry''))
      else case reserve_scan start_index es of
        Some i \<Rightarrow> Some (Returns i)
      | None \<Rightarrow> reserve_loop clock start_ts (Suc n) start_index es)"

definition ReserveEntry :: "(nat \<Rightarrow> int) \<Rightarrow> nat \<Rightarrow> u64 \<Rightarrow> MinEpochTable \<Rightarrow> (nat \<times> MinEpochTable) run" where
  "ReserveEntry clock start_index tid t =
     (case reserve_loop clock (clock 0) 1 start_index (epoch_entries t) of
        None \<Rightarrow> Diverges
      | Some r \<Rightarrow> run_bind r (\<lambda>i.
          Returns (i, t\<lparr>epoch_entries := (epoch_entries t)[i := (epoch_entries t ! i)\<lparr>thread_id := tid\<rparr>]\<rparr>)))"

definition GetEntryForThread ::
  "(u64 \<Rightarrow> u64) \<Rightarrow> (nat \<Rightarrow> int) \<Rightarrow> u64 \<Rightarrow> MinEpochTable \<Rightarrow> (nat \<times> MinEpochTable) run" where
  "GetEntryForThread get_hash clock tid t =
     (case thread_local_entry t tid of
        Some i \<Rightarrow> Returns (i, t)
      | None \<Rightarrow>
          if epoch_entries t = [] then Aborts (Undefined ''division by zero'')
          else run_bind (ReserveEntry clock (unat (get_hash tid) mod length (epoch_entries t)) tid t) (\<lambda>(i, t).
            Returns (i, t\<lparr>thread_local_entry := (thread_local_entry t)(tid \<mapsto> i)\<rparr>)))"

definition EnqueProtect ::
  "(u64 \<Rightarrow> u64) \<Rightarrow> (nat \<Rightarrow> int) \<Rightarrow> u64 \<Rightarrow> u64 \<Rightarrow> MinEpochTable \<Rightarrow> MinEpochTable run" where
  "EnqueProtect get_hash clock tid current_epoch t =
     run_bind (GetEntryForThread get_hash clock tid t) (\<lambda>(i, t).
       Returns (t\<lparr>epoch_entries := (epoch_entries t)[i := Entry_EnqueProtect current_epoch (epoch_entries t ! i)]\<rparr>))"

definition PopUnprotect ::
  "(u64 \<Rightarrow> u64) \<Rightarrow> (nat \<Rightarrow> int) \<Rightarrow> u64 \<Rightarrow> MinEpochTable \<Rightarrow> MinEpochTable run" where
  "PopUnprotect get_hash clock tid t =
     run_bind (GetEntryForThread get_hash clock tid t) (\<lambda>(i, t).
     run_bind (Entry_DequeUnProtect (epoch_entries t ! i)) (\<lambda>e.
       Returns (t\<lparr>epoch_entries := (epoch_entries t)[i := e]\<rparr>)))"

text \<open>The body of the loop over the table and the loop.\<close>

definition oldest_step :: "EpochEntry \<Rightarrow> u64 \<Rightarrow> u64" where
  "oldest_step entry oldest_call =
     (let entryEpoch = MinEpoch entry
      in if entryEpoch \<noteq> 0 \<and> entryEpoch < oldest_call then entryEpoch else oldest_call)"

definition ComputeNewSafeToReclaimEpoch :: "u64 \<Rightarrow> MinEpochTable \<Rightarrow> u64" where
  "ComputeNewSafeToReclaimEpoch current_epoch t = fold oldest_step (epoch_entries t) current_epoch - 1"

definition MaxPendingEpochNumPerThread :: "MinEpochTable \<Rightarrow> nat" where
  "MaxPendingEpochNumPerThread t = fold (\<lambda>e ret. max ret (PendingEpochNum e)) (epoch_entries t) 0"

section \<open>The manager\<close>

record EpochManager =
  current_epoch :: u64
  safe_to_reclaim_epoch :: u64
  epoch_table :: MinEpochTable

definition EpochManager_new :: EpochManager where
  "EpochManager_new = \<lparr>current_epoch = 1, safe_to_reclaim_epoch = 0, epoch_table = MinEpochTable_new 64\<rparr>"

definition Protect :: "(u64 \<Rightarrow> u64) \<Rightarrow> (nat \<Rightarrow> int) \<Rightarrow> u64 \<Rightarrow> EpochManager \<Rightarrow> EpochManager run" where
  "Protect get_hash clock tid m =
     run_bind (EnqueProtect get_hash clock tid (current_epoch m) (epoch_table m)) (\<lambda>t. Returns (m\<lparr>epoch_table := t\<rparr>))"

definition UnProtect :: "(u64 \<Rightarrow> u64) \<Rightarrow> (nat \<Rightarrow> int) \<Rightarrow> u64 \<Rightarrow> EpochManager \<Rightarrow> EpochManager run" where
  "UnProtect get_hash clock tid m =
     run_bind (PopUnprotect get_hash clock tid (epoch_table m)) (\<lambda>t. Returns (m\<lparr>epoch_table := t\<rparr>))"

definition GetCurrentEpoch :: "EpochManager \<Rightarrow> u64" where
  "GetCurrentEpoch m = current_epoch m"

definition Manager_ComputeNewSafeToReclaimEpoch :: "u64 \<Rightarrow> EpochManager \<Rightarrow> EpochManager" where
  "Manager_ComputeNewSafeToReclaimEpoch currentEpoch m =
     m\<lparr>safe_to_reclaim_epoch := ComputeNewSafeToReclaimEpoch currentEpoch (epoch_table m)\<rparr>"

text \<open>\<open>fetch_add\<close> returns the value before the addition.\<close>

definition BumpCurrentEpoch :: "EpochManager \<Rightarrow> EpochManager" where
  "BumpCurrentEpoch m =
     (let newEpoch = current_epoch m
      in Manager_ComputeNewSafeToReclaimEpoch newEpoch (m\<lparr>current_epoch := current_epoch m + 1\<rparr>))"

definition IsSafeToReclaim :: "u64 \<Rightarrow> EpochManager \<Rightarrow> bool" where
  "IsSafeToReclaim epoch m = (epoch \<le> safe_to_reclaim_epoch m)"

definition Manager_MaxPendingEpochNumPerThread :: "EpochManager \<Rightarrow> nat" where
  "Manager_MaxPendingEpochNumPerThread m = MaxPendingEpochNumPerThread (epoch_table m)"

section \<open>Entries and the minimum\<close>

lemma fold_min_le: "fold min xs (x :: u64) \<le> x" "y \<in> set xs \<Longrightarrow> fold min xs x \<le> y"
proof (induction xs arbitrary: x)
  case (Cons a xs)
  { case 1 show ?case using Cons.IH(1) [of "min a x"] by simp }
  { case 2 then show ?case using Cons.IH(1) [of "min a x"] Cons.IH(2) [of "min a x"] by auto }
qed simp_all

lemma fold_min_mem: "fold min xs (x :: u64) \<in> insert x (set xs)"
proof (induction xs arbitrary: x)
  case (Cons a xs)
  then show ?case using Cons.IH [of "min a x"] by (auto simp: min_def split: if_splits)
qed simp

lemma MinEpoch_le: "p \<in> set (epoch_list e) \<Longrightarrow> MinEpoch e \<le> p"
  by (auto simp: MinEpoch_def fold_min_le split: list.splits)

lemma MinEpoch_mem: "epoch_list e \<noteq> [] \<Longrightarrow> MinEpoch e \<in> set (epoch_list e)"
  using fold_min_mem by (auto simp: MinEpoch_def split: list.splits)

lemma oldest_step_le: "oldest_step e old \<le> old"
  by (auto simp: oldest_step_def Let_def)

lemma oldest_step_min:
  "p \<in> set (epoch_list e) \<Longrightarrow> 0 \<notin> set (epoch_list e) \<Longrightarrow> oldest_step e old \<le> p"
  using MinEpoch_le [of p e] MinEpoch_mem [of e] by (cases "epoch_list e = []") (auto simp: oldest_step_def Let_def)

lemma oldest_step_pos: "0 < old \<Longrightarrow> 0 < oldest_step e old"
  by (auto simp: oldest_step_def Let_def word_neq_0_conv)

lemma oldest_step_empty: "epoch_list e = [] \<Longrightarrow> oldest_step e old = old"
  by (simp add: oldest_step_def MinEpoch_def)

section \<open>Reserving an entry\<close>

lemma reserve_scan_Some:
  assumes "reserve_scan start es = Some i"
  shows "i < length es" and "thread_id (es ! i) = 0"
proof -
  from assms obtain k where k: "find (\<lambda>i. thread_id (es ! ((start + i) mod length es)) = 0) [0..<length es] = Some k"
    "i = (start + k) mod length es" by (auto simp: reserve_scan_def)
  from find_Some_first [OF k(1)] k(2) show "i < length es" "thread_id (es ! i) = 0"
    by (auto intro!: mod_less_divisor)
qed

lemma reserve_scan_None:
  assumes "reserve_scan start es = None" and "i < length es"
  shows "thread_id (es ! i) \<noteq> 0"
proof -
  let ?n = "length es"
  have none: "thread_id (es ! ((start + k) mod ?n)) \<noteq> 0" if "k < ?n" for k
    using assms(1) that by (auto simp: reserve_scan_def find_None_all)
  let ?k = "(i + (?n - start mod ?n)) mod ?n"
  have "0 < ?n" using assms(2) by linarith
  then have lt: "start mod ?n < ?n" "?k < ?n" by (auto intro!: mod_less_divisor)
  have "(start + ?k) mod ?n = (start mod ?n + (i + (?n - start mod ?n))) mod ?n" by (metis mod_add_eq mod_mod_trivial)
  also have "\<dots> = (i + ?n) mod ?n" using lt by (simp add: add.commute)
  finally have "(start + ?k) mod ?n = i" using assms(2) by simp
  then show ?thesis using none [OF lt(2)] by simp
qed

lemma reserve_loop_Returns:
  assumes "reserve_loop clock ts n start es = Some r"
  shows "r = Aborts (LogFatal ''can not ReserveEntry'') \<or> (\<exists>i. r = Returns i \<and> i < length es \<and> thread_id (es ! i) = 0)"
  by (rule reserve_loop.raw_induct [rotated, OF assms])
    (auto split: if_splits option.splits dest: reserve_scan_Some)

lemma reserve_loop_Aborts:
  assumes "reserve_scan start es = None" and "clock (n + k) - ts > 2000000"
  shows "reserve_loop clock ts n start es = Some (Aborts (LogFatal ''can not ReserveEntry''))"
  using assms(2)
proof (induction k arbitrary: n)
  case 0
  then show ?case by (subst reserve_loop.simps) simp
next
  case (Suc k)
  then show ?case using assms(1) by (subst reserve_loop.simps) simp
qed

definition table_wf :: "MinEpochTable \<Rightarrow> bool" where
  "table_wf t \<longleftrightarrow> (\<forall>tid i. thread_local_entry t tid = Some i \<longrightarrow>
     i < length (epoch_entries t) \<and> thread_id (epoch_entries t ! i) = tid \<and> tid \<noteq> 0) \<and>
   (\<forall>i < length (epoch_entries t). thread_id (epoch_entries t ! i) = 0 \<longrightarrow> epoch_list (epoch_entries t ! i) = [])"

lemma GetEntryForThread_Returns:
  assumes "table_wf t" and "tid \<noteq> 0" and "GetEntryForThread h clock tid t = Returns (i, t')"
  shows "table_wf t'" "thread_local_entry t' = (thread_local_entry t)(tid \<mapsto> i)" "i < length (epoch_entries t)"
    "length (epoch_entries t') = length (epoch_entries t)"
    "map epoch_list (epoch_entries t') = map epoch_list (epoch_entries t)"
proof -
  have "(thread_local_entry t tid = Some i \<and> t' = t) \<or>
    (thread_local_entry t tid = None \<and> i < length (epoch_entries t) \<and> thread_id (epoch_entries t ! i) = 0 \<and>
     t' = t\<lparr>epoch_entries := (epoch_entries t)[i := (epoch_entries t ! i)\<lparr>thread_id := tid\<rparr>],
       thread_local_entry := (thread_local_entry t)(tid \<mapsto> i)\<rparr>)"
    using assms(3) by (auto simp: GetEntryForThread_def ReserveEntry_def run_simps dest!: reserve_loop_Returns
        split: option.splits if_splits)
  then have "table_wf t' \<and> thread_local_entry t' = (thread_local_entry t)(tid \<mapsto> i) \<and> i < length (epoch_entries t) \<and>
    length (epoch_entries t') = length (epoch_entries t) \<and>
    map epoch_list (epoch_entries t') = map epoch_list (epoch_entries t)"
  proof
    assume r: "thread_local_entry t tid = Some i \<and> t' = t"
    then show ?thesis using assms(1) by (auto simp: table_wf_def)
  next
    assume r: "thread_local_entry t tid = None \<and> i < length (epoch_entries t) \<and> thread_id (epoch_entries t ! i) = 0 \<and>
      t' = t\<lparr>epoch_entries := (epoch_entries t)[i := (epoch_entries t ! i)\<lparr>thread_id := tid\<rparr>],
        thread_local_entry := (thread_local_entry t)(tid \<mapsto> i)\<rparr>"
    then have "map epoch_list (epoch_entries t') = map epoch_list (epoch_entries t)"
      by (auto simp: map_update intro!: list_update_same_conv [THEN iffD2])
    then show ?thesis using r assms(1,2) by (auto simp: table_wf_def nth_list_update_any)
  qed
  then show "table_wf t'" "thread_local_entry t' = (thread_local_entry t)(tid \<mapsto> i)" "i < length (epoch_entries t)"
    "length (epoch_entries t') = length (epoch_entries t)"
    "map epoch_list (epoch_entries t') = map epoch_list (epoch_entries t)" by auto
qed

end
