(* ===== verification/Mem_Recycle.thy ===== *)
theory Mem_Recycle
  imports Mem_Recover Mem_Epoch
begin

text \<open>
  The recyclers (\<open>src/src/memory/malloc.h\<close>): an object that is no longer in the index is given back to
  the allocator at once (\<open>DirectRecycle\<close>), after a delay (\<open>DelayedRecycle\<close>), or when no reader can hold
  it any more (\<open>ShmEpochRecycle\<close>). The allocator is the argument \<open>free\<close>, its \<open>Free\<close> operation on a state
  of its own; a null pointer is \<open>None\<close>; the time stamps of the clock are arguments in the order in
  which the code reads them.
\<close>

section \<open>The operations\<close>

definition DirectRecycle_Recycle :: "(nat \<Rightarrow> 's \<Rightarrow> (bool \<times> 's) run) \<Rightarrow> nat \<Rightarrow> 's \<Rightarrow> 's run" where
  "DirectRecycle_Recycle free ptr m = run_bind (free ptr m) (\<lambda>(_, m). Returns m)"

text \<open>
  The loop that frees the front of a queue as long as its time stamp or epoch satisfies a condition; all
  three loops of the recyclers have this form.
\<close>

fun recycle_loop :: "(nat \<Rightarrow> 's \<Rightarrow> (bool \<times> 's) run) \<Rightarrow> ('t \<Rightarrow> bool) \<Rightarrow> ('t \<times> nat) list \<Rightarrow> 's \<Rightarrow> (('t \<times> nat) list \<times> 's) run" where
  "recycle_loop free c [] m = Returns ([], m)"
| "recycle_loop free c ((t, d) # q) m =
     (if c t then
        run_bind (free d m) (\<lambda>(r, m).
        run_bind (run_check r ''malloc_->Free'') (\<lambda>_. recycle_loop free c q m))
      else Returns ((t, d) # q, m))"

record DelayedRecycle =
  dr_recycle_ptr :: "(int \<times> nat) list"
  dr_delay_ts :: int

definition DelayedRecycle_new :: DelayedRecycle where
  "DelayedRecycle_new = \<lparr>dr_recycle_ptr = [], dr_delay_ts = 1000000\<rparr>"

definition DelayedRecycle_Recycle ::
  "(nat \<Rightarrow> 's \<Rightarrow> (bool \<times> 's) run) \<Rightarrow> int \<Rightarrow> int \<Rightarrow> nat option \<Rightarrow> DelayedRecycle \<Rightarrow> 's \<Rightarrow> (DelayedRecycle \<times> 's) run" where
  "DelayedRecycle_Recycle free ts1 ts2 ptr r m =
     (let q = (case ptr of None \<Rightarrow> dr_recycle_ptr r | Some d \<Rightarrow> dr_recycle_ptr r @ [(ts1, d)]);
          recyle_ts = ts2 - dr_delay_ts r
      in run_bind (recycle_loop free (\<lambda>t. t < recyle_ts) q m) (\<lambda>(q, m). Returns (r\<lparr>dr_recycle_ptr := q\<rparr>, m)))"

definition DelayedRecycle_Clear ::
  "(nat \<Rightarrow> 's \<Rightarrow> (bool \<times> 's) run) \<Rightarrow> DelayedRecycle \<Rightarrow> 's \<Rightarrow> (DelayedRecycle \<times> 's) run" where
  "DelayedRecycle_Clear free r m =
     run_bind (recycle_loop free (\<lambda>t. True) (dr_recycle_ptr r) m) (\<lambda>(q, m). Returns (r\<lparr>dr_recycle_ptr := q\<rparr>, m))"

definition DelayedRecycle_GetPendingNum :: "DelayedRecycle \<Rightarrow> nat" where
  "DelayedRecycle_GetPendingNum r = length (dr_recycle_ptr r)"

definition SetDelayTs :: "int \<Rightarrow> DelayedRecycle \<Rightarrow> DelayedRecycle" where
  "SetDelayTs delay_ts r = r\<lparr>dr_delay_ts := delay_ts\<rparr>"

text \<open>The epoch manager is a singleton shared by all recyclers; it is part of the state.\<close>

record ShmEpochRecycle =
  er_epoch_manager :: EpochManager
  er_recycle_ptr :: "(u64 \<times> nat) list"
  er_recycled_count :: int

definition ShmEpochRecycle_new :: "EpochManager \<Rightarrow> ShmEpochRecycle" where
  "ShmEpochRecycle_new em = \<lparr>er_epoch_manager = em, er_recycle_ptr = [], er_recycled_count = 0\<rparr>"

definition ShmEpochRecycle_Recycle ::
  "(nat \<Rightarrow> 's \<Rightarrow> (bool \<times> 's) run) \<Rightarrow> nat option \<Rightarrow> ShmEpochRecycle \<Rightarrow> 's \<Rightarrow> (ShmEpochRecycle \<times> 's) run" where
  "ShmEpochRecycle_Recycle free ptr r m =
     (let n = er_recycled_count r + 1;
          removal_epoch = GetCurrentEpoch (er_epoch_manager r);
          q = (case ptr of None \<Rightarrow> er_recycle_ptr r | Some d \<Rightarrow> er_recycle_ptr r @ [(removal_epoch, d)]);
          em = (if n mod 1000 = 0 then BumpCurrentEpoch (er_epoch_manager r) else er_epoch_manager r)
      in run_bind (recycle_loop free (\<lambda>e. IsSafeToReclaim e em) q m) (\<lambda>(q, m).
        Returns (\<lparr>er_epoch_manager = em, er_recycle_ptr = q, er_recycled_count = n\<rparr>, m)))"

definition ShmEpochRecycle_Clear ::
  "(nat \<Rightarrow> 's \<Rightarrow> (bool \<times> 's) run) \<Rightarrow> ShmEpochRecycle \<Rightarrow> 's \<Rightarrow> (ShmEpochRecycle \<times> 's) run" where
  "ShmEpochRecycle_Clear free r m =
     run_bind (recycle_loop free (\<lambda>e. True) (er_recycle_ptr r) m) (\<lambda>(q, m). Returns (r\<lparr>er_recycle_ptr := q\<rparr>, m))"

definition ShmEpochRecycle_GetPendingNum :: "ShmEpochRecycle \<Rightarrow> nat" where
  "ShmEpochRecycle_GetPendingNum r = length (er_recycle_ptr r)"

text \<open>A sequence of calls of \<open>Recycle\<close>.\<close>

fun ShmEpochRecycle_run ::
  "(nat \<Rightarrow> 's \<Rightarrow> (bool \<times> 's) run) \<Rightarrow> nat option list \<Rightarrow> ShmEpochRecycle \<Rightarrow> 's \<Rightarrow> (ShmEpochRecycle \<times> 's) run" where
  "ShmEpochRecycle_run free [] r m = Returns (r, m)"
| "ShmEpochRecycle_run free (p # ps) r m =
     run_bind (ShmEpochRecycle_Recycle free p r m) (\<lambda>(r, m). ShmEpochRecycle_run free ps r m)"

section \<open>The epochs of a recycler\<close>

definition ptrs :: "nat option list \<Rightarrow> nat list" where
  "ptrs ps = List.map_filter id ps"

definition no_readers :: "EpochManager \<Rightarrow> bool" where
  "no_readers em \<longleftrightarrow> (\<forall>e \<in> set (epoch_entries (epoch_table em)). epoch_list e = [])"

text \<open>The queue holds the blocks in the order of their epochs, none from the future.\<close>

definition queue_ok :: "ShmEpochRecycle \<Rightarrow> bool" where
  "queue_ok r \<longleftrightarrow> sorted (map fst (er_recycle_ptr r)) \<and> (\<forall>(e, a) \<in> set (er_recycle_ptr r). e \<le> current_epoch (er_epoch_manager r))"

lemma ptrs_simps [simp]: "ptrs [] = []" "ptrs (None # ps) = ptrs ps" "ptrs (Some d # ps) = d # ptrs ps"
  by (simp_all add: ptrs_def List.map_filter_simps)

lemma Bump_no_readers:
  assumes "no_readers em"
  shows "BumpCurrentEpoch em = em\<lparr>current_epoch := current_epoch em + 1, safe_to_reclaim_epoch := current_epoch em - 1\<rparr>"
proof -
  have "fold oldest_step es old = old" if "\<forall>e \<in> set es. epoch_list e = []" for es old
    using that by (induction es) (simp_all add: oldest_step_empty)
  then show ?thesis
    using assms by (simp add: BumpCurrentEpoch_def Manager_ComputeNewSafeToReclaimEpoch_def
        ComputeNewSafeToReclaimEpoch_def no_readers_def)
qed

definition bumps :: "int \<Rightarrow> nat \<Rightarrow> nat" where
  "bumps c n = nat ((c + int n) div 1000 - c div 1000)"

lemma bumps_0 [simp]: "bumps c 0 = 0"
  by (simp add: bumps_def)

lemma bumps_Suc: "bumps c (Suc n) = (if (c + 1) mod 1000 = 0 then 1 else 0) + bumps (c + 1) n"
proof -
  let ?r = "c mod 1000"
  have r: "0 \<le> ?r" "?r < 1000" "(c + 1) div 1000 = c div 1000 + (?r + 1) div 1000" "(c + 1) mod 1000 = (?r + 1) mod 1000"
    by (simp_all add: mod_add_left_eq div_add1_eq [of c 1])
  have "(c + 1) div 1000 - c div 1000 = (if (c + 1) mod 1000 = 0 then 1 else 0)"
    using r by (cases "?r = 999") (simp_all add: div_pos_pos_trivial mod_pos_pos_trivial)
  moreover have "(c + 1) div 1000 \<le> (c + 1 + int n) div 1000" by (rule zdiv_mono1) simp_all
  ultimately show ?thesis unfolding bumps_def by (auto simp: algebra_simps)
qed

lemma bumps_le: "bumps c n \<le> n"
  by (induction n arbitrary: c) (simp add: bumps_def, simp add: bumps_Suc le_SucI)

lemma bumps_two: "2000 \<le> n \<Longrightarrow> 2 \<le> bumps c n"
proof -
  assume "2000 \<le> n"
  then have "(c + 2000) div 1000 \<le> (c + int n) div 1000" by (intro zdiv_mono1) simp_all
  then show ?thesis by (simp add: bumps_def)
qed

lemma bumps_one: "bumps c 1 = (if (c + 1) mod 1000 = 0 then 1 else 0)"
  using bumps_Suc [of c 0] by (simp add: bumps_def)

text \<open>The epoch manager after a call, with no readers.\<close>

definition recycle_epoch :: "ShmEpochRecycle \<Rightarrow> EpochManager" where
  "recycle_epoch r = (if (er_recycled_count r + 1) mod 1000 = 0 then BumpCurrentEpoch (er_epoch_manager r) else er_epoch_manager r)"

lemma recycle_epoch_facts:
  assumes "no_readers (er_epoch_manager r)" and "unat (current_epoch (er_epoch_manager r)) < 2 ^ 64 - 1"
    and "0 < current_epoch (er_epoch_manager r)"
  shows "no_readers (recycle_epoch r)" "current_epoch (er_epoch_manager r) \<le> current_epoch (recycle_epoch r)"
    "unat (current_epoch (recycle_epoch r)) = unat (current_epoch (er_epoch_manager r)) + bumps (er_recycled_count r) 1"
    "if bumps (er_recycled_count r) 1 = 0 then safe_to_reclaim_epoch (recycle_epoch r) = safe_to_reclaim_epoch (er_epoch_manager r)
     else unat (safe_to_reclaim_epoch (recycle_epoch r)) + 1 = unat (current_epoch (er_epoch_manager r))"
proof -
  let ?c = "current_epoch (er_epoch_manager r)"
  have "unat (?c + 1) = unat ?c + 1" using assms(2) by (simp add: unat_word_ariths)
  moreover have "unat (?c - 1) + 1 = unat ?c" using assms(3) by (simp add: unat_minus_one word_gt_0 unat_gt_0)
  ultimately show "no_readers (recycle_epoch r)" "?c \<le> current_epoch (recycle_epoch r)"
    "unat (current_epoch (recycle_epoch r)) = unat ?c + bumps (er_recycled_count r) 1"
    "if bumps (er_recycled_count r) 1 = 0 then safe_to_reclaim_epoch (recycle_epoch r) = safe_to_reclaim_epoch (er_epoch_manager r)
     else unat (safe_to_reclaim_epoch (recycle_epoch r)) + 1 = unat ?c"
    using assms(1) by (simp_all add: recycle_epoch_def Bump_no_readers bumps_one [simplified] word_le_nat_alt no_readers_def)
qed

lemma dropWhile_sorted:
  fixes q :: "('t::linorder \<times> 'a) list"
  assumes "sorted (map fst q)"
  shows "sorted (map fst (dropWhile (\<lambda>x. fst x \<le> b) q))" "x \<in> set (dropWhile (\<lambda>x. fst x \<le> b) q) \<Longrightarrow> b < fst x"
  using assms
proof (induction q)
  case (Cons y q)
  { case 1 then show ?case using Cons.IH(1) by simp }
  { case 2 then show ?case using Cons.IH(2) by (force split: if_splits) }
qed simp_all

lemma image_fst_restrict:
  assumes "A \<subseteq> fst ` B" and "A \<inter> T = {}"
  shows "A \<subseteq> fst ` {b \<in> B. fst b \<notin> T}"
proof
  fix a assume a: "a \<in> A"
  with assms(1) obtain b where b: "b \<in> B" "a = fst b" by auto
  moreover have "a \<notin> T" using a assms(2) by auto
  ultimately show "a \<in> fst ` {b \<in> B. fst b \<notin> T}" by blast
qed

lemma kept_blocks:
  assumes "A1 \<subseteq> A" and "A' \<subseteq> A1 \<union> P" and "A \<inter> P = {}"
  shows "{b \<in> {b \<in> B. fst b \<in> A \<longrightarrow> fst b \<in> A1}. fst b \<in> A1 \<union> P \<longrightarrow> fst b \<in> A'} = {b \<in> B. fst b \<in> A \<union> P \<longrightarrow> fst b \<in> A'}"
  using assms by blast

lemma snd_image_Times: "q \<subseteq> Q \<union> UNIV \<times> P \<Longrightarrow> snd ` q \<subseteq> snd ` Q \<union> P"
  by auto

lemma ptrs_Cons: "ptrs (p # ps) = ptrs [p] @ ptrs ps"
  by (cases p) simp_all

section \<open>Freeing queues of blocks of any allocator\<close>

context malloc_api
begin

text \<open>The loop frees exactly the front part of the queue that satisfies the condition.\<close>

lemma recycle_loop_frees:
  assumes "inv m" and "distinct (map snd q)" and "snd ` set q \<subseteq> fst ` blocks m"
  shows "\<exists>m'. recycle_loop free c q m = Returns (dropWhile (\<lambda>x. c (fst x)) q, m') \<and> inv m' \<and>
    blocks m' = {b \<in> blocks m. fst b \<notin> snd ` set (takeWhile (\<lambda>x. c (fst x)) q)}"
  using assms
proof (induction q arbitrary: m)
  case Nil
  then show ?case by simp
next
  case (Cons x q)
  obtain t d where x: "x = (t, d)" by (cases x)
  show ?case
  proof (cases "c t")
    case True
    have "d \<in> fst ` blocks m" using Cons.prems(3) x by simp
    from free_addr [OF Cons.prems(1) this] obtain m1 where m1: "free d m = Returns (True, m1)" "inv m1"
      "fst ` blocks m1 = fst ` blocks m - {d}" "blocks m1 = {b \<in> blocks m. fst b \<noteq> d}" .
    have "snd ` set q \<subseteq> fst ` blocks m1" using Cons.prems(2,3) x m1(3) by (simp add: subset_Diff_insert)
    then obtain m' where m': "recycle_loop free c q m1 = Returns (dropWhile (\<lambda>x. c (fst x)) q, m')" "inv m'"
      "blocks m' = {b \<in> blocks m1. fst b \<notin> snd ` set (takeWhile (\<lambda>x. c (fst x)) q)}"
      using Cons.IH [OF m1(2)] Cons.prems(2) by auto
    show ?thesis using True m' m1(1,4) x by auto
  next
    case False
    then show ?thesis using Cons.prems x by simp
  qed
qed

text \<open>
  A recycler on an allocator: its queue holds distinct blocks that are still allocated.
\<close>

lemma recycle_loop_queue:
  assumes "inv m" and "distinct (map snd q)" and "snd ` set q \<subseteq> fst ` blocks m"
  shows "\<exists>q' m'. recycle_loop free c q m = Returns (q', m') \<and> q' = dropWhile (\<lambda>x. c (fst x)) q \<and> inv m' \<and> distinct (map snd q') \<and>
    snd ` set q' \<subseteq> fst ` blocks m' \<and> blocks m' = {b \<in> blocks m. fst b \<notin> snd ` set (takeWhile (\<lambda>x. c (fst x)) q)}"
proof -
  obtain m' where m': "recycle_loop free c q m = Returns (dropWhile (\<lambda>x. c (fst x)) q, m')" "inv m'"
    "blocks m' = {b \<in> blocks m. fst b \<notin> snd ` set (takeWhile (\<lambda>x. c (fst x)) q)}"
    using recycle_loop_frees [OF assms] by blast
  let ?t = "takeWhile (\<lambda>x. c (fst x)) q" and ?d = "dropWhile (\<lambda>x. c (fst x)) q"
  have q: "map snd q = map snd ?t @ map snd ?d" by (simp flip: map_append)
  have "distinct (map snd ?d)" "snd ` set ?t \<inter> snd ` set ?d = {}"
    using assms(2) unfolding q by auto
  moreover have "snd ` set ?d \<subseteq> fst ` blocks m"
    using assms(3) by (auto dest!: set_dropWhileD)
  ultimately have "snd ` set ?d \<subseteq> fst ` blocks m'" unfolding m'(3) by (intro image_fst_restrict) (auto simp: Int_commute)
  then show ?thesis using m' \<open>distinct (map snd ?d)\<close> by blast
qed

lemma Recycle_step:
  assumes "inv m" and "distinct (map snd (er_recycle_ptr r) @ ptrs (p # ps))"
    and "snd ` set (er_recycle_ptr r) \<union> set (ptrs (p # ps)) \<subseteq> fst ` blocks m" and "queue_ok r"
    and "current_epoch (er_epoch_manager r) \<le> current_epoch (recycle_epoch r)"
  obtains q' m' where "ShmEpochRecycle_Recycle free p r m =
      Returns (\<lparr>er_epoch_manager = recycle_epoch r, er_recycle_ptr = q', er_recycled_count = er_recycled_count r + 1\<rparr>, m')"
    "inv m'" "distinct (map snd q' @ ptrs ps)" "snd ` set q' \<union> set (ptrs ps) \<subseteq> fst ` blocks m'"
    "queue_ok \<lparr>er_epoch_manager = recycle_epoch r, er_recycle_ptr = q', er_recycled_count = er_recycled_count r + 1\<rparr>"
    "\<forall>(e, a) \<in> set q'. safe_to_reclaim_epoch (recycle_epoch r) < e"
    "set q' \<subseteq> set (er_recycle_ptr r) \<union> UNIV \<times> set (ptrs [p])"
    "blocks m' = {b \<in> blocks m. fst b \<in> snd ` set (er_recycle_ptr r) \<union> set (ptrs [p]) \<longrightarrow> fst b \<in> snd ` set q'}"
proof -
  define q where "q = er_recycle_ptr r @ (case p of None \<Rightarrow> [] | Some d \<Rightarrow> [(GetCurrentEpoch (er_epoch_manager r), d)])"
  let ?em = "recycle_epoch r"
  let ?c = "\<lambda>e. IsSafeToReclaim e ?em"
  have q: "snd ` set q = snd ` set (er_recycle_ptr r) \<union> set (ptrs [p])" "set (ptrs (p # ps)) = set (ptrs [p]) \<union> set (ptrs ps)"
    "set q \<subseteq> set (er_recycle_ptr r) \<union> UNIV \<times> set (ptrs [p])"
    by (cases p; simp add: q_def)+
  have d: "distinct (map snd q)" "snd ` set q \<inter> set (ptrs ps) = {}" "distinct (ptrs ps)"
    using assms(2) by (cases p; auto simp: q_def)+
  have sub: "snd ` set q \<subseteq> fst ` blocks m" using assms(3) by (simp add: q(1,2))
  obtain q' m' where l: "recycle_loop free ?c q m = Returns (q', m')" "q' = dropWhile (\<lambda>x. ?c (fst x)) q" "inv m'"
    "distinct (map snd q')" "snd ` set q' \<subseteq> fst ` blocks m'"
    "blocks m' = {b \<in> blocks m. fst b \<notin> snd ` set (takeWhile (\<lambda>x. ?c (fst x)) q)}"
    using recycle_loop_queue [OF assms(1) d(1) sub, of ?c] by blast
  let ?t = "takeWhile (\<lambda>x. ?c (fst x)) q"
  have tq: "q = ?t @ q'" unfolding l(2) by simp
  then have part: "set q = set ?t \<union> set q'" "snd ` set ?t \<inter> snd ` set q' = {}"
    using d(1) by (metis set_append, metis distinct_append map_append set_map)
  have srt: "sorted (map fst q)" "(e, a) \<in> set q \<Longrightarrow> e \<le> current_epoch (er_epoch_manager r)" for e a
    using assms(4) by (cases p; auto simp: q_def queue_ok_def sorted_append GetCurrentEpoch_def)+
  have q'_eq: "q' = dropWhile (\<lambda>x. fst x \<le> safe_to_reclaim_epoch ?em) q" by (simp add: l(2) IsSafeToReclaim_def)
  show thesis
  proof (rule that)
    show "ShmEpochRecycle_Recycle free p r m =
      Returns (\<lparr>er_epoch_manager = ?em, er_recycle_ptr = q', er_recycled_count = er_recycled_count r + 1\<rparr>, m')"
      using l(1) by (cases p) (simp_all add: ShmEpochRecycle_Recycle_def Let_def recycle_epoch_def [symmetric] q_def)
    show "distinct (map snd q' @ ptrs ps)" using l(4) d part by auto
    show "snd ` set q' \<union> set (ptrs ps) \<subseteq> fst ` blocks m'" proof -
      have "set (ptrs ps) \<subseteq> fst ` blocks m'"
        unfolding l(6) by (rule image_fst_restrict) (use assms(3) q(2) d(2) part(1) in auto)
      then show ?thesis using l(5) by simp
    qed
    show "queue_ok \<lparr>er_epoch_manager = ?em, er_recycle_ptr = q', er_recycled_count = er_recycled_count r + 1\<rparr>"
      using dropWhile_sorted(1) [OF srt(1), of "safe_to_reclaim_epoch ?em"] order_trans [OF srt(2) assms(5)]
      unfolding queue_ok_def q'_eq [symmetric] part(1) by auto
    show "\<forall>(e, a) \<in> set q'. safe_to_reclaim_epoch ?em < e"
      using dropWhile_sorted(2) [OF srt(1)] by (force simp: q'_eq)
    show "set q' \<subseteq> set (er_recycle_ptr r) \<union> UNIV \<times> set (ptrs [p])" using q(3) unfolding part(1) by simp
    show "blocks m' = {b \<in> blocks m. fst b \<in> snd ` set (er_recycle_ptr r) \<union> set (ptrs [p]) \<longrightarrow> fst b \<in> snd ` set q'}"
      using part(2) unfolding l(6) q(1) [symmetric] part(1) by auto
  qed (rule l(3))
qed

lemma Recycle_run:
  assumes "inv m" and "distinct (map snd (er_recycle_ptr r) @ ptrs ps)"
    and "snd ` set (er_recycle_ptr r) \<union> set (ptrs ps) \<subseteq> fst ` blocks m" and "queue_ok r"
    and "no_readers (er_epoch_manager r)" and "0 < current_epoch (er_epoch_manager r)"
    and "unat (current_epoch (er_epoch_manager r)) + length ps < 2 ^ 64"
  shows "\<exists>r' m'. ShmEpochRecycle_run free ps r m = Returns (r', m') \<and> inv m' \<and> queue_ok r' \<and>
    distinct (map snd (er_recycle_ptr r')) \<and>
    (ps \<noteq> [] \<longrightarrow> (\<forall>(e, a) \<in> set (er_recycle_ptr r'). safe_to_reclaim_epoch (er_epoch_manager r') < e)) \<and>
    unat (current_epoch (er_epoch_manager r')) = unat (current_epoch (er_epoch_manager r)) + bumps (er_recycled_count r) (length ps) \<and>
    (bumps (er_recycled_count r) (length ps) = 0 \<longrightarrow>
      safe_to_reclaim_epoch (er_epoch_manager r') = safe_to_reclaim_epoch (er_epoch_manager r)) \<and>
    (0 < bumps (er_recycled_count r) (length ps) \<longrightarrow>
      unat (safe_to_reclaim_epoch (er_epoch_manager r')) + 2 = unat (current_epoch (er_epoch_manager r'))) \<and>
    set (er_recycle_ptr r') \<subseteq> set (er_recycle_ptr r) \<union> UNIV \<times> set (ptrs ps) \<and>
    blocks m' = {b \<in> blocks m. fst b \<in> snd ` set (er_recycle_ptr r) \<union> set (ptrs ps) \<longrightarrow> fst b \<in> snd ` set (er_recycle_ptr r')}"
  using assms
proof (induction ps arbitrary: r m)
  case Nil
  then show ?case by (auto simp: bumps_def)
next
  case (Cons p ps)
  have "unat (current_epoch (er_epoch_manager r)) < 2 ^ 64 - 1" using Cons.prems(7) by simp
  note F = recycle_epoch_facts [OF Cons.prems(5) this Cons.prems(6)]
  obtain q1 m1 where S: "ShmEpochRecycle_Recycle free p r m =
      Returns (\<lparr>er_epoch_manager = recycle_epoch r, er_recycle_ptr = q1, er_recycled_count = er_recycled_count r + 1\<rparr>, m1)"
    "inv m1" "distinct (map snd q1 @ ptrs ps)" "snd ` set q1 \<union> set (ptrs ps) \<subseteq> fst ` blocks m1"
    "queue_ok \<lparr>er_epoch_manager = recycle_epoch r, er_recycle_ptr = q1, er_recycled_count = er_recycled_count r + 1\<rparr>"
    "\<forall>(e, a) \<in> set q1. safe_to_reclaim_epoch (recycle_epoch r) < e"
    "set q1 \<subseteq> set (er_recycle_ptr r) \<union> UNIV \<times> set (ptrs [p])"
    "blocks m1 = {b \<in> blocks m. fst b \<in> snd ` set (er_recycle_ptr r) \<union> set (ptrs [p]) \<longrightarrow> fst b \<in> snd ` set q1}"
    using Recycle_step [OF Cons.prems(1-4) F(2)] .
  define r1 where "r1 = \<lparr>er_epoch_manager = recycle_epoch r, er_recycle_ptr = q1, er_recycled_count = er_recycled_count r + 1\<rparr>"
  have r1: "er_epoch_manager r1 = recycle_epoch r" "er_recycle_ptr r1 = q1" "er_recycled_count r1 = er_recycled_count r + 1"
    by (simp_all add: r1_def)
  have b: "bumps (er_recycled_count r) (length (p # ps)) = bumps (er_recycled_count r) 1 + bumps (er_recycled_count r1) (length ps)"
    by (simp add: bumps_Suc bumps_one [simplified] r1)
  have lt: "unat (current_epoch (er_epoch_manager r1)) + length ps < 2 ^ 64" "0 < current_epoch (er_epoch_manager r1)"
    using Cons.prems(6,7) F(2,3) bumps_le [of "er_recycled_count r" 1] order_less_le_trans [OF Cons.prems(6) F(2)]
    by (simp_all add: r1)
  obtain r' m' where R: "ShmEpochRecycle_run free ps r1 m1 = Returns (r', m')" "inv m'" "queue_ok r'" "distinct (map snd (er_recycle_ptr r'))"
    "ps \<noteq> [] \<longrightarrow> (\<forall>(e, a) \<in> set (er_recycle_ptr r'). safe_to_reclaim_epoch (er_epoch_manager r') < e)"
    "unat (current_epoch (er_epoch_manager r')) = unat (current_epoch (recycle_epoch r)) + bumps (er_recycled_count r + 1) (length ps)"
    "bumps (er_recycled_count r + 1) (length ps) = 0 \<longrightarrow>
      safe_to_reclaim_epoch (er_epoch_manager r') = safe_to_reclaim_epoch (recycle_epoch r)"
    "0 < bumps (er_recycled_count r + 1) (length ps) \<longrightarrow>
      unat (safe_to_reclaim_epoch (er_epoch_manager r')) + 2 = unat (current_epoch (er_epoch_manager r'))"
    "set (er_recycle_ptr r') \<subseteq> set q1 \<union> UNIV \<times> set (ptrs ps)"
    "blocks m' = {b \<in> blocks m1. fst b \<in> snd ` set q1 \<union> set (ptrs ps) \<longrightarrow> fst b \<in> snd ` set (er_recycle_ptr r')}"
    using Cons.IH [of m1 r1, unfolded r1, OF S(2,3,4) S(5) [folded r1_def] F(1) lt(2) [unfolded r1(1)] lt(1) [unfolded r1(1)]]
    by (elim exE conjE) (rule that)
  have "blocks m' = {b \<in> blocks m. fst b \<in> (snd ` set (er_recycle_ptr r) \<union> set (ptrs [p])) \<union> set (ptrs ps) \<longrightarrow>
      fst b \<in> snd ` set (er_recycle_ptr r')}"
    unfolding R(10) S(8)
    by (rule kept_blocks) (use snd_image_Times [OF S(7)] snd_image_Times [OF R(9)] Cons.prems(2) in \<open>auto simp: ptrs_Cons [of p ps]\<close>)
  moreover have "\<forall>(e, a) \<in> set (er_recycle_ptr r'). safe_to_reclaim_epoch (er_epoch_manager r') < e"
    using R(1,5) S(6) r1 by (cases ps) auto
  moreover have "set (er_recycle_ptr r') \<subseteq> set (er_recycle_ptr r) \<union> UNIV \<times> set (ptrs (p # ps))"
    using S(7) R(9) unfolding ptrs_Cons [of p ps] by auto
  moreover have "unat (safe_to_reclaim_epoch (er_epoch_manager r')) + 2 = unat (current_epoch (er_epoch_manager r'))"
    if "0 < bumps (er_recycled_count r) (length (p # ps))"
    using that R(6-8) F(3,4) bumps_one [of "er_recycled_count r"] unfolding b r1 by (auto split: if_splits)
  moreover have "safe_to_reclaim_epoch (er_epoch_manager r') = safe_to_reclaim_epoch (er_epoch_manager r)"
    if "bumps (er_recycled_count r) (length (p # ps)) = 0"
    using that R(7) F(4) unfolding b r1 by simp
  moreover have "unat (current_epoch (er_epoch_manager r')) = unat (current_epoch (er_epoch_manager r)) + bumps (er_recycled_count r) (length (p # ps))"
    using R(6) F(3) unfolding b r1 by simp
  ultimately show ?case
    using R(1-4) S(1) by (intro exI [of _ r'] exI [of _ m']) (simp add: r1_def [symmetric] ptrs_Cons [of p ps] Un_assoc)
qed

lemma Recycle_frees_all:
  assumes "inv m" and "distinct (map snd (er_recycle_ptr r) @ ptrs ps)"
    and "snd ` set (er_recycle_ptr r) \<union> set (ptrs ps) \<subseteq> fst ` blocks m" and "queue_ok r"
    and "no_readers (er_epoch_manager r)" and "0 < current_epoch (er_epoch_manager r)"
    and "unat (current_epoch (er_epoch_manager r)) + length ps < 2 ^ 64" and "2000 \<le> length ps"
  shows "\<exists>r' m'. ShmEpochRecycle_run free ps r m = Returns (r', m') \<and> inv m' \<and>
    blocks m' \<subseteq> {b \<in> blocks m. fst b \<notin> snd ` set (er_recycle_ptr r)} \<and>
    {b \<in> blocks m. fst b \<notin> snd ` set (er_recycle_ptr r) \<union> set (ptrs ps)} \<subseteq> blocks m' \<and>
    ShmEpochRecycle_GetPendingNum r' \<le> length (ptrs ps)"
proof -
  obtain r' m' where R: "ShmEpochRecycle_run free ps r m = Returns (r', m')" "inv m'" "queue_ok r'" "distinct (map snd (er_recycle_ptr r'))"
    "ps \<noteq> [] \<longrightarrow> (\<forall>(e, a) \<in> set (er_recycle_ptr r'). safe_to_reclaim_epoch (er_epoch_manager r') < e)"
    "unat (current_epoch (er_epoch_manager r')) = unat (current_epoch (er_epoch_manager r)) + bumps (er_recycled_count r) (length ps)"
    "bumps (er_recycled_count r) (length ps) = 0 \<longrightarrow>
      safe_to_reclaim_epoch (er_epoch_manager r') = safe_to_reclaim_epoch (er_epoch_manager r)"
    "0 < bumps (er_recycled_count r) (length ps) \<longrightarrow>
      unat (safe_to_reclaim_epoch (er_epoch_manager r')) + 2 = unat (current_epoch (er_epoch_manager r'))"
    "set (er_recycle_ptr r') \<subseteq> set (er_recycle_ptr r) \<union> UNIV \<times> set (ptrs ps)"
    "blocks m' = {b \<in> blocks m. fst b \<in> snd ` set (er_recycle_ptr r) \<union> set (ptrs ps) \<longrightarrow> fst b \<in> snd ` set (er_recycle_ptr r')}"
    using Recycle_run [OF assms(1-7)] by (elim exE conjE) (rule that)
  have "2 \<le> bumps (er_recycled_count r) (length ps)" using assms(8) by (rule bumps_two)
  then have safe: "current_epoch (er_epoch_manager r) \<le> safe_to_reclaim_epoch (er_epoch_manager r')"
    using R(6,8) by (simp add: word_le_nat_alt)
  have new: "a \<in> set (ptrs ps)" if "(e, a) \<in> set (er_recycle_ptr r')" for e a
  proof (rule ccontr)
    assume "a \<notin> set (ptrs ps)"
    then have "(e, a) \<in> set (er_recycle_ptr r)" using R(9) that by blast
    then have "e \<le> current_epoch (er_epoch_manager r)" using assms(4) by (auto simp: queue_ok_def)
    moreover have "safe_to_reclaim_epoch (er_epoch_manager r') < e" using R(5) that assms(8) by auto
    ultimately show False using safe by simp
  qed
  then have sub: "snd ` set (er_recycle_ptr r') \<subseteq> set (ptrs ps)" by auto
  then have "length (er_recycle_ptr r') \<le> length (ptrs ps)"
    using R(4) by (metis card_length card_mono distinct_card finite_set length_map order_trans set_map)
  moreover have "blocks m' \<subseteq> {b \<in> blocks m. fst b \<notin> snd ` set (er_recycle_ptr r)}"
    using sub assms(2) unfolding R(10) by auto
  moreover have "{b \<in> blocks m. fst b \<notin> snd ` set (er_recycle_ptr r) \<union> set (ptrs ps)} \<subseteq> blocks m'"
    unfolding R(10) by auto
  ultimately show ?thesis using R(1,2) by (auto simp: ShmEpochRecycle_GetPendingNum_def)
qed

end

text \<open>
  (C21) Liveness of the epoch recycler on the memory pool: while no reader is protected, every block that
  waits in the queue has been freed after 2000 further calls of \<open>Recycle\<close>; no block is freed that was
  not handed to the recycler, no call fails, and at most the blocks of those calls are still waiting.
\<close>

theorem ShmEpochRecycle_frees:
  assumes "pool_inv p" and "distinct (map snd (er_recycle_ptr r) @ ptrs ps)"
    and "snd ` set (er_recycle_ptr r) \<union> set (ptrs ps) \<subseteq> fst ` user_blocks perfect_fit p" and "queue_ok r"
    and "no_readers (er_epoch_manager r)" and "0 < current_epoch (er_epoch_manager r)"
    and "unat (current_epoch (er_epoch_manager r)) + length ps < 2 ^ 64" and "2000 \<le> length ps"
  shows "\<exists>r' p'. ShmEpochRecycle_run (Free perfect_fit) ps r p = Returns (r', p') \<and> pool_inv p' \<and>
    user_blocks perfect_fit p' \<subseteq> {b \<in> user_blocks perfect_fit p. fst b \<notin> snd ` set (er_recycle_ptr r)} \<and>
    {b \<in> user_blocks perfect_fit p. fst b \<notin> snd ` set (er_recycle_ptr r) \<union> set (ptrs ps)} \<subseteq> user_blocks perfect_fit p' \<and>
    ShmEpochRecycle_GetPendingNum r' \<le> length (ptrs ps)"
  by (rule pool.Recycle_frees_all [OF assms])

lemma ptrs_None: "ptrs (replicate n None) = []"
  by (induction n) simp_all

theorem ShmEpochRecycle_frees_witness:
  "\<exists>p r r' p'. New True 32000 demo_pool = Returns (32, p) \<and> er_recycle_ptr r = [(1, 32)] \<and>
     ShmEpochRecycle_run (Free True) (replicate 2000 None) r p = Returns (r', p') \<and>
     er_recycle_ptr r' = [] \<and> pool_blocks p' = {}"
proof -
  obtain p where p: "New True 32000 demo_pool = Returns (32, p)" using demo_New by blast
  have g: "grown (32, 32000) demo_pool p" using New_grown [OF demo_pool_inv(1) p] by auto
  then have P: "user_blocks True p = {(32, 32000)}" "pool_inv p" by (auto simp: grown_def user_blocks_def demo_pool_inv)
  let ?r = "\<lparr>er_epoch_manager = EpochManager_new, er_recycle_ptr = [(1, 32)], er_recycled_count = 0\<rparr>"
  have "queue_ok ?r" "no_readers (er_epoch_manager ?r)" "current_epoch (er_epoch_manager ?r) = 1"
    by (simp_all add: queue_ok_def no_readers_def EpochManager_new_def MinEpochTable_new_def EpochEntry_new_def)
  from ShmEpochRecycle_frees [OF P(2), of ?r "replicate 2000 None" True] this P(1)
  obtain r' p' where "ShmEpochRecycle_run (Free True) (replicate 2000 None) ?r p = Returns (r', p')"
    "er_recycle_ptr r' = []" "user_blocks True p' = {}"
    by (auto simp: ptrs_None ShmEpochRecycle_GetPendingNum_def)
  then show ?thesis
    using p by (intro exI [of _ p] exI [of _ ?r] exI [of _ r'] exI [of _ p']) (simp add: user_blocks_def)
qed

end
