(* ===== verification/Mem_Simple.thy ===== *)
theory Mem_Simple
  imports Mem_Pool
begin

text \<open>
  The bump allocator (\<open>src/src/memory/persist_malloc.h\<close>: \<open>PersistSimpleMalloc\<close>): blocks of one size
  are handed out in turn and a block is never freed. Pointers are offsets from \<open>data_\<close>; the counters
  are 64 bit words as in the code, the sizes given to the constructor are natural numbers below
  \<open>2 ^ 63\<close>.
\<close>

section \<open>The operations\<close>

record PersistSimpleMalloc =
  sm_allocated :: u64
  sm_nr_malloc :: u64
  sm_meta_data_block :: "u64 list"
  sm_memory_size :: nat
  sm_slab_size :: nat

text \<open>\<open>meta\<close> is what the file holds in front of the blocks.\<close>

definition SimpleMalloc_new :: "u64 list \<Rightarrow> nat \<Rightarrow> nat \<Rightarrow> PersistSimpleMalloc run" where
  "SimpleMalloc_new meta memory_size slab =
     (if slab = 0 then Aborts (Undefined ''division by zero'')
      else Returns \<lparr>sm_allocated = 0 + of_nat slab, sm_nr_malloc = 0,
        sm_meta_data_block = take (memory_size div slab) meta,
        sm_memory_size = memory_size, sm_slab_size = slab\<rparr>)"

definition SimpleMalloc_New :: "nat \<Rightarrow> PersistSimpleMalloc \<Rightarrow> (u64 \<times> PersistSimpleMalloc) run" where
  "SimpleMalloc_New malloc_size s =
     run_bind (run_check (malloc_size = sm_slab_size s) ''malloc_size == slab_size_'') (\<lambda>_.
       let offset = sm_allocated s;
           allocated = sm_allocated s + of_nat malloc_size;
           nr_malloc = sm_nr_malloc s + 1;
           slab = of_nat (sm_slab_size s);
           (offset, allocated) =
             (if offset + slab \<ge> of_nat (sm_memory_size s) then (0, 0) else (offset, allocated))
       in run_bind (run_check (offset + slab \<le> of_nat (sm_memory_size s)) ''offset + slab_size_ <= memory_size_'') (\<lambda>_.
         let i = unat (offset div slab)
         in if i < length (sm_meta_data_block s)
            then Returns (offset, s\<lparr>sm_allocated := allocated, sm_nr_malloc := nr_malloc,
              sm_meta_data_block := (sm_meta_data_block s)[i := of_nat malloc_size]\<rparr>)
            else Aborts (Undefined ''meta_data_block_ out of range'')))"

definition SimpleMalloc_Free :: "nat \<Rightarrow> PersistSimpleMalloc \<Rightarrow> (bool \<times> PersistSimpleMalloc) run" where
  "SimpleMalloc_Free memory_data s = Aborts (LogFatal ''not implement'')"

definition SimpleMalloc_GetInfo :: "PersistSimpleMalloc \<Rightarrow> (u64 \<times> nat \<times> u64) run" where
  "SimpleMalloc_GetInfo s =
     (if sm_memory_size s = 0 then Aborts (Undefined ''division by zero'')
      else Returns (sm_allocated s, sm_memory_size s, sm_allocated s * 100 div of_nat (sm_memory_size s)))"

definition SimpleMalloc_Initialize :: "PersistSimpleMalloc \<Rightarrow> PersistSimpleMalloc" where
  "SimpleMalloc_Initialize s = s\<lparr>sm_allocated := 0\<rparr>"

definition SimpleMalloc_GetMallocSize :: "nat \<Rightarrow> PersistSimpleMalloc \<Rightarrow> u64 run" where
  "SimpleMalloc_GetMallocSize off s =
     (if off div sm_slab_size s < length (sm_meta_data_block s)
      then Returns (sm_meta_data_block s ! (off div sm_slab_size s))
      else Aborts (Undefined ''meta_data_block_ out of range''))"

text \<open>The offset of a pointer \<open>d\<close>, a distance from \<open>data_\<close>.\<close>

definition SimpleMalloc_GetMallocOffset :: "int \<Rightarrow> PersistSimpleMalloc \<Rightarrow> int run" where
  "SimpleMalloc_GetMallocOffset d s =
     run_bind (run_check (0 \<le> d) ''data_ <= data'') (\<lambda>_.
     run_bind (run_check (d + int (sm_slab_size s) < int (sm_memory_size s)) ''data + slab_size_ < data_ + memory_size_'')
       (\<lambda>_. Returns d))"

text \<open>A sequence of \<open>n\<close> allocations, with the addresses in order.\<close>

fun SimpleMalloc_News :: "nat \<Rightarrow> nat \<Rightarrow> PersistSimpleMalloc \<Rightarrow> (u64 list \<times> PersistSimpleMalloc) run" where
  "SimpleMalloc_News malloc_size 0 s = Returns ([], s)"
| "SimpleMalloc_News malloc_size (Suc n) s =
     run_bind (SimpleMalloc_New malloc_size s) (\<lambda>(a, s1).
     run_bind (SimpleMalloc_News malloc_size n s1) (\<lambda>(as, s2). Returns (a # as, s2)))"

section \<open>The addresses in closed form\<close>

text \<open>
  The allocator has \<open>simple_slots\<close> many slots. The counter stands for a position \<open>t\<close> in a cycle of
  one more step: position \<open>simple_slots\<close> is the wrap-around, which hands out the first slot and
  leaves the counter at 0.
\<close>

definition simple_slots :: "nat \<Rightarrow> nat \<Rightarrow> nat" where
  "simple_slots memory_size slab = (memory_size - 1) div slab"

definition simple_addr :: "nat \<Rightarrow> nat \<Rightarrow> nat \<Rightarrow> nat" where
  "simple_addr memory_size slab t =
     (let c = simple_slots memory_size slab in if t mod (c + 1) < c then (t mod (c + 1)) * slab else 0)"

definition simple_at :: "nat \<Rightarrow> PersistSimpleMalloc \<Rightarrow> bool" where
  "simple_at t s \<longleftrightarrow> 0 < sm_slab_size s \<and> sm_slab_size s < sm_memory_size s \<and> sm_memory_size s < 2 ^ 63 \<and>
     length (sm_meta_data_block s) = sm_memory_size s div sm_slab_size s \<and>
     unat (sm_allocated s) = (t mod (simple_slots (sm_memory_size s) (sm_slab_size s) + 1)) * sm_slab_size s"

lemma slot_room_iff:
  assumes "0 < (slab :: nat)" and "slab < m"
  shows "j * slab + slab < m \<longleftrightarrow> j < (m - 1) div slab"
proof -
  have "j < (m - 1) div slab \<longleftrightarrow> Suc j * slab \<le> m - 1"
    using assms(1) by (simp only: less_eq_div_iff_mult_less_eq Suc_le_eq [symmetric])
  then show ?thesis using assms(2) by auto
qed

lemma unat_of_nat_self: "of_nat (unat (a :: u64)) = a"
  by simp

lemma unat_add_u64: "unat (a :: u64) + unat b < 2 ^ 64 \<Longrightarrow> unat (a + b) = unat a + unat b"
  by (simp add: unat_word_ariths)

lemma SimpleMalloc_New_step:
  assumes at: "simple_at t s"
  shows "\<exists>s'. SimpleMalloc_New (sm_slab_size s) s =
      Returns (of_nat (simple_addr (sm_memory_size s) (sm_slab_size s) t), s') \<and> simple_at (Suc t) s' \<and>
      sm_memory_size s' = sm_memory_size s \<and> sm_slab_size s' = sm_slab_size s \<and> sm_nr_malloc s' = sm_nr_malloc s + 1 \<and>
      sm_meta_data_block s' = (sm_meta_data_block s)
        [simple_addr (sm_memory_size s) (sm_slab_size s) t div sm_slab_size s := of_nat (sm_slab_size s)]"
proof -
  define m where "m = sm_memory_size s"
  define slab where "slab = sm_slab_size s"
  define c where "c = simple_slots m slab"
  define j where "j = t mod (c + 1)"
  have A: "0 < slab" "slab < m" "m < 2 ^ 63" "length (sm_meta_data_block s) = m div slab"
    and al: "unat (sm_allocated s) = j * slab"
    using at by (simp_all add: simple_at_def m_def slab_def c_def j_def)
  have addr: "simple_addr m slab t = (if j < c then j * slab else 0)"
    unfolding simple_addr_def Let_def c_def [symmetric] j_def [symmetric] ..
  have jc: "j \<le> c" by (simp add: j_def flip: less_Suc_eq_le)
  have cm: "c * slab < m" using div_times_less_eq_dividend [of "m - 1" slab] A(1,2) unfolding c_def simple_slots_def by linarith
  have "j * slab \<le> c * slab" using jc by (rule mult_le_mono1)
  then have jm: "j * slab < m" using cm by linarith
  have wm: "unat (of_nat m :: u64) = m" and ws: "unat (of_nat slab :: u64) = slab"
    using A by (auto intro!: unat_nat_u64)
  have sum: "unat (sm_allocated s + of_nat slab) = j * slab + slab"
    using jm A by (subst unat_add_u64) (simp_all add: al ws)
  have room: "\<not> of_nat m \<le> sm_allocated s + of_nat slab \<longleftrightarrow> j < c"
    using slot_room_iff [OF A(1,2), of j] by (simp add: word_le_nat_alt sum wm not_le c_def simple_slots_def)
  show ?thesis
  proof (cases "j < c")
    case True
    then have le: "sm_allocated s + of_nat slab \<le> of_nat m" using room by auto
    have off: "sm_allocated s = of_nat (j * slab)" by (simp only: al [symmetric] unat_of_nat_self)
    have "unat (sm_allocated s div of_nat slab) = j" using A(1) by (simp add: unat_div al ws)
    moreover have "j < m div slab"
      using True A(1) div_le_mono [of "m - 1" m slab] by (simp add: c_def simple_slots_def)
    moreover have "Suc t mod (c + 1) = Suc j" using True by (simp add: j_def mod_Suc)
    ultimately show ?thesis
      using True le room A sum off
      by (simp add: SimpleMalloc_New_def Let_def run_simps simple_at_def addr
          flip: m_def slab_def c_def)
  next
    case False
    then have "j = c" using jc by simp
    then have "Suc t mod (c + 1) = 0" by (simp add: j_def mod_Suc)
    moreover have "of_nat slab \<le> (of_nat m :: u64)" using A by (simp add: word_le_nat_alt wm ws)
    moreover have "0 < m div slab" using A by (simp add: div_greater_zero_iff)
    ultimately show ?thesis
      using False room A
      by (simp add: SimpleMalloc_New_def Let_def run_simps simple_at_def addr
          flip: m_def slab_def c_def)
  qed
qed

lemma SimpleMalloc_News_addrs:
  assumes "simple_at t s"
  shows "\<exists>s'. SimpleMalloc_News (sm_slab_size s) n s =
    Returns (map (\<lambda>i. of_nat (simple_addr (sm_memory_size s) (sm_slab_size s) (t + i))) [0..<n], s')"
  using assms
proof (induction n arbitrary: t s)
  case 0
  then show ?case by simp
next
  case (Suc n)
  from SimpleMalloc_New_step [OF Suc.prems] obtain s1 where
    s1: "SimpleMalloc_New (sm_slab_size s) s = Returns (of_nat (simple_addr (sm_memory_size s) (sm_slab_size s) t), s1)"
    "simple_at (Suc t) s1" "sm_memory_size s1 = sm_memory_size s" "sm_slab_size s1 = sm_slab_size s" by blast
  let ?f = "\<lambda>i. of_nat (simple_addr (sm_memory_size s) (sm_slab_size s) i) :: u64"
  have "map (\<lambda>i. ?f (t + i)) [0..<Suc n] = ?f t # map (\<lambda>i. ?f (Suc t + i)) [0..<n]"
    by (simp add: upt_conv_Cons flip: map_Suc_upt del: upt_Suc)
  then show ?case using Suc.IH [OF s1(2)] s1 by (auto simp del: upt_Suc)
qed

lemma simple_addr_range:
  assumes "0 < slab" and "slab < m"
  shows "simple_addr m slab t + slab < m"
proof -
  have "0 < simple_slots m slab" using slot_room_iff [OF assms, of 0] assms by (simp add: simple_slots_def)
  then show ?thesis
    using slot_room_iff [OF assms] assms by (auto simp: simple_addr_def Let_def simple_slots_def)
qed

text \<open>
  (C22) The addresses that a new bump allocator hands out, in closed form: the slots after the first in
  order, then the first slot twice in a row, and so on in a cycle. Every address leaves room for the
  block and passes the checks of \<open>GetMallocOffset\<close>. No allocation fails; after the first cycle all
  blocks are handed out again although none has been freed.
\<close>

theorem SimpleMalloc_addresses:
  assumes "0 < slab" and "slab < memory_size" and "memory_size < 2 ^ 63" and "memory_size div slab \<le> length meta"
  shows "\<exists>s s'. SimpleMalloc_new meta memory_size slab = Returns s \<and>
    SimpleMalloc_News slab n s = Returns (map (\<lambda>i. of_nat (simple_addr memory_size slab (Suc i))) [0..<n], s') \<and>
    (\<forall>t. SimpleMalloc_GetMallocOffset (int (simple_addr memory_size slab t)) s =
       Returns (int (simple_addr memory_size slab t))) \<and>
    simple_addr memory_size slab (simple_slots memory_size slab) = 0 \<and>
    simple_addr memory_size slab (Suc (simple_slots memory_size slab)) = 0"
proof -
  let ?s = "\<lparr>sm_allocated = of_nat slab, sm_nr_malloc = 0, sm_meta_data_block = take (memory_size div slab) meta,
    sm_memory_size = memory_size, sm_slab_size = slab\<rparr>"
  have "1 \<le> simple_slots memory_size slab"
    using slot_room_iff [OF assms(1,2), of 0] assms(2) by (simp add: simple_slots_def)
  then have "1 mod (simple_slots memory_size slab + 1) = 1" by simp
  then have at: "simple_at 1 ?s" using assms unat_nat_u64 [of slab] by (simp add: simple_at_def)
  have off: "SimpleMalloc_GetMallocOffset (int (simple_addr memory_size slab t)) ?s = Returns (int (simple_addr memory_size slab t))" for t
    using simple_addr_range [OF assms(1,2), of t] by (simp add: SimpleMalloc_GetMallocOffset_def run_simps run_check_def)
  obtain s' where "SimpleMalloc_News slab n ?s = Returns (map (\<lambda>i. of_nat (simple_addr memory_size slab (Suc i))) [0..<n], s')"
    using SimpleMalloc_News_addrs [OF at, of n] by auto
  moreover have "simple_addr memory_size slab (simple_slots memory_size slab) = 0"
    "simple_addr memory_size slab (Suc (simple_slots memory_size slab)) = 0"
    by (simp_all add: simple_addr_def Let_def)
  ultimately show ?thesis
    using assms(1) off by (intro exI [of _ ?s] exI [of _ s']) (simp add: SimpleMalloc_new_def)
qed

theorem SimpleMalloc_addresses_witness:
  "\<exists>s s'. SimpleMalloc_new (replicate 4 0) 33 8 = Returns s \<and> SimpleMalloc_News 8 7 s = Returns ([8, 16, 24, 0, 0, 8, 16], s')"
  using SimpleMalloc_addresses [of 8 33 "replicate 4 0" 7]
  by (auto simp: simple_addr_def simple_slots_def upt_rec_numeral upt_conv_Cons cong: if_cong)

end
