(* ===== verification/Mem_Epoch_Steps.thy ===== *)
theory Mem_Epoch_Steps
  imports Mem_Epoch
begin

text \<open>
  The interleaving of readers and writers on the epoch manager, as a step relation. A reader's
  \<open>Protect\<close> is two steps, the load of the epoch and the push into its entry; a writer's
  \<open>BumpCurrentEpoch\<close> is the \<open>fetch_add\<close>, one step for every entry it reads, and the store. A writer
  retires an object by putting it with the current epoch into its own queue, and reclaims the front
  of the queue when the manager says that this is safe. Steps are sequentially consistent.
\<close>

section \<open>States and steps\<close>

record epoch_state =
  es_mgr :: EpochManager
  es_loaded :: "u64 \<rightharpoonup> u64"
  es_bumping :: "nat \<rightharpoonup> nat \<times> u64"
  es_retired :: "nat \<Rightarrow> (u64 \<times> nat) list"

datatype epoch_event =
  ELoad u64 | EPush u64 | EUnProtect u64 | EBump nat | EScan nat | EStore nat | ERetire nat nat | EReclaim nat

definition epoch_start :: epoch_state where
  "epoch_start = \<lparr>es_mgr = EpochManager_new, es_loaded = Map.empty, es_bumping = Map.empty, es_retired = (\<lambda>w. [])\<rparr>"

inductive epoch_step :: "(u64 \<Rightarrow> u64) \<Rightarrow> epoch_state \<Rightarrow> epoch_event \<Rightarrow> epoch_state \<Rightarrow> bool" for get_hash where
  load: "tid \<noteq> 0 \<Longrightarrow> epoch_step get_hash s (ELoad tid) (s\<lparr>es_loaded := (es_loaded s)(tid \<mapsto> GetCurrentEpoch (es_mgr s))\<rparr>)"
| push: "es_loaded s tid = Some p \<Longrightarrow>
    EnqueProtect get_hash clock tid p (epoch_table (es_mgr s)) = Returns t \<Longrightarrow>
    epoch_step get_hash s (EPush tid) (s\<lparr>es_loaded := (es_loaded s)(tid := None), es_mgr := (es_mgr s)\<lparr>epoch_table := t\<rparr>\<rparr>)"
| unprotect: "tid \<noteq> 0 \<Longrightarrow> UnProtect get_hash clock tid (es_mgr s) = Returns m \<Longrightarrow>
    epoch_step get_hash s (EUnProtect tid) (s\<lparr>es_mgr := m\<rparr>)"
| bump: "es_bumping s w = None \<Longrightarrow>
    epoch_step get_hash s (EBump w) (s\<lparr>es_bumping := (es_bumping s)(w \<mapsto> (0, current_epoch (es_mgr s))),
      es_mgr := (es_mgr s)\<lparr>current_epoch := current_epoch (es_mgr s) + 1\<rparr>\<rparr>)"
| scan: "es_bumping s w = Some (i, old) \<Longrightarrow> i < length (epoch_entries (epoch_table (es_mgr s))) \<Longrightarrow>
    epoch_step get_hash s (EScan w)
      (s\<lparr>es_bumping := (es_bumping s)(w \<mapsto> (Suc i, oldest_step (epoch_entries (epoch_table (es_mgr s)) ! i) old))\<rparr>)"
| store: "es_bumping s w = Some (i, old) \<Longrightarrow> i = length (epoch_entries (epoch_table (es_mgr s))) \<Longrightarrow>
    epoch_step get_hash s (EStore w)
      (s\<lparr>es_bumping := (es_bumping s)(w := None), es_mgr := (es_mgr s)\<lparr>safe_to_reclaim_epoch := old - 1\<rparr>\<rparr>)"
| retire: "epoch_step get_hash s (ERetire w a)
      (s\<lparr>es_retired := (es_retired s)(w := es_retired s w @ [(GetCurrentEpoch (es_mgr s), a)])\<rparr>)"
| reclaim: "es_retired s w = (e, a) # q \<Longrightarrow> IsSafeToReclaim e (es_mgr s) \<Longrightarrow>
    epoch_step get_hash s (EReclaim w) (s\<lparr>es_retired := (es_retired s)(w := q)\<rparr>)"

inductive epoch_run :: "(u64 \<Rightarrow> u64) \<Rightarrow> epoch_state \<Rightarrow> epoch_event list \<Rightarrow> epoch_state \<Rightarrow> bool" for get_hash where
  run_nil: "epoch_run get_hash s [] s"
| run_snoc: "epoch_run get_hash s tr s1 \<Longrightarrow> epoch_step get_hash s1 ev s2 \<Longrightarrow> epoch_run get_hash s (tr @ [ev]) s2"

inductive_cases epoch_stepE:
  "epoch_step h s (ELoad tid) s'" "epoch_step h s (EPush tid) s'" "epoch_step h s (EUnProtect tid) s'"
  "epoch_step h s (EBump w) s'" "epoch_step h s (EScan w) s'" "epoch_step h s (EStore w) s'"
  "epoch_step h s (ERetire w a) s'" "epoch_step h s (EReclaim w) s'"

section \<open>A bump of the epoch as a sequence of steps\<close>

lemma scan_run:
  assumes "es_bumping s w = Some (i, old)" and "i + n = length (epoch_entries (epoch_table (es_mgr s)))"
  shows "epoch_run h s (replicate n (EScan w))
    (s\<lparr>es_bumping := (es_bumping s)(w \<mapsto> (i + n, fold oldest_step (take n (drop i (epoch_entries (epoch_table (es_mgr s))))) old))\<rparr>)"
proof -
  let ?es = "epoch_entries (epoch_table (es_mgr s))"
  have "epoch_run h s (replicate k (EScan w))
    (s\<lparr>es_bumping := (es_bumping s)(w \<mapsto> (i + k, fold oldest_step (take k (drop i ?es)) old))\<rparr>)" if "k \<le> n" for k
    using that
  proof (induction k)
    case 0
    then show ?case using assms(1) run_nil by (simp add: fun_upd_idem)
  next
    case (Suc k)
    let ?s = "s\<lparr>es_bumping := (es_bumping s)(w \<mapsto> (i + k, fold oldest_step (take k (drop i ?es)) old))\<rparr>"
    let ?s' = "s\<lparr>es_bumping := (es_bumping s)(w \<mapsto> (i + Suc k, fold oldest_step (take (Suc k) (drop i ?es)) old))\<rparr>"
    have "take (Suc k) (drop i ?es) = take k (drop i ?es) @ [?es ! (i + k)]"
      using Suc.prems assms(2) by (simp add: take_Suc_conv_app_nth)
    moreover have "epoch_step h ?s (EScan w) (?s\<lparr>es_bumping := (es_bumping ?s)(w \<mapsto>
        (Suc (i + k), oldest_step (epoch_entries (epoch_table (es_mgr ?s)) ! (i + k)) (fold oldest_step (take k (drop i ?es)) old)))\<rparr>)"
      by (rule scan) (use Suc.prems assms(2) in simp_all)
    ultimately have "epoch_step h ?s (EScan w) ?s'" by simp
    from run_snoc [OF Suc.IH this] Suc.prems show ?case by (simp only: Suc_leD replicate_append_same replicate_Suc)
  qed
  then show ?thesis by simp
qed

lemma epoch_run_append:
  "epoch_run h s2 tr2 s3 \<Longrightarrow> epoch_run h s1 tr1 s2 \<Longrightarrow> epoch_run h s1 (tr1 @ tr2) s3"
  by (induction rule: epoch_run.induct) (auto intro: run_snoc simp flip: append_assoc)

lemma BumpCurrentEpoch_run:
  assumes "es_bumping s w = None"
  shows "epoch_run h s (EBump w # replicate (length (epoch_entries (epoch_table (es_mgr s)))) (EScan w) @ [EStore w])
    (s\<lparr>es_mgr := BumpCurrentEpoch (es_mgr s)\<rparr>)"
proof -
  let ?n = "length (epoch_entries (epoch_table (es_mgr s)))" and ?es = "epoch_entries (epoch_table (es_mgr s))"
  let ?s1 = "s\<lparr>es_bumping := (es_bumping s)(w \<mapsto> (0, current_epoch (es_mgr s))),
      es_mgr := (es_mgr s)\<lparr>current_epoch := current_epoch (es_mgr s) + 1\<rparr>\<rparr>"
  have 1: "epoch_run h s ([] @ [EBump w]) ?s1" by (rule run_snoc [OF run_nil bump [OF assms]])
  let ?s2 = "?s1\<lparr>es_bumping := (es_bumping ?s1)(w \<mapsto> (?n, fold oldest_step ?es (current_epoch (es_mgr s))))\<rparr>"
  have 2: "epoch_run h ?s1 (replicate ?n (EScan w)) ?s2"
    using scan_run [of ?s1 w 0 "current_epoch (es_mgr s)" ?n h] by simp
  have 3: "epoch_step h ?s2 (EStore w) (?s2\<lparr>es_bumping := (es_bumping ?s2)(w := None),
      es_mgr := (es_mgr ?s2)\<lparr>safe_to_reclaim_epoch := fold oldest_step ?es (current_epoch (es_mgr s)) - 1\<rparr>\<rparr>)"
    by (rule store) simp_all
  have "?s2\<lparr>es_bumping := (es_bumping ?s2)(w := None),
      es_mgr := (es_mgr ?s2)\<lparr>safe_to_reclaim_epoch := fold oldest_step ?es (current_epoch (es_mgr s)) - 1\<rparr>\<rparr> =
    s\<lparr>es_mgr := BumpCurrentEpoch (es_mgr s)\<rparr>"
    using assms by (simp add: BumpCurrentEpoch_def Manager_ComputeNewSafeToReclaimEpoch_def
        ComputeNewSafeToReclaimEpoch_def fun_upd_idem)
  then show ?thesis using run_snoc [OF epoch_run_append [OF 2 1] 3] by simp
qed

section \<open>Invariant\<close>

definition pending :: "epoch_state \<Rightarrow> u64 set" where
  "pending s = (\<Union>e \<in> set (epoch_entries (epoch_table (es_mgr s))). set (epoch_list e))"

definition epoch_inv :: "epoch_state \<Rightarrow> bool" where
  "epoch_inv s \<longleftrightarrow> table_wf (epoch_table (es_mgr s)) \<and>
     safe_to_reclaim_epoch (es_mgr s) < current_epoch (es_mgr s) \<and>
     (\<forall>p \<in> pending s. 0 < p \<and> p \<le> current_epoch (es_mgr s)) \<and>
     (\<forall>tid p. es_loaded s tid = Some p \<longrightarrow> tid \<noteq> 0 \<and> 0 < p \<and> p \<le> current_epoch (es_mgr s)) \<and>
     (\<forall>w i old. es_bumping s w = Some (i, old) \<longrightarrow> 0 < old \<and> old < current_epoch (es_mgr s))"

lemma epoch_invD:
  assumes "epoch_inv s"
  shows "table_wf (epoch_table (es_mgr s))"
    "safe_to_reclaim_epoch (es_mgr s) < current_epoch (es_mgr s)"
    "p \<in> pending s \<Longrightarrow> 0 < p \<and> p \<le> current_epoch (es_mgr s)"
    "es_loaded s tid = Some p \<Longrightarrow> tid \<noteq> 0 \<and> 0 < p \<and> p \<le> current_epoch (es_mgr s)"
    "es_bumping s w = Some (i, old) \<Longrightarrow> 0 < old \<and> old < current_epoch (es_mgr s)"
  using assms by (auto simp: epoch_inv_def)

text \<open>How the push and the removal of an epoch change the table.\<close>

lemma EnqueProtect_Returns:
  assumes "table_wf t" and "tid \<noteq> 0" and "EnqueProtect h clock tid p t = Returns t'"
  obtains i where "table_wf t'" "thread_local_entry t' = (thread_local_entry t)(tid \<mapsto> i)" "i < length (epoch_entries t)"
    "map epoch_list (epoch_entries t') = (map epoch_list (epoch_entries t))[i := epoch_list (epoch_entries t ! i) @ [p]]"
proof -
  from assms(3) obtain i t1 where r: "GetEntryForThread h clock tid t = Returns (i, t1)"
    "t' = t1\<lparr>epoch_entries := (epoch_entries t1)[i := Entry_EnqueProtect p (epoch_entries t1 ! i)]\<rparr>"
    by (auto simp: EnqueProtect_def run_simps)
  note g = GetEntryForThread_Returns [OF assms(1,2) r(1)]
  have "epoch_list (epoch_entries t1 ! i) = epoch_list (epoch_entries t ! i)"
    using g(3-5) by (metis nth_map)
  then have "map epoch_list (epoch_entries t') = (map epoch_list (epoch_entries t))[i := epoch_list (epoch_entries t ! i) @ [p]]"
    using g(5) r(2) by (simp add: map_update Entry_EnqueProtect_def)
  moreover have "thread_id (epoch_entries t1 ! i) = tid" using g(1,2) by (simp add: table_wf_def)
  then have "table_wf t'"
    using g(1) assms(2) by (auto simp: r(2) table_wf_def nth_list_update_any Entry_EnqueProtect_def)
  ultimately show thesis using that [of i] g(2,3) r(2) by simp
qed

lemma PopUnprotect_Returns:
  assumes "table_wf t" and "tid \<noteq> 0" and "PopUnprotect h clock tid t = Returns t'"
  obtains i where "table_wf t'" "thread_local_entry t' = (thread_local_entry t)(tid \<mapsto> i)" "i < length (epoch_entries t)"
    "map epoch_list (epoch_entries t') = (map epoch_list (epoch_entries t))[i := tl (epoch_list (epoch_entries t ! i))]"
proof -
  from assms(3) obtain i t1 e where r: "GetEntryForThread h clock tid t = Returns (i, t1)"
    "Entry_DequeUnProtect (epoch_entries t1 ! i) = Returns e" "t' = t1\<lparr>epoch_entries := (epoch_entries t1)[i := e]\<rparr>"
    by (auto simp: PopUnprotect_def run_simps)
  then have e: "e = (epoch_entries t1 ! i)\<lparr>epoch_list := tl (epoch_list (epoch_entries t1 ! i))\<rparr>"
    by (auto simp: Entry_DequeUnProtect_def split: list.splits)
  note g = GetEntryForThread_Returns [OF assms(1,2) r(1)]
  have "epoch_list (epoch_entries t1 ! i) = epoch_list (epoch_entries t ! i)"
    using g(3-5) by (metis nth_map)
  then have "map epoch_list (epoch_entries t') = (map epoch_list (epoch_entries t))[i := tl (epoch_list (epoch_entries t ! i))]"
    using g(5) r(3) e by (simp add: map_update)
  moreover have "table_wf t'"
    using g(1) by (auto simp: r(3) e table_wf_def nth_list_update_any)
  ultimately show thesis using that [of i] g(2,3) r(3) by simp
qed

lemma pending_map: "pending s = \<Union> (set ` set (map epoch_list (epoch_entries (epoch_table (es_mgr s)))))"
  by (simp add: pending_def)

lemma Union_update:
  assumes "i < length xss" and "set ys \<subseteq> insert p (set (xss ! i))"
  shows "\<Union> (set ` set (xss[i := ys])) \<subseteq> insert p (\<Union> (set ` set xss))"
proof -
  have "\<Union> (set ` set (xss[i := ys])) \<subseteq> set ys \<union> \<Union> (set ` set xss)"
    using set_update_subset_insert [of xss i ys] by auto
  moreover have "set (xss ! i) \<subseteq> \<Union> (set ` set xss)" using assms(1) by (auto intro: nth_mem)
  ultimately show ?thesis using assms(2) by blast
qed

lemma word_pred_less: "0 < (b :: u64) \<Longrightarrow> b \<le> e \<Longrightarrow> b - 1 < e"
  by (simp add: word_less_nat_alt word_le_nat_alt unat_minus_one word_neq_0_conv)

lemma word_inc_le: "(p :: u64) \<le> c \<Longrightarrow> unat c < 2 ^ 64 - 1 \<Longrightarrow> p < c + 1 \<and> p \<le> c + 1"
  by (simp add: word_less_nat_alt word_le_nat_alt unat_word_ariths)

lemma epoch_step_inv:
  assumes inv: "epoch_inv s" and st: "epoch_step h s ev s'" and no: "unat (current_epoch (es_mgr s)) < 2 ^ 64 - 1"
  shows "epoch_inv s'"
  using st
proof (cases rule: epoch_step.cases)
  case (load tid)
  then show ?thesis using epoch_invD [OF inv] by (auto simp: epoch_inv_def pending_def GetCurrentEpoch_def word_gt_0)
next
  case (push tid p clock t)
  note l = epoch_invD(4) [OF inv push(3)]
  obtain i where i: "table_wf t" "i < length (epoch_entries (epoch_table (es_mgr s)))"
    "map epoch_list (epoch_entries t) = (map epoch_list (epoch_entries (epoch_table (es_mgr s))))
      [i := epoch_list (epoch_entries (epoch_table (es_mgr s)) ! i) @ [p]]"
    using EnqueProtect_Returns [OF epoch_invD(1) [OF inv] _ push(4)] l by metis
  have "pending s' \<subseteq> insert p (pending s)"
    unfolding pending_map push(2) using i by (simp del: set_map add: Union_update)
  then show ?thesis using epoch_invD [OF inv] l i(1) by (auto simp: epoch_inv_def push(2) split: if_splits)
next
  case (unprotect tid clock m)
  then obtain t where t: "PopUnprotect h clock tid (epoch_table (es_mgr s)) = Returns t" "m = (es_mgr s)\<lparr>epoch_table := t\<rparr>"
    by (auto simp: UnProtect_def run_simps)
  obtain i where i: "table_wf t" "i < length (epoch_entries (epoch_table (es_mgr s)))"
    "map epoch_list (epoch_entries t) = (map epoch_list (epoch_entries (epoch_table (es_mgr s))))
      [i := tl (epoch_list (epoch_entries (epoch_table (es_mgr s)) ! i))]"
    using PopUnprotect_Returns [OF epoch_invD(1) [OF inv] unprotect(3) t(1)] by metis
  have "set (tl xs) \<subseteq> set xs" for xs :: "u64 list" by (cases xs) auto
  then have "pending s' \<subseteq> insert p (pending s)" for p
    unfolding pending_map unprotect(2) t(2) using i by (simp del: set_map add: Union_update subset_insertI2)
  from this [of 1] this [of 2] have "pending s' \<subseteq> pending s" by auto
  then show ?thesis using epoch_invD [OF inv] i(1) by (auto simp: epoch_inv_def unprotect(2) t(2))
next
  case (bump w)
  have c: "p \<le> current_epoch (es_mgr s) \<Longrightarrow> p < current_epoch (es_mgr s) + 1 \<and> p \<le> current_epoch (es_mgr s) + 1" for p
    using word_inc_le [OF _ no] .
  then have c': "old < current_epoch (es_mgr s) + 1" if "es_bumping s w = Some (i, old)" for w i old
    using epoch_invD(5) [OF inv that] by (simp add: less_imp_le)
  have "0 < current_epoch (es_mgr s)" using epoch_invD(2) [OF inv] by (metis word_gt_0 word_not_simps(1))
  then show ?thesis
    using epoch_invD [OF inv] c c' by (auto simp: epoch_inv_def bump pending_def)
next
  case (scan w i old)
  then have "0 < oldest_step (epoch_entries (epoch_table (es_mgr s)) ! i) old"
    "oldest_step (epoch_entries (epoch_table (es_mgr s)) ! i) old < current_epoch (es_mgr s)"
    using epoch_invD(5) [OF inv scan(3)] oldest_step_pos oldest_step_le le_less_trans by blast+
  then show ?thesis using epoch_invD [OF inv] by (auto simp: epoch_inv_def scan pending_def)
next
  case (store w i old)
  have "old - 1 < current_epoch (es_mgr s)" using epoch_invD(5) [OF inv store(3)] word_pred_less by (simp add: less_imp_le)
  then show ?thesis using epoch_invD [OF inv] by (auto simp: epoch_inv_def store pending_def)
next
  case (retire w a)
  then show ?thesis using epoch_invD [OF inv] by (auto simp: epoch_inv_def pending_def)
next
  case (reclaim w e a q)
  then show ?thesis using epoch_invD [OF inv] by (auto simp: epoch_inv_def pending_def)
qed

lemma epoch_run_inv:
  assumes "epoch_run h epoch_start tr s" and "length tr < 2 ^ 64 - 2"
  shows "epoch_inv s \<and> unat (current_epoch (es_mgr s)) \<le> 1 + length tr"
  using assms
proof (induction epoch_start tr s rule: epoch_run.induct)
  case run_nil
  then show ?case
    by (auto simp: epoch_inv_def epoch_start_def EpochManager_new_def MinEpochTable_new_def EpochEntry_new_def
        pending_def table_wf_def)
next
  case (run_snoc tr s1 ev s2)
  then have i: "epoch_inv s1" "unat (current_epoch (es_mgr s1)) \<le> 1 + length tr" by auto
  then have "epoch_inv s2" using epoch_step_inv [OF i(1) run_snoc(3)] run_snoc.prems by simp
  moreover have "unat (current_epoch (es_mgr s2)) \<le> 2 + length tr"
    using run_snoc(3) i(2)
    by (cases rule: epoch_step.cases) (auto simp: unat_word_ariths UnProtect_def run_simps intro: order_trans [OF mod_less_eq_dividend])
  ultimately show ?case by simp
qed

section \<open>A protected object stays\<close>

text \<open>
  The object \<open>a\<close> retired by writer \<open>w\<close> in epoch \<open>e\<close> is guarded by the thread whose entry \<open>j\<close> holds an epoch
  up to \<open>e\<close>: a writer that has read the entry, or read it before, can only store a smaller epoch than \<open>e\<close>.
\<close>

definition guarded :: "u64 \<Rightarrow> nat \<Rightarrow> nat \<Rightarrow> u64 \<Rightarrow> epoch_state \<Rightarrow> bool" where
  "guarded tid w a e s \<longleftrightarrow> (\<exists>j p. thread_local_entry (epoch_table (es_mgr s)) tid = Some j \<and>
     p \<in> set (epoch_list (epoch_entries (epoch_table (es_mgr s)) ! j)) \<and> p \<le> e \<and>
     safe_to_reclaim_epoch (es_mgr s) < e \<and>
     (\<forall>w i old. es_bumping s w = Some (i, old) \<longrightarrow> j < i \<longrightarrow> old \<le> e) \<and> (e, a) \<in> set (es_retired s w))"

lemma guardedE:
  assumes "guarded tid w a e s" and "epoch_inv s"
  obtains j p where "thread_local_entry (epoch_table (es_mgr s)) tid = Some j"
    "j < length (epoch_entries (epoch_table (es_mgr s)))"
    "p \<in> set (epoch_list (epoch_entries (epoch_table (es_mgr s)) ! j))" "p \<le> e" "0 < p"
    "safe_to_reclaim_epoch (es_mgr s) < e" "\<forall>w i old. es_bumping s w = Some (i, old) \<longrightarrow> j < i \<longrightarrow> old \<le> e"
    "(e, a) \<in> set (es_retired s w)"
proof -
  obtain j p where g: "thread_local_entry (epoch_table (es_mgr s)) tid = Some j"
    "p \<in> set (epoch_list (epoch_entries (epoch_table (es_mgr s)) ! j))" "p \<le> e"
    "safe_to_reclaim_epoch (es_mgr s) < e" "\<forall>w i old. es_bumping s w = Some (i, old) \<longrightarrow> j < i \<longrightarrow> old \<le> e"
    "(e, a) \<in> set (es_retired s w)" using assms(1) unfolding guarded_def by blast
  have j: "j < length (epoch_entries (epoch_table (es_mgr s)))"
    using epoch_invD(1) [OF assms(2)] g(1) by (auto simp: table_wf_def)
  then have "p \<in> pending s" using g(2) by (auto simp: pending_def)
  then show thesis using that [OF g(1) j g(2,3) _ g(4-6)] epoch_invD(3) [OF assms(2)] by blast
qed

lemma other_entry:
  assumes "table_wf t" and "thread_local_entry t tid = Some j" and "table_wf t'"
    and "thread_local_entry t' = (thread_local_entry t)(tid' \<mapsto> i)"
    and "map epoch_list (epoch_entries t') = (map epoch_list (epoch_entries t))[i := xs]" and "tid' \<noteq> tid"
  shows "epoch_list (epoch_entries t' ! j) = epoch_list (epoch_entries t ! j)"
proof -
  have "i \<noteq> j" using assms(2,3,4,6) unfolding table_wf_def by (metis fun_upd_other fun_upd_same)
  moreover have "length (epoch_entries t') = length (epoch_entries t)" using assms(5) by (metis length_list_update length_map)
  moreover have "j < length (epoch_entries t)" using assms(1,2) by (auto simp: table_wf_def)
  ultimately show ?thesis using arg_cong [OF assms(5), of "\<lambda>l. l ! j"] by simp
qed

lemma guarded_step:
  assumes g: "guarded tid w a e s" and inv: "epoch_inv s" and st: "epoch_step h s ev s'" and ev: "ev \<noteq> EUnProtect tid"
  shows "guarded tid w a e s'"
proof -
  let ?t = "epoch_table (es_mgr s)"
  obtain j p where J: "thread_local_entry ?t tid = Some j" "j < length (epoch_entries ?t)"
    "p \<in> set (epoch_list (epoch_entries ?t ! j))" "p \<le> e" "0 < p"
    "safe_to_reclaim_epoch (es_mgr s) < e" and B': "\<forall>w i old. es_bumping s w = Some (i, old) \<longrightarrow> j < i \<longrightarrow> old \<le> e"
    and q: "(e, a) \<in> set (es_retired s w)" using guardedE [OF g inv] .
  have B: "old \<le> e" if "es_bumping s w = Some (i, old)" "j < i" for w i old using B' that by blast
  from st show ?thesis
  proof (cases rule: epoch_step.cases)
    case (push tid' p' clock t')
    obtain i where i: "table_wf t'" "thread_local_entry t' = (thread_local_entry ?t)(tid' \<mapsto> i)" "i < length (epoch_entries ?t)"
      "map epoch_list (epoch_entries t') = (map epoch_list (epoch_entries ?t))[i := epoch_list (epoch_entries ?t ! i) @ [p']]"
      using EnqueProtect_Returns [OF epoch_invD(1) [OF inv] _ push(4)] epoch_invD(4) [OF inv push(3)] by metis
    have len: "length (epoch_entries t') = length (epoch_entries ?t)" using i(4) by (metis length_list_update length_map)
    have "p \<in> set (epoch_list (epoch_entries t' ! j))"
      using J(2,3) arg_cong [OF i(4), of "\<lambda>l. l ! j"] len by (cases "i = j") auto
    moreover have "thread_local_entry t' tid = Some j"
    proof (cases "tid' = tid")
      case True
      then show ?thesis using push(4) J(1) by (auto simp: EnqueProtect_def GetEntryForThread_def run_simps)
    qed (simp add: i(2) J(1))
    ultimately show ?thesis using J B q unfolding guarded_def push(2) by auto
  next
    case (unprotect tid' clock m)
    then obtain t' where t: "PopUnprotect h clock tid' ?t = Returns t'" "m = (es_mgr s)\<lparr>epoch_table := t'\<rparr>"
      by (auto simp: UnProtect_def run_simps)
    have ne: "tid' \<noteq> tid" using ev unprotect(1) by simp
    obtain i where i: "table_wf t'" "thread_local_entry t' = (thread_local_entry ?t)(tid' \<mapsto> i)" "i < length (epoch_entries ?t)"
      "map epoch_list (epoch_entries t') = (map epoch_list (epoch_entries ?t))[i := tl (epoch_list (epoch_entries ?t ! i))]"
      using PopUnprotect_Returns [OF epoch_invD(1) [OF inv] unprotect(3) t(1)] by metis
    have "epoch_list (epoch_entries t' ! j) = epoch_list (epoch_entries ?t ! j)"
      by (rule other_entry [OF epoch_invD(1) [OF inv] J(1) i(1,2,4) ne])
    then show ?thesis using J B q i(2) ne unfolding guarded_def unprotect(2) t(2) by auto
  next
    case (scan w' i old)
    have "epoch_entries ?t ! j \<in> set (epoch_entries ?t)" using J(2) by simp
    then have "0 \<notin> set (epoch_list (epoch_entries ?t ! j))" using epoch_invD(3) [OF inv, of 0] by (auto simp: pending_def)
    then have "oldest_step (epoch_entries ?t ! j) old \<le> e" using oldest_step_min [OF J(3)] J(4) by (meson order_trans)
    moreover have "oldest_step (epoch_entries ?t ! i) old \<le> e" if "j < i"
      using B [OF scan(3) that] oldest_step_le by (meson order_trans)
    ultimately show ?thesis using J B q unfolding guarded_def scan(2) by (auto simp: less_Suc_eq)
  next
    case (store w' i old)
    have "old - 1 < e" using word_pred_less B [OF store(3)] J(2) store(4) epoch_invD(5) [OF inv store(3)] by blast
    then show ?thesis using J B q unfolding guarded_def store(2) by (auto split: if_splits)
  next
    case (reclaim w' e' a' q')
    then have "e' \<noteq> e" using J(6) by (auto simp: IsSafeToReclaim_def)
    then show ?thesis using J B q reclaim(3) unfolding guarded_def reclaim(2) by auto
  qed (use J B q in \<open>auto simp: guarded_def\<close>)
qed

text \<open>
  (C20) Epoch protection under every interleaving: an object that a writer retires while thread \<open>tid\<close>
  has a protection in its entry is not reclaimed until \<open>tid\<close> calls \<open>UnProtect\<close>, whatever the other
  readers and writers do in between (in a run with fewer than \<open>2 ^ 64 - 2\<close> steps, so that the epoch counter
  does not wrap).
\<close>

theorem Epoch_protects:
  assumes "epoch_run get_hash epoch_start tr s"
    and "thread_local_entry (epoch_table (es_mgr s)) tid = Some j"
    and "epoch_list (epoch_entries (epoch_table (es_mgr s)) ! j) \<noteq> []"
    and "epoch_step get_hash s (ERetire w a) s1" and "epoch_run get_hash s1 tr' s2"
    and "EUnProtect tid \<notin> set tr'" and "length tr + length tr' + 1 < 2 ^ 64 - 2"
  shows "(GetCurrentEpoch (es_mgr s), a) \<in> set (es_retired s2 w)"
proof -
  let ?e = "GetCurrentEpoch (es_mgr s)"
  have inv: "epoch_inv s" using epoch_run_inv [OF assms(1)] assms(7) by simp
  have j: "j < length (epoch_entries (epoch_table (es_mgr s)))"
    using epoch_invD(1) [OF inv] assms(2) by (auto simp: table_wf_def)
  obtain p where p: "p \<in> set (epoch_list (epoch_entries (epoch_table (es_mgr s)) ! j))" using assms(3) by (cases "epoch_list (epoch_entries (epoch_table (es_mgr s)) ! j)") auto
  then have "p \<in> pending s" using j by (auto simp: pending_def)
  then have "p \<le> ?e" using epoch_invD(3) [OF inv] by (simp add: GetCurrentEpoch_def)
  then have g: "guarded tid w a ?e s1"
    using p assms(2) epoch_invD(2) [OF inv] epoch_invD(5) [OF inv] assms(4)
    by (auto simp: guarded_def GetCurrentEpoch_def less_imp_le elim!: epoch_stepE(7))
  have run1: "epoch_run get_hash epoch_start (tr @ [ERetire w a]) s1" by (rule run_snoc [OF assms(1,4)])
  from assms(5-7) run1 g have "guarded tid w a ?e s2"
  proof (induction s1 tr' s2 rule: epoch_run.induct)
    case (run_snoc s1 tr' s2 ev s3)
    have "epoch_run get_hash epoch_start (tr @ [ERetire w a] @ tr') s2"
      using epoch_run_append [OF run_snoc(1) run_snoc.prems(3)] by simp
    then have "epoch_inv s2" using epoch_run_inv run_snoc.prems(2) by fastforce
    then show ?case using guarded_step [OF run_snoc.IH _ run_snoc(2)] run_snoc.prems by force
  qed
  then show ?thesis by (auto simp: guarded_def)
qed

lemma demo_push:
  "\<exists>t. EnqueProtect id (\<lambda>_. 0) 7 1 (MinEpochTable_new 64) = Returns t \<and> length (epoch_entries t) = 64 \<and>
     thread_local_entry t 7 = Some 7 \<and> epoch_list (epoch_entries t ! 7) = [1]"
proof -
  have up: "[0..<64] = 0 # [Suc 0..<64]" by (simp add: upt_conv_Cons)
  have "reserve_scan 7 (replicate 64 EpochEntry_new) = Some 7"
    by (simp add: reserve_scan_def up EpochEntry_new_def)
  then have "reserve_loop (\<lambda>_. 0) 0 1 7 (replicate 64 EpochEntry_new) = Some (Returns 7)"
    by (subst reserve_loop.simps) simp
  then show ?thesis
    by (simp add: EnqueProtect_def GetEntryForThread_def MinEpochTable_new_def ReserveEntry_def Entry_EnqueProtect_def
        EpochEntry_new_def)
qed

theorem Epoch_protects_witness:
  "\<exists>s s2. epoch_run id epoch_start [ELoad 7, EPush 7] s \<and>
     epoch_run id s (ERetire 0 4096 # (EBump 0 # replicate 64 (EScan 0) @ [EStore 0]) @ (EBump 0 # replicate 64 (EScan 0) @ [EStore 0])) s2 \<and>
     (1, 4096) \<in> set (es_retired s2 0)"
proof -
  obtain t where t: "EnqueProtect id (\<lambda>_. 0) 7 1 (MinEpochTable_new 64) = Returns t" "length (epoch_entries t) = 64"
    "thread_local_entry t 7 = Some 7" "epoch_list (epoch_entries t ! 7) = [1]" using demo_push by blast
  define s0 where "s0 = epoch_start\<lparr>es_loaded := [7 \<mapsto> 1]\<rparr>"
  define s where "s = s0\<lparr>es_loaded := Map.empty, es_mgr := (es_mgr s0)\<lparr>epoch_table := t\<rparr>\<rparr>"
  have "epoch_step id epoch_start (ELoad 7) s0"
    using load [of 7 id epoch_start] by (simp add: s0_def epoch_start_def GetCurrentEpoch_def EpochManager_new_def)
  then have "epoch_run id epoch_start ([] @ [ELoad 7]) s0" by (rule run_snoc [OF run_nil])
  moreover have "epoch_step id s0 (EPush 7) s"
    using push [of s0 7 1 id "\<lambda>_. 0" t] t(1) by (simp add: s_def s0_def epoch_start_def EpochManager_new_def)
  ultimately have r: "epoch_run id epoch_start [ELoad 7, EPush 7] s" using run_snoc by fastforce
  define s1 where "s1 = s\<lparr>es_retired := (es_retired s)(0 := es_retired s 0 @ [(GetCurrentEpoch (es_mgr s), 4096)])\<rparr>"
  have st: "epoch_step id s (ERetire 0 4096) s1" unfolding s1_def by (rule retire)
  let ?tr = "EBump 0 # replicate 64 (EScan 0) @ [EStore 0]"
  have b: "es_bumping s1 0 = None" "length (epoch_entries (epoch_table (es_mgr s1))) = 64"
    by (simp_all add: s1_def s_def s0_def epoch_start_def t)
  let ?s2 = "s1\<lparr>es_mgr := BumpCurrentEpoch (es_mgr s1)\<rparr>"
  have b2: "epoch_run id s1 ?tr ?s2" using BumpCurrentEpoch_run [OF b(1), of id] b(2) by simp
  have "es_bumping ?s2 0 = None" "length (epoch_entries (epoch_table (es_mgr ?s2))) = 64"
    using b by (simp_all add: BumpCurrentEpoch_def Manager_ComputeNewSafeToReclaimEpoch_def)
  then obtain s3 where s3: "epoch_run id s1 (?tr @ ?tr) s3"
    using BumpCurrentEpoch_run [of ?s2 0 id] epoch_run_append [OF _ b2] by fastforce
  have "(GetCurrentEpoch (es_mgr s), 4096) \<in> set (es_retired s3 0)"
    by (rule Epoch_protects [OF r _ _ st s3, of 7 7]) (simp_all add: s_def t)
  moreover have "epoch_run id s ([ERetire 0 4096] @ ?tr @ ?tr) s3"
    using epoch_run_append [OF s3, of s "[ERetire 0 4096]"] run_snoc [OF run_nil st] by simp
  ultimately show ?thesis
    using r by (intro exI [of _ s] exI [of _ s3]) (simp add: s_def s0_def epoch_start_def GetCurrentEpoch_def EpochManager_new_def)
qed

end
