(* ===== verification/Base_Files.thy ===== *)
theory Base_Files
  imports Pet_Prelude "HOL-Library.Sublist"
begin

text \<open>
  The base library (\<open>src/src/base/base.h\<close>, \<open>hash.h\<close>, \<open>factory.h\<close>, \<open>async_time.h\<close>): files and temporary
  directories over a model of \<open>std::filesystem\<close>, number formatting, random strings, locks, the busy wait
  on the time stamp counter, the asynchronous clock, the hash of a key and the class factory.
\<close>

section \<open>The file system\<close>

text \<open>A file system lists the existing absolute paths; a file has a size in bytes.\<close>

datatype node = Dir | File nat

type_synonym file_system = "(string \<times> node) list"

definition fs_exists :: "string \<Rightarrow> file_system \<Rightarrow> bool" where
  "fs_exists path fs \<longleftrightarrow> map_of fs path \<noteq> None"

definition is_directory :: "string \<Rightarrow> file_system \<Rightarrow> bool" where
  "is_directory path fs \<longleftrightarrow> map_of fs path = Some Dir"

definition file_size :: "string \<Rightarrow> file_system \<Rightarrow> nat run" where
  "file_size path fs = (case map_of fs path of Some (File n) \<Rightarrow> Returns n | _ \<Rightarrow> Aborts (Uncaught ''filesystem_error''))"

definition beneath :: "string \<Rightarrow> string \<Rightarrow> bool" where
  "beneath path p \<longleftrightarrow> prefix (path @ ''/'') p"

definition fs_remove_all :: "string \<Rightarrow> file_system \<Rightarrow> file_system" where
  "fs_remove_all path fs = filter (\<lambda>(p, n). p \<noteq> path \<and> \<not> beneath path p) fs"

definition fs_remove :: "string \<Rightarrow> file_system \<Rightarrow> file_system run" where
  "fs_remove path fs =
     (if \<exists>(p, n) \<in> set fs. beneath path p then Aborts (Uncaught ''filesystem_error'')
      else Returns (filter (\<lambda>(p, n). p \<noteq> path) fs))"

text \<open>The directories above a path and the path itself, from the top.\<close>

definition path_steps :: "string \<Rightarrow> string list" where
  "path_steps path = map (\<lambda>i. take i path) (filter (\<lambda>i. path ! i = CHR ''/'') [1..<length path]) @ [path]"

text \<open>
  \<open>create_directories\<close> makes the missing directories on the way; it throws when a file is in the way,
  and tells whether it made the last one.
\<close>

fun make_dirs :: "string list \<Rightarrow> file_system \<Rightarrow> file_system run" where
  "make_dirs [] fs = Returns fs"
| "make_dirs (p # ps) fs =
     (case map_of fs p of
        None \<Rightarrow> make_dirs ps ((p, Dir) # fs)
      | Some Dir \<Rightarrow> make_dirs ps fs
      | Some (File n) \<Rightarrow> Aborts (Uncaught ''filesystem_error''))"

definition create_directories :: "string \<Rightarrow> file_system \<Rightarrow> (bool \<times> file_system) run" where
  "create_directories path fs =
     run_bind (make_dirs (path_steps path) fs) (\<lambda>fs'. Returns (\<not> fs_exists path fs, fs'))"

section \<open>Files and temporary directories\<close>

definition PathExists :: "string \<Rightarrow> file_system \<Rightarrow> bool" where
  "PathExists path fs = fs_exists path fs"

definition file_Delete :: "string \<Rightarrow> bool \<Rightarrow> file_system \<Rightarrow> (bool \<times> file_system) run" where
  "file_Delete path recursive fs =
     (if \<not> PathExists path fs then Returns (False, fs)
      else if recursive then Returns (True, fs_remove_all path fs)
      else run_bind (fs_remove path fs) (\<lambda>fs. Returns (True, fs)))"

definition CreateDirectory :: "string \<Rightarrow> file_system \<Rightarrow> (bool \<times> file_system) run" where
  "CreateDirectory path fs = create_directories path fs"

text \<open>\<open>std::to_string\<close> of an integer.\<close>

fun nat_digits :: "nat \<Rightarrow> string" where
  "nat_digits n = (if n < 10 then [char_of (48 + n)] else nat_digits (n div 10) @ [char_of (48 + n mod 10)])"

declare nat_digits.simps [simp del]

definition IntToString :: "int \<Rightarrow> string" where
  "IntToString x = (if x < 0 then CHR ''-'' # nat_digits (nat (- x)) else nat_digits (nat x))"

text \<open>
  A temporary directory. The numbers that \<open>folly::Random::rand64\<close> returns are the sequence \<open>rand\<close>,
  from position \<open>i\<close> on.
\<close>

definition temp_path :: "string \<Rightarrow> u64 \<Rightarrow> string" where
  "temp_path dir temp = dir @ ''/temp-'' @ nat_digits (unat temp)"

definition CreateUniqueTempDir :: "(nat \<Rightarrow> u64) \<Rightarrow> nat \<Rightarrow> file_system \<Rightarrow> (bool \<times> string \<times> nat \<times> file_system) run" where
  "CreateUniqueTempDir rand i fs =
     run_bind (CreateDirectory (temp_path ''/tmp'' (rand i)) fs) (\<lambda>(r, fs).
       Returns (True, temp_path ''/tmp'' (rand i), Suc i, fs))"

partial_function (option) fresh_temp :: "(nat \<Rightarrow> u64) \<Rightarrow> string \<Rightarrow> file_system \<Rightarrow> nat \<Rightarrow> nat option" where
  "fresh_temp rand dir fs i =
     (if PathExists (temp_path dir (rand i)) fs then fresh_temp rand dir fs (Suc i) else Some i)"

definition CreateUniqueTempDirUnderPath ::
  "(nat \<Rightarrow> u64) \<Rightarrow> string \<Rightarrow> nat \<Rightarrow> file_system \<Rightarrow> (bool \<times> string \<times> nat \<times> file_system) run" where
  "CreateUniqueTempDirUnderPath rand dir i fs =
     run_bind (run_of_option (fresh_temp rand dir fs i)) (\<lambda>j.
     run_bind (CreateDirectory (temp_path dir (rand j)) fs) (\<lambda>(r, fs).
       Returns (r, temp_path dir (rand j), Suc j, fs)))"

definition ScopedTempDir_close :: "string \<Rightarrow> file_system \<Rightarrow> file_system run" where
  "ScopedTempDir_close path fs = run_bind (file_Delete path True fs) (\<lambda>(r, fs). Returns fs)"

section \<open>Random strings, locks and waiting\<close>

text \<open>A generator is a state with the function \<open>rand32 min max\<close>, which draws from \<open>[min, max)\<close>.\<close>

fun GetString :: "(nat \<Rightarrow> nat \<Rightarrow> 's \<Rightarrow> nat \<times> 's) \<Rightarrow> nat \<Rightarrow> 's \<Rightarrow> string \<times> 's" where
  "GetString rand32 0 s = ([], s)"
| "GetString rand32 (Suc n) s =
     (let (r, s) = rand32 1 256 s;
          (ret, s) = GetString rand32 n s
      in (char_of r # ret, s))"

text \<open>A mutex is held or free; locking a held one waits for another thread, here for ever.\<close>

definition Lock_lock :: "bool \<Rightarrow> bool run" where
  "Lock_lock held = (if held then Diverges else Returns True)"

definition Lock_unLock :: "bool \<Rightarrow> bool run" where
  "Lock_unLock held = (if held then Returns False else Aborts (Undefined ''unlock''))"

text \<open>\<open>AutoLock\<close>: the body runs between the constructor and the destructor.\<close>

definition AutoLock :: "('s \<Rightarrow> ('a \<times> 's) run) \<Rightarrow> bool \<times> 's \<Rightarrow> ('a \<times> bool \<times> 's) run" where
  "AutoLock body = (\<lambda>(held, s).
     run_bind (Lock_lock held) (\<lambda>held.
     run_bind (body s) (\<lambda>(r, s).
     run_bind (Lock_unLock held) (\<lambda>held. Returns (r, held, s)))))"

text \<open>\<open>rdtsc\<close> delivers the counter in two halves; \<open>tsc j\<close> is the \<open>j\<close>-th reading.\<close>

definition ReadTSC :: "u32 \<Rightarrow> u32 \<Rightarrow> u64" where
  "ReadTSC hi lo = push_bit 32 (ucast hi) OR ucast lo"

definition CPU_FREQ_MHZ :: u64 where
  "CPU_FREQ_MHZ = 3300"

partial_function (option) sleep_loop :: "(nat \<Rightarrow> u64) \<Rightarrow> u64 \<Rightarrow> nat \<Rightarrow> nat option" where
  "sleep_loop tsc etcs j = (if tsc j < etcs then sleep_loop tsc etcs (Suc j) else Some (Suc j))"

text \<open>The number of readings taken.\<close>

definition SleepNS :: "(nat \<Rightarrow> u64) \<Rightarrow> u64 \<Rightarrow> nat option" where
  "SleepNS tsc ns =
     (if ns = 0 then Some 0
      else let etcs = tsc 0 + ns * CPU_FREQ_MHZ div 1000 in sleep_loop tsc etcs 1)"

section \<open>The asynchronous clock\<close>

record AsyncTimeHelper =
  at_stop :: bool
  at_update_interval :: int
  at_now_time :: int

definition AsyncTimeHelper_new :: "int \<Rightarrow> int \<Rightarrow> AsyncTimeHelper" where
  "AsyncTimeHelper_new update_interval now = \<lparr>at_stop = False, at_update_interval = update_interval, at_now_time = now\<rparr>"

definition GetTime :: "AsyncTimeHelper \<Rightarrow> int" where
  "GetTime h = at_now_time h"

text \<open>
  The rounds of the background thread, each with the time it reads and whether the destructor has
  set \<open>stop_\<close> before it.
\<close>

fun AsyncTimeHelper_Run :: "(bool \<times> int) list \<Rightarrow> AsyncTimeHelper \<Rightarrow> AsyncTimeHelper" where
  "AsyncTimeHelper_Run [] h = h"
| "AsyncTimeHelper_Run ((stop, now) # rs) h =
     (let h = (if stop then h\<lparr>at_stop := True\<rparr> else h)
      in if at_stop h then h else AsyncTimeHelper_Run rs (h\<lparr>at_now_time := now\<rparr>))"

section \<open>Hashes of keys\<close>

text \<open>The bytes of a word in memory, lowest first; \<open>CityHash64\<close> and its variant with seeds are parameters.\<close>

definition key_bytes :: "u64 \<Rightarrow> u8 list" where
  "key_bytes key = map (\<lambda>i. ucast (drop_bit (8 * i) key)) [0..<8]"

definition GetHash :: "(u8 list \<Rightarrow> u64) \<Rightarrow> u64 \<Rightarrow> u64" where
  "GetHash CityHash64 key = CityHash64 (key_bytes key)"

definition kInt32Max :: u64 where
  "kInt32Max = 0x7FFFFFFF"

definition GetHashWithLevel :: "(u8 list \<Rightarrow> u64 \<Rightarrow> u64 \<Rightarrow> u64) \<Rightarrow> u64 \<Rightarrow> int \<Rightarrow> u64" where
  "GetHashWithLevel CityHash64WithSeeds key level = CityHash64WithSeeds (key_bytes key) kInt32Max (of_int level)"

section \<open>The class factory\<close>

text \<open>
  The creators by name. \<open>creators()[key]\<close> enters a null pointer for a name that is not there; the
  process then ends.
\<close>

type_synonym 'c creators = "string \<rightharpoonup> 'c option"

definition NewInstance :: "'c creators \<Rightarrow> string \<Rightarrow> ('c \<times> 'c creators) run" where
  "NewInstance cs key =
     (let cs = (if cs key = None then cs(key \<mapsto> None) else cs)
      in case cs key of
           Some (Some creator) \<Rightarrow> Returns (creator, cs)
         | _ \<Rightarrow> Aborts (CheckFailed ''no instance''))"

definition FactoryCreatorImpl :: "string \<Rightarrow> 'c \<Rightarrow> 'c creators \<Rightarrow> 'c creators" where
  "FactoryCreatorImpl key impl cs = (if cs key = None then cs(key \<mapsto> Some impl) else cs)"

section \<open>Waiting, registering\<close>

lemma sleep_loop_ends: "j \<le> k \<Longrightarrow> etcs \<le> tsc k \<Longrightarrow> \<exists>m \<le> k. sleep_loop tsc etcs j = Some (Suc m) \<and> etcs \<le> tsc m"
proof (induction "k - j" arbitrary: j)
  case 0
  then show ?case by (subst sleep_loop.simps) auto
next
  case (Suc d)
  then show ?case
    using Suc.hyps(1) [of "Suc j"] by (subst sleep_loop.simps) (auto simp: not_less)
qed

text \<open>The busy wait ends with the first reading at or behind the computed end, when there is one.\<close>

lemma SleepNS_returns:
  assumes "1 \<le> k" and "tsc 0 + ns * CPU_FREQ_MHZ div 1000 \<le> tsc k"
  shows "\<exists>m. SleepNS tsc ns = Some m \<and> (ns \<noteq> 0 \<longrightarrow> tsc 0 + ns * CPU_FREQ_MHZ div 1000 \<le> tsc (m - 1))"
  using sleep_loop_ends [where tsc = tsc and k = k, OF assms] by (auto simp: SleepNS_def Let_def)

lemma AutoLock_releases: "AutoLock body (False, s) = run_bind (body s) (\<lambda>(r, s). Returns (r, False, s))"
  by (simp add: AutoLock_def Lock_lock_def Lock_unLock_def case_prod_beta)

text \<open>The first registration under a name wins.\<close>

lemma Factory_first:
  "cs key = None \<Longrightarrow> \<exists>cs'. NewInstance (FactoryCreatorImpl key b (FactoryCreatorImpl key a cs)) key = Returns (a, cs')"
  by (simp add: FactoryCreatorImpl_def NewInstance_def)

lemma Factory_other: "k \<noteq> key \<Longrightarrow> FactoryCreatorImpl key a cs k = cs k"
  by (simp add: FactoryCreatorImpl_def)

section \<open>Decimal numbers\<close>

lemma digit_char: "n < 10 \<Longrightarrow> (of_char (char_of (48 + n) :: char) :: nat) = 48 + n"
  by (simp add: of_char_of)

lemma nat_digits_eq: "nat_digits m = nat_digits n \<longleftrightarrow> m = n"
proof (induction m arbitrary: n rule: nat_digits.induct)
  case (1 m)
  have ne: "nat_digits k \<noteq> []" for k by (subst nat_digits.simps) simp
  have c: "char_of (48 + i) = (char_of (48 + j) :: char) \<longleftrightarrow> i = j" if "i < 10" "j < 10" for i j :: nat
    using digit_char [OF that(1)] digit_char [OF that(2)] by (metis add_left_cancel)
  show ?case
  proof (cases "m < 10 \<or> n < 10")
    case True
    then show ?thesis
      using ne c by (subst (1 2) nat_digits.simps) (auto simp: append_eq_Cons_conv Cons_eq_append_conv)
  next
    case False
    then have "nat_digits m = nat_digits n \<longleftrightarrow> m div 10 = n div 10 \<and> m mod 10 = n mod 10"
      using 1 [of "n div 10"] c [of "m mod 10" "n mod 10"] by (subst (1 2) nat_digits.simps) simp
    then show ?thesis by (metis div_mult_mod_eq)
  qed
qed

lemma nat_digits_chars: "c \<in> set (nat_digits n) \<Longrightarrow> 48 \<le> (of_char c :: nat) \<and> (of_char c :: nat) \<le> 57"
proof (induction n rule: nat_digits.induct)
  case (1 n)
  show ?case
  proof (cases "n < 10")
    case True
    then show ?thesis using 1 digit_char by (subst (asm) (2) nat_digits.simps) simp
  next
    case False
    then have "c \<in> set (nat_digits (n div 10)) \<or> c = char_of (48 + n mod 10)"
      using 1(2) by (subst (asm) nat_digits.simps) auto
    then show ?thesis using 1(1) [OF False] digit_char [of "n mod 10"] by fastforce
  qed
qed

lemma no_slash: "CHR ''/'' \<notin> set (nat_digits n)" "CHR ''-'' \<notin> set (nat_digits n)"
  using nat_digits_chars [of "CHR ''/''" n] nat_digits_chars [of "CHR ''-''" n] by auto

lemma IntToString_eq: "IntToString x = IntToString y \<longleftrightarrow> x = y"
proof -
  have "CHR ''-'' # nat_digits m \<noteq> nat_digits n" for m n using no_slash(2) [of n] by (metis list.set_intros(1))
  then show ?thesis by (auto simp: IntToString_def nat_digits_eq eq_nat_nat_iff dest: sym)
qed

lemma IntToString_no_slash: "CHR ''/'' \<notin> set (IntToString x)"
  using no_slash by (simp add: IntToString_def)

section \<open>Temporary directories\<close>

text \<open>Everything that exists lies in directories that exist.\<close>

definition fs_ok :: "file_system \<Rightarrow> bool" where
  "fs_ok fs \<longleftrightarrow> (\<forall>(p, n) \<in> set fs. \<forall>q \<in> set (path_steps p). q \<noteq> p \<longrightarrow> is_directory q fs)"

lemma path_steps_append:
  assumes "d \<noteq> []" and "CHR ''/'' \<notin> set x"
  shows "path_steps (d @ ''/'' @ x) = path_steps d @ [d @ ''/'' @ x]"
proof -
  let ?p = "d @ ''/'' @ x"
  have "[1..<length ?p] = [1..<length d] @ [length d..<length ?p]"
    using assms(1) upt_add_eq_append [of 1 "length d" "Suc (length x)"] by (simp add: Suc_leI)
  moreover have "[length d..<length ?p] = length d # [Suc (length d)..<length ?p]" by (subst upt_conv_Cons) simp_all
  moreover have "filter (\<lambda>i. ?p ! i = CHR ''/'') [Suc (length d)..<length ?p] = []"
  proof -
    have "?p ! i \<in> set x" if "i \<in> {Suc (length d)..<length ?p}" for i
      using that by (auto simp: nth_append nth_Cons' intro!: nth_mem)
    then have "\<forall>i \<in> set [Suc (length d)..<length ?p]. ?p ! i \<noteq> CHR ''/''" using assms(2) by (metis set_upt)
    then show ?thesis by (simp only: filter_empty_conv)
  qed
  moreover have "filter (\<lambda>i. ?p ! i = CHR ''/'') [1..<length d] = filter (\<lambda>i. d ! i = CHR ''/'') [1..<length d]"
    by (rule filter_cong) (auto simp: nth_append)
  ultimately have f: "filter (\<lambda>i. ?p ! i = CHR ''/'') [1..<length ?p] =
      filter (\<lambda>i. d ! i = CHR ''/'') [1..<length d] @ [length d]" by simp
  have "map (\<lambda>i. take i ?p) (filter (\<lambda>i. d ! i = CHR ''/'') [1..<length d]) =
      map (\<lambda>i. take i d) (filter (\<lambda>i. d ! i = CHR ''/'') [1..<length d])"
    by (rule map_cong) auto
  with f show ?thesis unfolding path_steps_def by simp
qed

lemma beneath_step:
  assumes "beneath path p" and "path \<noteq> []"
  shows "path \<in> set (path_steps p)" and "path \<noteq> p"
proof -
  obtain r where r: "p = path @ ''/'' @ r" using assms(1) by (auto simp: beneath_def prefix_def)
  then have "length path \<in> {1..<length p}" "p ! length path = CHR ''/''" "take (length path) p = path"
    using assms(2) by (auto simp: Suc_le_eq)
  then show "path \<in> set (path_steps p)" by (force simp: path_steps_def)
  show "path \<noteq> p" using r by simp
qed

lemma make_dirs_present:
  "(\<And>p. p \<in> set ps \<Longrightarrow> is_directory p fs) \<Longrightarrow> make_dirs (ps @ qs) fs = make_dirs qs fs"
  by (induction ps) (auto simp: is_directory_def)

lemma fresh_temp_finds:
  assumes "\<not> PathExists (temp_path dir (rand j)) fs" and "i \<le> j"
  shows "\<exists>k. fresh_temp rand dir fs i = Some k \<and> i \<le> k \<and> k \<le> j \<and> \<not> PathExists (temp_path dir (rand k)) fs"
  using assms(2)
proof (induction "j - i" arbitrary: i)
  case 0
  then show ?case using assms(1) by (simp add: fresh_temp.simps)
next
  case (Suc d)
  then have "d = j - Suc i" "Suc i \<le> j" by auto
  from Suc.hyps(1) [OF this] obtain k where "fresh_temp rand dir fs (Suc i) = Some k" "Suc i \<le> k" "k \<le> j"
    "\<not> PathExists (temp_path dir (rand k)) fs" by blast
  then show ?case using Suc.prems by (subst fresh_temp.simps) (auto intro: Suc_leD)
qed

text \<open>
  (C28) A temporary directory under an existing directory: as soon as one of the random names is free the
  search ends, the directory did not exist before, and the destructor restores the file system exactly,
  whatever has been created inside the directory in the meantime.
\<close>

theorem ScopedTempDir_restores:
  assumes "fs_ok fs" and "dir \<noteq> []" and "\<forall>p \<in> set (path_steps dir). is_directory p fs"
    and "\<not> PathExists (temp_path dir (rand j)) fs" and "i \<le> j"
  shows "\<exists>path k fs'. CreateUniqueTempDirUnderPath rand dir i fs = Returns (True, path, k, fs') \<and> k \<le> Suc j \<and>
    \<not> PathExists path fs \<and> PathExists path fs' \<and>
    (\<forall>new. (\<forall>(p, n) \<in> set new. beneath path p) \<longrightarrow> ScopedTempDir_close path (new @ fs') = Returns fs)"
proof -
  obtain k where k: "fresh_temp rand dir fs i = Some k" "k \<le> j" "\<not> PathExists (temp_path dir (rand k)) fs"
    using fresh_temp_finds [where rand = rand and dir = dir and j = j, OF assms(4,5)] by blast
  let ?t = "temp_path dir (rand k)"
  have st: "path_steps ?t = path_steps dir @ [?t]"
    using path_steps_append [OF assms(2), of "''temp-'' @ nat_digits (unat (rand k))"] no_slash(1)
    by (simp add: temp_path_def)
  have t0: "?t \<noteq> []" by (simp add: temp_path_def)
  have m: "make_dirs (path_steps ?t) fs = Returns ((?t, Dir) # fs)"
    unfolding st using make_dirs_present [of "path_steps dir" fs "[?t]"] assms(3) k(3)
    by (simp add: PathExists_def fs_exists_def)
  have f: "filter (\<lambda>(p, n). p \<noteq> ?t \<and> \<not> beneath ?t p) fs = fs"
  proof (rule filter_True, clarify)
    fix p n assume p: "(p, n) \<in> set fs"
    then have "p \<noteq> ?t" using k(3) by (auto simp: PathExists_def fs_exists_def map_of_eq_None_iff rev_image_eqI)
    moreover have "\<not> beneath ?t p"
      using beneath_step [OF _ t0, of p] p assms(1) k(3)
      by (auto simp: fs_ok_def is_directory_def PathExists_def fs_exists_def)
    ultimately show "p \<noteq> ?t \<and> \<not> beneath ?t p" by simp
  qed
  have "ScopedTempDir_close ?t (new @ (?t, Dir) # fs) = Returns fs" if "\<forall>(p, n) \<in> set new. beneath ?t p" for new
  proof -
    have "filter (\<lambda>(p, n). p \<noteq> ?t \<and> \<not> beneath ?t p) new = []" using that by (auto simp: filter_empty_conv)
    moreover have "PathExists ?t (new @ (?t, Dir) # fs)"
      by (auto simp: PathExists_def fs_exists_def map_add_def split: option.split)
    ultimately show ?thesis using f by (simp add: ScopedTempDir_close_def file_Delete_def fs_remove_all_def)
  qed
  moreover have "CreateUniqueTempDirUnderPath rand dir i fs = Returns (True, ?t, Suc k, (?t, Dir) # fs)"
    using m k by (simp add: CreateUniqueTempDirUnderPath_def CreateDirectory_def create_directories_def PathExists_def)
  moreover have "PathExists ?t ((?t, Dir) # fs)" by (simp add: PathExists_def fs_exists_def)
  ultimately show ?thesis using k(2,3) by (metis Suc_le_mono)
qed

theorem ScopedTempDir_restores_witness:
  "\<exists>path k fs'. CreateUniqueTempDirUnderPath (\<lambda>i. of_nat i) ''/d'' 7 [(''/d/temp-7'', File 3), (''/d'', Dir)] =
      Returns (True, path, k, fs') \<and> k \<le> 9 \<and>
      ScopedTempDir_close path ((path @ ''/x'', File 1) # fs') = Returns [(''/d/temp-7'', File 3), (''/d'', Dir)]"
proof -
  let ?fs = "[(''/d/temp-7'', File 3), (''/d'', Dir)]"
  have 1: "fs_ok ?fs" "\<forall>p \<in> set (path_steps ''/d''). is_directory p ?fs"
    by code_simp+
  have 2: "\<not> PathExists (temp_path ''/d'' (of_nat 8)) ?fs"
    by code_simp
  obtain path k fs' where "CreateUniqueTempDirUnderPath (\<lambda>i. of_nat i) ''/d'' 7 ?fs = Returns (True, path, k, fs')" "k \<le> Suc 8"
    "\<forall>new. (\<forall>(p, n) \<in> set new. beneath path p) \<longrightarrow> ScopedTempDir_close path (new @ fs') = Returns ?fs"
    using ScopedTempDir_restores [OF 1(1) _ 1(2), where rand = "\<lambda>i. of_nat i", OF _ 2, of 7] by auto
  from this(1,2) spec [OF this(3), of "[(path @ ''/x'', File 1)]"] show ?thesis
    by (auto simp: beneath_def)
qed

end
