(* ===== verification/Shm_File.thy ===== *)
theory Shm_File
  imports Base_Files
begin

text \<open>
  Files in persistent memory (\<open>src/src/memory/shm_file.h\<close>, \<open>shm_file.cc\<close>, \<open>pm_command.cc\<close>): the register
  center that carves named regions out of one mapping and keeps their names, offsets and sizes in
  a block at its start, and \<open>ShmFile\<close> with its two modes. Addresses are 64 bit words. What the operating
  system answers to \<open>open\<close>, \<open>mmap\<close> and \<open>fallocate\<close> is a parameter.
\<close>

section \<open>C strings\<close>

definition NUL :: char where
  "NUL = char_of (0 :: nat)"

text \<open>\<open>strncpy\<close> pads with NUL up to \<open>n\<close> and leaves the cells behind as they are.\<close>

definition strncpy :: "string \<Rightarrow> string \<Rightarrow> nat \<Rightarrow> string" where
  "strncpy dest src n = take n (src @ replicate n NUL) @ drop n dest"

definition strncmp_eq :: "string \<Rightarrow> string \<Rightarrow> nat \<Rightarrow> bool" where
  "strncmp_eq a b n \<longleftrightarrow> takeWhile (\<lambda>c. c \<noteq> NUL) (take n a) = takeWhile (\<lambda>c. c \<noteq> NUL) (take n b)"

section \<open>The register center\<close>

definition MM_META_NR :: nat where
  "MM_META_NR = 1000"

record MmMeta =
  mm_file_name :: string
  mm_offset :: u64
  mm_size :: u64
  mm_magic :: u32

record MetaBlock =
  mb_magic :: u32
  mb_mmMetaNr :: nat
  mb_mmMeta :: "MmMeta list"

definition sizeof_MetaBlock :: u64 where
  "sizeof_MetaBlock = 2 * 4096 * 4096"

text \<open>The constructor on memory that has been set to zero.\<close>

definition MetaBlock_new :: MetaBlock where
  "MetaBlock_new = \<lparr>mb_magic = 0xdeadbeef, mb_mmMetaNr = 0,
     mb_mmMeta = replicate MM_META_NR \<lparr>mm_file_name = replicate 64 NUL, mm_offset = 0, mm_size = 0, mm_magic = 0x66666666\<rparr>\<rparr>"

text \<open>The state of a process: the mapping with its contents, and the flag of \<open>ReInitialize\<close>.\<close>

record PMMmapRegisterCenter =
  rc_metaBlock :: MetaBlock
  rc_addr_start :: u64
  rc_data_addr_start :: u64
  rc_mmap_addr :: u64
  rc_dax_mm_size :: u64
  rc_flag :: bool
  rc_mem :: "u64 \<Rightarrow> u8"

definition rc_align :: u64 where
  "rc_align = 2 * 1024 * 1024"

definition rc_Valid :: "MetaBlock \<Rightarrow> bool" where
  "rc_Valid b \<longleftrightarrow> mb_magic b = 0xdeadbeef \<and> (\<forall>m \<in> set (mb_mmMeta b). mm_magic m = 0x66666666)"

definition ReInitialize :: "PMMmapRegisterCenter \<Rightarrow> PMMmapRegisterCenter run" where
  "ReInitialize c =
     run_bind
       (if \<not> rc_flag c then Returns (c\<lparr>rc_flag := True, rc_metaBlock := MetaBlock_new\<rparr>)
        else Aborts (LogFatal ''ReInitialize is non-reentrant'')) (\<lambda>c.
     run_bind (run_check (rc_Valid (rc_metaBlock c)) ''Valid()'') (\<lambda>_. Returns c))"

text \<open>\<open>memset\<close> of \<open>n\<close> bytes at \<open>p\<close>; a write outside the mapping is undefined.\<close>

definition rc_memset :: "u64 \<Rightarrow> u64 \<Rightarrow> PMMmapRegisterCenter \<Rightarrow> PMMmapRegisterCenter run" where
  "rc_memset p n c =
     (if unat (rc_addr_start c) \<le> unat p \<and> unat p + unat n \<le> unat (rc_addr_start c) + unat (rc_dax_mm_size c)
      then Returns (c\<lparr>rc_mem := (\<lambda>a. if p \<le> a \<and> unat a < unat p + unat n then 0 else rc_mem c a)\<rparr>)
      else Aborts (Undefined ''memset''))"

definition append_register :: "string \<Rightarrow> u64 \<Rightarrow> PMMmapRegisterCenter \<Rightarrow> (u64 \<times> PMMmapRegisterCenter) run" where
  "append_register name sz c =
     run_bind (run_check (sz \<noteq> 0) ''size != 0'') (\<lambda>_.
     let new_size = (sz + rc_align - 1) div rc_align * rc_align;
         ret = rc_mmap_addr c;
         c = c\<lparr>rc_mmap_addr := ret + new_size\<rparr>
     in run_bind (run_check (ret \<ge> rc_data_addr_start c) ''ret >= shmfile_mmap_data_addr_start_'') (\<lambda>_.
        run_bind (run_check (ret + sz < rc_data_addr_start c + rc_dax_mm_size c) ''ret + size < start + dax_mm_size_'') (\<lambda>_.
        run_bind (rc_memset ret sz c) (\<lambda>c.
        let b = rc_metaBlock c;
            n = mb_mmMetaNr b;
            item = mb_mmMeta b ! n;
            item = item\<lparr>mm_file_name := strncpy (mm_file_name item) name 50, mm_offset := ret - rc_data_addr_start c, mm_size := sz\<rparr>;
            b = b\<lparr>mb_mmMeta := (mb_mmMeta b)[n := item], mb_mmMetaNr := n + 1\<rparr>
        in run_bind (run_check (n + 1 \<le> MM_META_NR) ''mmMetaNr_ <= MM_META_NR'') (\<lambda>_.
           Returns (ret, c\<lparr>rc_metaBlock := b\<rparr>))))))"

fun find_item :: "MmMeta list \<Rightarrow> string \<Rightarrow> MmMeta option run" where
  "find_item [] name = Returns None"
| "find_item (m # ms) name =
     (if strncmp_eq (mm_file_name m) name 64
      then run_bind (run_check (mm_magic m = 0x66666666) ''item.magic_ == 0x66666666'') (\<lambda>_. Returns (Some m))
      else find_item ms name)"

definition FindIfExists :: "string \<Rightarrow> PMMmapRegisterCenter \<Rightarrow> MmMeta option run" where
  "FindIfExists name c = find_item (take (mb_mmMetaNr (rc_metaBlock c)) (mb_mmMeta (rc_metaBlock c))) name"

definition Register :: "string \<Rightarrow> u64 \<Rightarrow> PMMmapRegisterCenter \<Rightarrow> (u64 \<times> PMMmapRegisterCenter) run" where
  "Register name sz c =
     run_bind (FindIfExists name c) (\<lambda>item.
       case item of
         None \<Rightarrow> append_register name sz c
       | Some m \<Rightarrow>
           if mm_size m \<noteq> sz then run_bind (ReInitialize c) (\<lambda>c. append_register name sz c)
           else let e = rc_data_addr_start c + mm_offset m + mm_size m
                in Returns (rc_data_addr_start c + mm_offset m, c\<lparr>rc_mmap_addr := max (rc_mmap_addr c) e\<rparr>))"

definition ForRDMAMemoryRegion :: "PMMmapRegisterCenter \<Rightarrow> u64 \<times> u64" where
  "ForRDMAMemoryRegion c = (rc_data_addr_start c, rc_mmap_addr c - rc_data_addr_start c)"

definition kDaxSize :: u64 where
  "kDaxSize = 140 * 1024 * 1024 * 1024"

text \<open>
  The constructor, with the address the mapping is placed at, if \<open>mmap\<close> succeeds, and the contents of
  the device. In memory mode the block is fresh and the flag of \<open>ReInitialize\<close> is used up.
\<close>

definition PMMmapRegisterCenter_new ::
  "bool \<Rightarrow> int \<Rightarrow> (string \<Rightarrow> int) \<Rightarrow> u64 option \<Rightarrow> MetaBlock \<Rightarrow> (u64 \<Rightarrow> u8) \<Rightarrow> bool \<Rightarrow> PMMmapRegisterCenter run" where
  "PMMmapRegisterCenter_new use_dram numa_id os_open mapped block mem flag =
     run_bind (run_check (numa_id \<noteq> -1) ''numa_id != -1'') (\<lambda>_.
     run_bind
       (if \<not> use_dram \<and> os_open (''/dev/dax'' @ IntToString numa_id @ ''.0'') < 0
        then Aborts (LogFatal ''Failed to open file'') else Returns ()) (\<lambda>_.
     case mapped of
       None \<Rightarrow> Aborts (CheckFailed ''map failed'')
     | Some data \<Rightarrow>
         let c = \<lparr>rc_metaBlock = block, rc_addr_start = data, rc_data_addr_start = data + sizeof_MetaBlock,
               rc_mmap_addr = data + sizeof_MetaBlock, rc_dax_mm_size = kDaxSize, rc_flag = flag, rc_mem = mem\<rparr>
         in if use_dram then ReInitialize c else Returns c))"

text \<open>\<open>pm_command\<close>: the tool that initialises a device.\<close>

definition pm_command ::
  "string \<Rightarrow> int \<Rightarrow> (string \<Rightarrow> int) \<Rightarrow> u64 option \<Rightarrow> MetaBlock \<Rightarrow> (u64 \<Rightarrow> u8) \<Rightarrow> file_system \<Rightarrow>
   (PMMmapRegisterCenter \<times> file_system) run" where
  "pm_command command numa_id os_open mapped block mem fs =
     (if command = ''reinit''
      then run_bind (PMMmapRegisterCenter_new False numa_id os_open mapped block mem False) (\<lambda>c.
           run_bind (ReInitialize c) (\<lambda>c.
             Returns (c, filter (\<lambda>(p, n). \<not> beneath ''/media/aep0'' p \<and> \<not> beneath ''/media/aep1'' p) fs)))
      else Aborts (LogFatal ''false command''))"

section \<open>Shared memory files\<close>

record ShmFile =
  sh_filename :: string
  sh_data :: "u64 option"
  sh_size :: int
  sh_fd :: int

definition ShmFile_new :: ShmFile where
  "ShmFile_new = \<lparr>sh_filename = [], sh_data = None, sh_size = 0, sh_fd = -1\<rparr>"

definition ClearFsDax :: "ShmFile \<Rightarrow> ShmFile" where
  "ClearFsDax f = (if sh_fd f \<ge> 0 then \<lparr>sh_filename = [], sh_data = None, sh_size = 0, sh_fd = -1\<rparr> else f)"

definition ClearDevDax :: "ShmFile \<Rightarrow> ShmFile" where
  "ClearDevDax f = f"

definition ShmFile_Clear :: "file_system \<Rightarrow> ShmFile \<Rightarrow> ShmFile" where
  "ShmFile_Clear fs f = (if fs_exists ''/dev/dax0.0'' fs then ClearDevDax f else ClearFsDax f)"

definition parent_path :: "string \<Rightarrow> string" where
  "parent_path p =
     (let d = rev (dropWhile (\<lambda>c. c \<noteq> CHR ''/'') (rev p));
          s = rev (dropWhile (\<lambda>c. c = CHR ''/'') (rev d))
      in if s = [] then d else s)"

text \<open>The parameters: whether \<open>fallocate\<close> succeeds, the descriptor of \<open>open\<close>, the address of \<open>mmap\<close>.\<close>

definition InitializeFsDax ::
  "bool \<Rightarrow> (string \<Rightarrow> int) \<Rightarrow> u64 option \<Rightarrow> string \<Rightarrow> int \<Rightarrow> ShmFile \<times> file_system \<Rightarrow> (bool \<times> ShmFile \<times> file_system) run" where
  "InitializeFsDax fallocate os_open mapped filename sz = (\<lambda>(f, fs).
     let f = ClearFsDax f in
     run_bind
       (if \<not> fs_exists filename fs
        then run_bind (create_directories (parent_path filename) fs) (\<lambda>(r, fs).
               Returns (if fallocate \<and> 0 < sz then (filename, File (nat sz)) # fs else fs))
        else Returns fs) (\<lambda>fs.
     run_bind (file_size filename fs) (\<lambda>n.
     let f = f\<lparr>sh_size := int n\<rparr> in
     if int n \<noteq> sz then Returns (False, f, fs)
     else let fd = os_open filename; f = f\<lparr>sh_fd := fd\<rparr> in
       if fd < 0 then Returns (False, f, fs)
       else case mapped of
              None \<Rightarrow> Aborts (CheckFailed ''map failed'')
            | Some p \<Rightarrow> Returns (True, f\<lparr>sh_data := Some p, sh_filename := filename\<rparr>, fs))))"

definition InitializeDevDax ::
  "string \<Rightarrow> int \<Rightarrow> ShmFile \<times> PMMmapRegisterCenter \<times> file_system \<Rightarrow>
   (bool \<times> ShmFile \<times> PMMmapRegisterCenter \<times> file_system) run" where
  "InitializeDevDax filename sz = (\<lambda>(f, c, fs).
     run_bind (Register filename (of_int sz) c) (\<lambda>(p, c).
     let f = f\<lparr>sh_data := Some p, sh_filename := filename\<rparr> in
     run_bind
       (if \<not> fs_exists filename fs
        then run_bind (create_directories (parent_path filename) fs) (\<lambda>(r, fs). Returns ((filename, File 1) # fs))
        else Returns fs) (\<lambda>fs.
     Returns (True, f\<lparr>sh_size := sz\<rparr>, c, fs))))"

definition ShmFile_Initialize ::
  "bool \<Rightarrow> bool \<Rightarrow> (string \<Rightarrow> int) \<Rightarrow> u64 option \<Rightarrow> string \<Rightarrow> int \<Rightarrow> ShmFile \<times> PMMmapRegisterCenter \<times> file_system \<Rightarrow>
   (bool \<times> ShmFile \<times> PMMmapRegisterCenter \<times> file_system) run" where
  "ShmFile_Initialize use_dram fallocate os_open mapped filename sz = (\<lambda>(f, c, fs).
     if use_dram \<or> fs_exists ''/dev/dax0.0'' fs then InitializeDevDax filename sz (f, c, fs)
     else run_bind (InitializeFsDax fallocate os_open mapped filename sz (f, fs)) (\<lambda>(r, f, fs). Returns (r, f, c, fs)))"

section \<open>Invariant of the register center\<close>

definition cname :: "MmMeta \<Rightarrow> string" where
  "cname m = takeWhile (\<lambda>c. c \<noteq> NUL) (mm_file_name m)"

definition items :: "PMMmapRegisterCenter \<Rightarrow> MmMeta list" where
  "items c = take (mb_mmMetaNr (rc_metaBlock c)) (mb_mmMeta (rc_metaBlock c))"

definition before :: "MmMeta \<Rightarrow> MmMeta \<Rightarrow> bool" where
  "before m m' \<longleftrightarrow> unat (mm_offset m) + unat (mm_size m) \<le> unat (mm_offset m')"

definition name_ok :: "string \<Rightarrow> bool" where
  "name_ok name \<longleftrightarrow> length name < 50 \<and> NUL \<notin> set name"

definition reg_ok :: "PMMmapRegisterCenter \<Rightarrow> bool" where
  "reg_ok c \<longleftrightarrow> length (mb_mmMeta (rc_metaBlock c)) = MM_META_NR \<and> mb_mmMetaNr (rc_metaBlock c) \<le> MM_META_NR \<and>
     (\<forall>m \<in> set (mb_mmMeta (rc_metaBlock c)). mm_magic m = 0x66666666 \<and> length (mm_file_name m) = 64) \<and>
     unat (rc_data_addr_start c) = unat (rc_addr_start c) + unat sizeof_MetaBlock \<and>
     unat (rc_data_addr_start c) + unat (rc_dax_mm_size c) < 2 ^ 63 \<and>
     unat (rc_data_addr_start c) \<le> unat (rc_mmap_addr c) \<and>
     (\<forall>m \<in> set (items c). mm_size m \<noteq> 0 \<and>
        unat (rc_data_addr_start c) + unat (mm_offset m) + unat (mm_size m) \<le> unat (rc_mmap_addr c)) \<and>
     sorted_wrt before (items c) \<and> distinct (map cname (items c))"

lemma reg_okD:
  assumes "reg_ok c"
  shows "length (mb_mmMeta (rc_metaBlock c)) = 1000" "mb_mmMetaNr (rc_metaBlock c) \<le> 1000"
    "\<And>m. m \<in> set (mb_mmMeta (rc_metaBlock c)) \<Longrightarrow> mm_magic m = 0x66666666 \<and> length (mm_file_name m) = 64"
    "unat (rc_data_addr_start c) = unat (rc_addr_start c) + unat sizeof_MetaBlock"
    "unat (rc_data_addr_start c) + unat (rc_dax_mm_size c) < 2 ^ 63"
    "unat (rc_data_addr_start c) \<le> unat (rc_mmap_addr c)"
    "\<And>m. m \<in> set (items c) \<Longrightarrow> mm_size m \<noteq> 0 \<and>
       unat (rc_data_addr_start c) + unat (mm_offset m) + unat (mm_size m) \<le> unat (rc_mmap_addr c)"
    "sorted_wrt before (items c)" "distinct (map cname (items c))"
  using assms unfolding reg_ok_def MM_META_NR_def by auto

lemma takeWhile_NUL: "NUL \<notin> set name \<Longrightarrow> takeWhile (\<lambda>c. c \<noteq> NUL) (name @ NUL # rest) = name"
  by (subst takeWhile_append2) auto

lemma strncmp_name:
  assumes "name_ok name" and "length (mm_file_name m) = 64"
  shows "strncmp_eq (mm_file_name m) name 64 \<longleftrightarrow> cname m = name"
proof -
  have "takeWhile (\<lambda>c. c \<noteq> NUL) name = name" using assms(1) by (auto simp: name_ok_def takeWhile_eq_all_conv)
  moreover have "take 64 name = name" "take 64 (mm_file_name m) = mm_file_name m" using assms by (simp_all add: name_ok_def)
  ultimately show ?thesis by (simp only: strncmp_eq_def cname_def)
qed

lemma strncpy_name:
  assumes "name_ok name" and "length dest = 64"
  shows "takeWhile (\<lambda>c. c \<noteq> NUL) (strncpy dest name 50) = name" "length (strncpy dest name 50) = 64"
proof -
  have "take 50 (name @ replicate 50 NUL) = name @ NUL # replicate (49 - length name) NUL"
  proof -
    have "length name < 50" using assms(1) by (simp add: name_ok_def)
    then have "50 - length name = Suc (49 - length name)" by linarith
    then show ?thesis using assms(1) by (simp add: name_ok_def)
  qed
  then show "takeWhile (\<lambda>c. c \<noteq> NUL) (strncpy dest name 50) = name"
    using assms(1) takeWhile_NUL by (simp add: strncpy_def name_ok_def)
  show "length (strncpy dest name 50) = 64" using assms(2) by (simp add: strncpy_def)
qed

lemma find_item_name:
  assumes "name_ok name" and "\<And>m. m \<in> set ms \<Longrightarrow> mm_magic m = 0x66666666 \<and> length (mm_file_name m) = 64"
  shows "find_item ms name = Returns (find (\<lambda>m. cname m = name) ms)"
  using assms(2)
proof (induction ms)
  case (Cons m ms)
  then show ?case using strncmp_name [OF assms(1), of m] by simp
qed simp

lemma pos_mod_bound': "n mod 2097152 \<le> (2097151 :: nat)"
  using mod_less_divisor [of 2097152 n] by linarith

lemma pows: "(2 :: nat) ^ 63 = 9223372036854775808" "(2 :: nat) ^ 64 = 18446744073709551616"
  by simp_all

lemma unat_plus: "unat a + unat b < 2 ^ 64 \<Longrightarrow> unat (a + b) = unat a + unat b" for a b :: u64
  by (simp add: unat_word_ariths)

lemma rounded_up:
  fixes sz :: u64
  assumes "unat sz < 2 ^ 63"
  shows "unat sz \<le> unat ((sz + rc_align - 1) div rc_align * rc_align)"
    "unat ((sz + rc_align - 1) div rc_align * rc_align) \<le> unat sz + 2097151"
proof -
  have 1: "unat (sz + rc_align - 1) = unat sz + 2097151"
  proof -
    have "sz + rc_align - 1 = sz + 2097151" by (simp add: rc_align_def)
    then show ?thesis using assms by (simp only:) (simp add: unat_word_ariths)
  qed
  have 2: "unat ((sz + rc_align - 1) div rc_align) = (unat sz + 2097151) div 2097152"
    unfolding unat_div_distrib 1 by (simp add: rc_align_def)
  have "(unat sz + 2097151) div 2097152 * 2097152 < 2 ^ 64" using assms div_times_less_eq_dividend [of "unat sz + 2097151" 2097152] pows by linarith
  then have "unat ((sz + rc_align - 1) div rc_align * rc_align) = (unat sz + 2097151) div 2097152 * 2097152"
    unfolding unat_word_ariths(2) 2 by (simp add: rc_align_def)
  then show "unat sz \<le> unat ((sz + rc_align - 1) div rc_align * rc_align)"
    "unat ((sz + rc_align - 1) div rc_align * rc_align) \<le> unat sz + 2097151"
    using div_mult_mod_eq [of "unat sz + 2097151" 2097152] pos_mod_bound' [of "unat sz + 2097151"] by linarith+
qed

lemma items_item: "m \<in> set (items c) \<Longrightarrow> m \<in> set (mb_mmMeta (rc_metaBlock c))"
  unfolding items_def by (rule in_set_takeD)

lemma append_register_new:
  assumes ok: "reg_ok c" and name: "name_ok name" "name \<notin> cname ` set (items c)" and sz: "sz \<noteq> 0"
    and room: "unat (rc_mmap_addr c) + unat sz \<le> unat (rc_addr_start c) + unat (rc_dax_mm_size c)"
    and nr: "mb_mmMetaNr (rc_metaBlock c) < 1000"
  obtains c' m where "append_register name sz c = Returns (rc_mmap_addr c, c')" "reg_ok c'" "items c' = items c @ [m]"
    "cname m = name" "mm_size m = sz" "rc_data_addr_start c' + mm_offset m = rc_mmap_addr c"
    "rc_data_addr_start c' = rc_data_addr_start c" "unat (mm_offset m) = unat (rc_mmap_addr c) - unat (rc_data_addr_start c)"
    "\<forall>a. rc_mem c' a = (if rc_mmap_addr c \<le> a \<and> unat a < unat (rc_mmap_addr c) + unat sz then 0 else rc_mem c a)"
proof -
  note R = reg_okD [OF ok]
  let ?n = "mb_mmMetaNr (rc_metaBlock c)" and ?ms = "mb_mmMeta (rc_metaBlock c)" and ?ret = "rc_mmap_addr c"
    and ?new = "(sz + rc_align - 1) div rc_align * rc_align"
  have s63: "unat sz < 2 ^ 63" using room R(5,6) R(4) by linarith
  note up = rounded_up [OF s63]
  have a: "unat (?ret + ?new) = unat ?ret + unat ?new"
    using up(2) room R(4,5,6) pows by (intro unat_plus) linarith
  have r1: "unat (?ret + sz) = unat ?ret + unat sz" using room R(4,5) pows by (intro unat_plus) linarith
  have r2: "unat (rc_data_addr_start c + rc_dax_mm_size c) = unat (rc_data_addr_start c) + unat (rc_dax_mm_size c)"
    using R(5) pows by (intro unat_plus) linarith
  have o: "unat (?ret - rc_data_addr_start c) = unat ?ret - unat (rc_data_addr_start c)"
    using R(6) by (simp add: unat_sub word_le_nat_alt)
  define m where "m = (?ms ! ?n)\<lparr>mm_file_name := strncpy (mm_file_name (?ms ! ?n)) name 50,
      mm_offset := ?ret - rc_data_addr_start c, mm_size := sz\<rparr>"
  define c' where "c' = c\<lparr>rc_mmap_addr := ?ret + ?new,
      rc_mem := (\<lambda>a. if ?ret \<le> a \<and> unat a < unat ?ret + unat sz then 0 else rc_mem c a),
      rc_metaBlock := (rc_metaBlock c)\<lparr>mb_mmMeta := ?ms[?n := m], mb_mmMetaNr := ?n + 1\<rparr>\<rparr>"
  have old: "mm_magic (?ms ! ?n) = 0x66666666" "length (mm_file_name (?ms ! ?n)) = 64"
    using R(1,3) nr nth_mem [of ?n ?ms] by auto
  have cn: "cname m = name" "length (mm_file_name m) = 64" "mm_magic m = 0x66666666"
    using strncpy_name [OF name(1) old(2)] old(1) by (simp_all add: m_def cname_def)
  have it: "items c' = items c @ [m]"
    using nr R(1) by (simp add: items_def c'_def take_Suc_conv_app_nth)
  have "append_register name sz c = Returns (?ret, c')"
    using sz R(4,6) room nr r1 r2 sz unsigned_eq_0_iff [of sizeof_MetaBlock]
    by (simp add: append_register_def Let_def word_le_nat_alt word_less_nat_alt rc_memset_def MM_META_NR_def c'_def m_def sizeof_MetaBlock_def cong: if_cong)
  moreover have "reg_ok c'"
  proof -
    have 1: "\<forall>x \<in> set (?ms[?n := m]). mm_magic x = 0x66666666 \<and> length (mm_file_name x) = 64"
      using R(3) cn by (auto dest!: set_update_subset_insert [THEN subsetD])
    have 2: "before x m" if "x \<in> set (items c)" for x
      using R(7) [OF that] unfolding before_def m_def by (simp add: o) linarith
    have 3: "mm_size m \<noteq> 0 \<and> unat (rc_data_addr_start c) + unat (mm_offset m) + unat (mm_size m) \<le> unat (?ret + ?new)"
      using sz o R(6) up(1) a by (simp add: m_def)
    have 4: "unat (rc_data_addr_start c) + unat (mm_offset x) + unat (mm_size x) \<le> unat (?ret + ?new)" if "x \<in> set (items c)" for x
      using R(7) [OF that] a by simp
    show ?thesis
      unfolding reg_ok_def it
      using R(1,2,4,5,6,8,9) 1 2 3 4 R(7) nr a name(2) cn(1)
      by (simp add: c'_def MM_META_NR_def sorted_wrt_append)
  qed
  moreover have "rc_data_addr_start c' + mm_offset m = ?ret" by (simp add: c'_def m_def)
  ultimately show thesis
    using that [of c' m] it cn o by (simp add: c'_def m_def)
qed

lemma Register_known:
  assumes ok: "reg_ok c" and name: "name_ok name" and m: "m \<in> set (items c)" "cname m = name" "mm_size m = sz"
  shows "Register name sz c = Returns (rc_data_addr_start c + mm_offset m, c)"
proof -
  note R = reg_okD [OF ok]
  have f: "FindIfExists name c = Returns (find (\<lambda>m. cname m = name) (items c))"
    unfolding FindIfExists_def items_def [symmetric] by (rule find_item_name [OF name]) (use R(3) items_item in blast)
  have "find (\<lambda>m. cname m = name) (items c) = Some m"
  proof -
    obtain m' where m': "find (\<lambda>m. cname m = name) (items c) = Some m'"
      using m by (cases "find (\<lambda>m. cname m = name) (items c)") (auto simp: find_None_iff)
    then have "m' \<in> set (items c)" "cname m' = name" by (auto simp: find_Some_iff)
    then have "m' = m" using m R(9) by (auto simp: distinct_map inj_on_def)
    then show ?thesis using m' by simp
  qed
  moreover have "unat (rc_data_addr_start c + mm_offset m + mm_size m) = unat (rc_data_addr_start c) + unat (mm_offset m) + unat (mm_size m)"
  proof -
    have "unat (rc_mmap_addr c) < 2 ^ 64" using unsigned_less [of "rc_mmap_addr c"] by simp
    then have "unat (rc_data_addr_start c) + unat (mm_offset m) + unat (mm_size m) < 2 ^ 64" using R(7) [OF m(1)] by linarith
    then show ?thesis by (simp add: unat_plus)
  qed
  then have "rc_data_addr_start c + mm_offset m + mm_size m \<le> rc_mmap_addr c"
    using R(7) [OF m(1)] by (simp add: word_le_nat_alt)
  ultimately show ?thesis using f m(3) by (simp add: Register_def Let_def max_def)
qed

lemma Register_unknown:
  assumes ok: "\<And>m. m \<in> set (items c) \<Longrightarrow> mm_magic m = 0x66666666 \<and> length (mm_file_name m) = 64"
    and name: "name_ok name" "name \<notin> cname ` set (items c)"
  shows "Register name sz c = append_register name sz c"
proof -
  have "find (\<lambda>m. cname m = name) (items c) = None" using name(2) by (auto simp: find_None_iff)
  moreover have "FindIfExists name c = Returns (find (\<lambda>m. cname m = name) (items c))"
    unfolding FindIfExists_def items_def [symmetric]
    by (rule find_item_name [OF name(1) ok])
  ultimately show ?thesis by (simp add: Register_def)
qed

text \<open>In memory mode the constructor has used up \<open>ReInitialize\<close>: another size for a known name ends the process.\<close>

lemma Register_dram_mismatch:
  assumes "PMMmapRegisterCenter_new True numa_id os_open mapped b mem flag = Returns c" and "rc_flag c' = rc_flag c"
    and "FindIfExists name c' = Returns (Some m)" and "mm_size m \<noteq> sz"
  shows "Register name sz c' = Aborts (LogFatal ''ReInitialize is non-reentrant'')"
proof -
  have "rc_flag c"
    using assms(1) by (auto simp: PMMmapRegisterCenter_new_def ReInitialize_def run_simps Let_def split: if_splits option.splits)
  then show ?thesis using assms(2-4) by (simp add: Register_def ReInitialize_def)
qed

text \<open>
  The limit that is checked lies 32 MB behind the end of the mapping: a region in between passes the
  check and is then written outside the mapping.
\<close>

lemma append_register_beyond:
  assumes "sz \<noteq> 0" and "rc_data_addr_start c \<le> rc_mmap_addr c"
    and "rc_mmap_addr c + sz < rc_data_addr_start c + rc_dax_mm_size c"
    and "unat (rc_addr_start c) + unat (rc_dax_mm_size c) < unat (rc_mmap_addr c) + unat sz"
  shows "append_register name sz c = Aborts (Undefined ''memset'')"
  using assms by (simp add: append_register_def Let_def rc_memset_def)

section \<open>Properties\<close>

text \<open>
  (C29) Registration within one process: a name that is new, or known with the same size, gets a region
  that stays its own. The call returns, the table is consistent again with pairwise disjoint regions,
  no entry of another name changes, the contents of the memory change at most inside the new
  region, and asking again for the same name and size gives the same address without any effect.
\<close>

theorem Register_stable:
  assumes "reg_ok c" and "name_ok name" and "sz \<noteq> 0"
    and "unat (rc_mmap_addr c) + unat sz \<le> unat (rc_addr_start c) + unat (rc_dax_mm_size c)"
    and "mb_mmMetaNr (rc_metaBlock c) < 1000" and "\<forall>m \<in> set (items c). cname m = name \<longrightarrow> mm_size m = sz"
  shows "\<exists>p c'. Register name sz c = Returns (p, c') \<and> reg_ok c' \<and> Register name sz c' = Returns (p, c') \<and>
    (\<exists>m \<in> set (items c'). cname m = name \<and> mm_size m = sz \<and> p = rc_data_addr_start c' + mm_offset m) \<and>
    (\<forall>m \<in> set (items c). m \<in> set (items c')) \<and>
    (\<forall>a. rc_mem c' a \<noteq> rc_mem c a \<longrightarrow> name \<notin> cname ` set (items c) \<and> p \<le> a \<and> unat a < unat p + unat sz)"
proof (cases "name \<in> cname ` set (items c)")
  case True
  then obtain m where m: "m \<in> set (items c)" "cname m = name" by auto
  then have "Register name sz c = Returns (rc_data_addr_start c + mm_offset m, c)"
    using Register_known [OF assms(1,2) m] assms(6) by simp
  then show ?thesis using assms(1,6) m by (intro exI [of _ "rc_data_addr_start c + mm_offset m"] exI [of _ c]) auto
next
  case False
  obtain c' m where r: "append_register name sz c = Returns (rc_mmap_addr c, c')" "reg_ok c'" "items c' = items c @ [m]"
    "cname m = name" "mm_size m = sz" "rc_data_addr_start c' + mm_offset m = rc_mmap_addr c"
    "rc_data_addr_start c' = rc_data_addr_start c" "unat (mm_offset m) = unat (rc_mmap_addr c) - unat (rc_data_addr_start c)"
    "\<forall>a. rc_mem c' a = (if rc_mmap_addr c \<le> a \<and> unat a < unat (rc_mmap_addr c) + unat sz then 0 else rc_mem c a)"
    using append_register_new [OF assms(1,2) False assms(3,4,5)] .
  have "m \<in> set (items c')" using r(3) by simp
  then have "Register name sz c' = Returns (rc_mmap_addr c, c')"
    using Register_known [OF r(2) assms(2) _ r(4,5)] r(6) by simp
  then show ?thesis
    using Register_unknown [OF _ assms(2) False] reg_okD(3) [OF assms(1)] items_item r(1-6,9) False
    by (intro exI [of _ "rc_mmap_addr c"] exI [of _ c']) auto
qed

definition demo_center :: PMMmapRegisterCenter where
  "demo_center = \<lparr>rc_metaBlock = MetaBlock_new, rc_addr_start = 4096, rc_data_addr_start = 4096 + sizeof_MetaBlock,
     rc_mmap_addr = 4096 + sizeof_MetaBlock, rc_dax_mm_size = kDaxSize, rc_flag = False, rc_mem = (\<lambda>a. 7)\<rparr>"

lemma demo_center_ok: "reg_ok demo_center" "items demo_center = []"
  by (simp_all add: reg_ok_def demo_center_def items_def MetaBlock_new_def MM_META_NR_def sizeof_MetaBlock_def kDaxSize_def)

theorem Register_stable_witness:
  "\<exists>p c'. Register ''value'' 100 demo_center = Returns (p, c') \<and> Register ''value'' 100 c' = Returns (p, c')"
proof -
  have "name_ok ''value''" by code_simp
  moreover have "unat (rc_mmap_addr demo_center) + unat (100 :: u64) \<le> unat (rc_addr_start demo_center) + unat (rc_dax_mm_size demo_center)"
    by (simp add: demo_center_def sizeof_MetaBlock_def kDaxSize_def)
  moreover have "mb_mmMetaNr (rc_metaBlock demo_center) < 1000" by (simp add: demo_center_def MetaBlock_new_def)
  ultimately show ?thesis using Register_stable [OF demo_center_ok(1), of "''value''" 100] demo_center_ok(2) by auto
qed

text \<open>
  (C30) After a restart the register center forgets which part of the device is in use: a new process that
  first registers a name the device does not know gets the first region behind the block, and sets
  its bytes to zero, although the table still assigns it to another name.
\<close>

theorem Register_restart_overwrites:
  assumes "length (mb_mmMeta b) = 1000" and "mb_mmMetaNr b < 1000"
    and "\<forall>m \<in> set (mb_mmMeta b). mm_magic m = 0x66666666 \<and> length (mm_file_name m) = 64"
    and "m \<in> set (take (mb_mmMetaNr b) (mb_mmMeta b))" and "mm_offset m = 0"
    and "name_ok name" and "name \<notin> cname ` set (take (mb_mmMetaNr b) (mb_mmMeta b))" and "sz \<noteq> 0" and "unat sz \<le> 2 ^ 37"
    and "0 \<le> os_open (''/dev/dax'' @ IntToString numa_id @ ''.0'')" and "numa_id \<noteq> -1" and "unat data < 2 ^ 62"
  shows "\<exists>c c'. PMMmapRegisterCenter_new False numa_id os_open (Some data) b mem False = Returns c \<and>
    Register name sz c = Returns (rc_data_addr_start c + mm_offset m, c') \<and> m \<in> set (items c') \<and>
    (\<forall>i < unat sz. rc_mem c' (rc_data_addr_start c + mm_offset m + of_nat i) = 0)"
proof -
  let ?c = "\<lparr>rc_metaBlock = b, rc_addr_start = data, rc_data_addr_start = data + sizeof_MetaBlock,
      rc_mmap_addr = data + sizeof_MetaBlock, rc_dax_mm_size = kDaxSize, rc_flag = False, rc_mem = mem\<rparr>"
  let ?n = "mb_mmMetaNr b" and ?s = "data + sizeof_MetaBlock" and ?ms = "mb_mmMeta b"
  have new: "PMMmapRegisterCenter_new False numa_id os_open (Some data) b mem False = Returns ?c"
    using assms(10,11) by (simp add: PMMmapRegisterCenter_new_def)
  have "(2 :: nat) ^ 62 = 4611686018427387904" "(2 :: nat) ^ 37 = 137438953472" by simp_all
  then have b: "unat data < 4611686018427387904" "unat sz \<le> 137438953472" using assms(9,12) by simp_all
  have u: "unat ?s = unat data + 33554432" "unat (?s + sz) = unat data + 33554432 + unat sz"
    "unat (?s + kDaxSize) = unat data + 33554432 + 150323855360"
    using b by (simp_all add: unat_plus sizeof_MetaBlock_def kDaxSize_def)
  define item where "item = (?ms ! ?n)\<lparr>mm_file_name := strncpy (mm_file_name (?ms ! ?n)) name 50, mm_offset := 0, mm_size := sz\<rparr>"
  define c' where "c' = ?c\<lparr>rc_mmap_addr := ?s + (sz + rc_align - 1) div rc_align * rc_align,
      rc_mem := (\<lambda>a. if ?s \<le> a \<and> unat a < unat ?s + unat sz then 0 else mem a),
      rc_metaBlock := b\<lparr>mb_mmMeta := ?ms[?n := item], mb_mmMetaNr := ?n + 1\<rparr>\<rparr>"
  have "append_register name sz ?c = Returns (?s, c')"
    using assms(2,8) u b
    by (simp add: append_register_def Let_def word_le_nat_alt word_less_nat_alt rc_memset_def MM_META_NR_def c'_def item_def kDaxSize_def cong: if_cong)
  moreover have "Register name sz ?c = append_register name sz ?c"
    by (rule Register_unknown) (use assms(3,6,7) in \<open>auto simp: items_def dest: in_set_takeD\<close>)
  moreover have "m \<in> set (items c')"
    using assms(1,2,4) by (simp add: items_def c'_def take_Suc_conv_app_nth)
  moreover have "rc_mem c' (?s + of_nat i) = 0" if "i < unat sz" for i
  proof -
    have "unat (of_nat i :: u64) = i" using that b(2) by (simp add: unsigned_of_nat take_bit_nat_eq_self)
    then have "unat (?s + of_nat i) = unat ?s + i" using that b u(1) by (subst unat_plus) simp_all
    then show ?thesis using that by (simp add: c'_def word_le_nat_alt)
  qed
  ultimately show ?thesis using new assms(5) by (intro exI [of _ ?c] exI [of _ c']) simp
qed

theorem Register_restart_overwrites_witness:
  "\<exists>b c c'. mb_mmMetaNr b = 1 \<and> cname (mb_mmMeta b ! 0) = ''value'' \<and>
     PMMmapRegisterCenter_new False 0 (\<lambda>f. 3) (Some 4096) b (\<lambda>a. 7) False = Returns c \<and>
     Register ''dict'' 100 c = Returns (rc_data_addr_start c, c') \<and> rc_mem c' (rc_data_addr_start c) = 0"
proof -
  let ?m = "\<lparr>mm_file_name = ''value'' @ replicate 59 NUL, mm_offset = 0, mm_size = 50, mm_magic = 0x66666666\<rparr>"
  let ?b = "\<lparr>mb_magic = 0xdeadbeef, mb_mmMetaNr = 1, mb_mmMeta = ?m # replicate 999 ?m\<rparr>"
  have n: "name_ok ''dict''" "''dict'' \<noteq> ''value''" "name_ok ''value''" by code_simp+
  have cn: "cname ?m = ''value''"
  proof -
    have "replicate 59 NUL = NUL # replicate 58 NUL" by (simp add: numeral_eq_Suc)
    then show ?thesis using takeWhile_NUL [of "''value''"] n(3) by (simp add: cname_def name_ok_def del: append_Cons)
  qed
  have "\<exists>c c'. PMMmapRegisterCenter_new False 0 (\<lambda>f. 3) (Some 4096) ?b (\<lambda>a. 7) False = Returns c \<and>
      Register ''dict'' 100 c = Returns (rc_data_addr_start c + mm_offset ?m, c') \<and> ?m \<in> set (items c') \<and>
      (\<forall>i < unat (100 :: u64). rc_mem c' (rc_data_addr_start c + mm_offset ?m + of_nat i) = 0)"
    by (rule Register_restart_overwrites) (use n cn in simp_all)
  then obtain c c' where r: "PMMmapRegisterCenter_new False 0 (\<lambda>f. 3) (Some 4096) ?b (\<lambda>a. 7) False = Returns c"
    "Register ''dict'' 100 c = Returns (rc_data_addr_start c, c')"
    "\<forall>i < unat (100 :: u64). rc_mem c' (rc_data_addr_start c + of_nat i) = 0"
    by auto
  from r(3) have "rc_mem c' (rc_data_addr_start c + of_nat 0) = 0" by (rule allE [of _ 0]) simp
  then show ?thesis using r(1,2) cn by (intro exI [of _ ?b] exI [of _ c] exI [of _ c']) simp
qed

end
