(* ===== verification/Base_Array.thy ===== *)
theory Base_Array
  imports Base_Files
begin

text \<open>
  Views of arrays in memory (\<open>src/src/base/array.h\<close>): \<open>ConstArray\<close> and \<open>MutableArray\<close>, a pointer and a number
  of elements. Memory is a function from addresses to bytes. The element type is given by its size
  and the reading of its bytes; the locale \<open>scalar\<close> states what the round trips need of it, and is
  interpreted for the types that the parameter server sends, \<open>uint64_t\<close> and \<open>int\<close>.
\<close>

section \<open>Elements in memory\<close>

text \<open>The bytes of a word, lowest first, and the word they stand for.\<close>

definition le_bytes :: "nat \<Rightarrow> 'a::len word \<Rightarrow> u8 list" where
  "le_bytes n w = map (\<lambda>i. ucast (drop_bit (8 * i) w)) [0..<n]"

definition le_word :: "u8 list \<Rightarrow> 'a::len word" where
  "le_word bs = of_nat (horner_sum unat 256 bs)"

definition mem_bytes :: "(nat \<Rightarrow> u8) \<Rightarrow> nat \<Rightarrow> nat \<Rightarrow> u8 list" where
  "mem_bytes mem a n = map mem [a..<a + n]"

section \<open>Views\<close>

record ConstArray =
  ca_list :: "nat option"
  ca_size :: int

text \<open>A \<open>size_t\<close> that is stored in an \<open>int\<close>.\<close>

definition to_int :: "nat \<Rightarrow> int" where
  "to_int n = sint (of_nat n :: 32 word)"

definition ConstArray_new :: "nat option \<Rightarrow> int \<Rightarrow> ConstArray" where
  "ConstArray_new p n = \<lparr>ca_list = p, ca_size = n\<rparr>"

text \<open>From a vector with its data at \<open>p\<close>, and from a string of \<open>n\<close> bytes at \<open>p\<close>.\<close>

definition ConstArray_of_vector :: "nat option \<Rightarrow> nat \<Rightarrow> ConstArray" where
  "ConstArray_of_vector p n = \<lparr>ca_list = p, ca_size = to_int n\<rparr>"

definition ConstArray_of_string :: "nat \<Rightarrow> nat \<Rightarrow> nat \<Rightarrow> ConstArray" where
  "ConstArray_of_string sz p n = \<lparr>ca_list = Some p, ca_size = to_int (n div sz)\<rparr>"

text \<open>The size is converted to \<open>size_t\<close> before the remainder is taken.\<close>

definition SetData :: "nat \<Rightarrow> nat option \<Rightarrow> int \<Rightarrow> ConstArray" where
  "SetData sz p data_size =
     (let n = unat (of_int data_size :: u64)
      in if n mod sz = 0 then \<lparr>ca_list = p, ca_size = to_int (n div sz)\<rparr> else \<lparr>ca_list = None, ca_size = 0\<rparr>)"

text \<open>Element \<open>n\<close>; the null pointer cannot be read.\<close>

definition array_nth :: "nat \<Rightarrow> (u8 list \<Rightarrow> 'a) \<Rightarrow> (nat \<Rightarrow> u8) \<Rightarrow> ConstArray \<Rightarrow> nat \<Rightarrow> 'a run" where
  "array_nth sz dec mem a n =
     (case ca_list a of None \<Rightarrow> Aborts (NullDeref ''list'') | Some p \<Rightarrow> Returns (dec (mem_bytes mem (p + n * sz) sz)))"

fun append_loop :: "(nat \<Rightarrow> 'a run) \<Rightarrow> nat list \<Rightarrow> 'a list \<Rightarrow> 'a list run" where
  "append_loop elem [] vector = Returns vector"
| "append_loop elem (i # is) vector = run_bind (elem i) (\<lambda>x. append_loop elem is (vector @ [x]))"

definition AppendToVector :: "nat \<Rightarrow> (u8 list \<Rightarrow> 'a) \<Rightarrow> (nat \<Rightarrow> u8) \<Rightarrow> ConstArray \<Rightarrow> 'a list \<Rightarrow> 'a list run" where
  "AppendToVector sz dec mem a vector = append_loop (array_nth sz dec mem a) [0..<nat (ca_size a)] vector"

definition CopyToVector :: "nat \<Rightarrow> (u8 list \<Rightarrow> 'a) \<Rightarrow> (nat \<Rightarrow> u8) \<Rightarrow> ConstArray \<Rightarrow> 'a list \<Rightarrow> 'a list run" where
  "CopyToVector sz dec mem a vector = AppendToVector sz dec mem a []"

text \<open>\<open>reserve\<close> of a negative size is a request beyond the largest vector.\<close>

definition ToVector :: "nat \<Rightarrow> (u8 list \<Rightarrow> 'a) \<Rightarrow> (nat \<Rightarrow> u8) \<Rightarrow> ConstArray \<Rightarrow> 'a list run" where
  "ToVector sz dec mem a =
     (if ca_size a < 0 then Aborts (Uncaught ''length_error'') else AppendToVector sz dec mem a [])"

definition array_front :: "nat \<Rightarrow> (u8 list \<Rightarrow> 'a) \<Rightarrow> (nat \<Rightarrow> u8) \<Rightarrow> ConstArray \<Rightarrow> 'a run" where
  "array_front sz dec mem a = array_nth sz dec mem a 0"

definition array_back :: "nat \<Rightarrow> (u8 list \<Rightarrow> 'a) \<Rightarrow> (nat \<Rightarrow> u8) \<Rightarrow> ConstArray \<Rightarrow> 'a run" where
  "array_back sz dec mem a =
     (if ca_size a < 1 then Aborts (Undefined ''element -1'') else array_nth sz dec mem a (nat (ca_size a - 1)))"

text \<open>\<open>sizeof(T) * size\<close> is computed in \<open>size_t\<close> and returned as \<open>int64_t\<close>.\<close>

definition binary_size :: "nat \<Rightarrow> ConstArray \<Rightarrow> int" where
  "binary_size sz a = sint (of_nat sz * of_int (ca_size a) :: u64)"

definition as_string :: "nat \<Rightarrow> (nat \<Rightarrow> u8) \<Rightarrow> ConstArray \<Rightarrow> u8 list run" where
  "as_string sz mem a =
     (case ca_list a of
        None \<Rightarrow> Returns []
      | Some p \<Rightarrow>
          if binary_size sz a < 0 then Aborts (Uncaught ''length_error'') else Returns (mem_bytes mem p (nat (binary_size sz a))))"

fun debug_loop :: "('a \<Rightarrow> string) \<Rightarrow> 'a list \<Rightarrow> string \<Rightarrow> string" where
  "debug_loop to_string [] temp = temp"
| "debug_loop to_string (x # xs) temp = debug_loop to_string xs (temp @ to_string x @ '','')"

definition array_Debug :: "nat \<Rightarrow> (u8 list \<Rightarrow> 'a) \<Rightarrow> ('a \<Rightarrow> string) \<Rightarrow> (nat \<Rightarrow> u8) \<Rightarrow> ConstArray \<Rightarrow> string run" where
  "array_Debug sz dec to_string mem a =
     run_bind (append_loop (array_nth sz dec mem a) [0..<nat (ca_size a)] []) (\<lambda>xs. Returns (debug_loop to_string xs []))"

text \<open>
  \<open>MutableArray\<close> has the same data and reads it the same way, can be written, refuses data that does not
  fit (unless assertions are compiled out), and ends its text with a line break.
\<close>

record MutableArray =
  ma_list :: "nat option"
  ma_size :: int

definition ToConstArray :: "MutableArray \<Rightarrow> ConstArray" where
  "ToConstArray a = ConstArray_new (ma_list a) (ma_size a)"

definition Mutable_SetData :: "bool \<Rightarrow> nat \<Rightarrow> nat option \<Rightarrow> int \<Rightarrow> MutableArray run" where
  "Mutable_SetData ndebug sz p data_size =
     (let n = unat (of_int data_size :: u64)
      in if n mod sz = 0 then Returns \<lparr>ma_list = p, ma_size = to_int (n div sz)\<rparr>
         else if ndebug then Returns \<lparr>ma_list = None, ma_size = 0\<rparr>
         else Aborts (CheckFailed ''assert(0)''))"

definition array_set :: "nat \<Rightarrow> ('a \<Rightarrow> u8 list) \<Rightarrow> MutableArray \<Rightarrow> nat \<Rightarrow> 'a \<Rightarrow> (nat \<Rightarrow> u8) \<Rightarrow> (nat \<Rightarrow> u8) run" where
  "array_set sz enc a n x mem =
     (case ma_list a of
        None \<Rightarrow> Aborts (NullDeref ''list'')
      | Some p \<Rightarrow> Returns (\<lambda>i. if p + n * sz \<le> i \<and> i < p + n * sz + sz then enc x ! (i - (p + n * sz)) else mem i))"

definition Mutable_Debug :: "nat \<Rightarrow> (u8 list \<Rightarrow> 'a) \<Rightarrow> ('a \<Rightarrow> string) \<Rightarrow> (nat \<Rightarrow> u8) \<Rightarrow> MutableArray \<Rightarrow> string run" where
  "Mutable_Debug sz dec to_string mem a =
     run_bind (array_Debug sz dec to_string mem (ToConstArray a)) (\<lambda>s. Returns (s @ [CHR 0x0A]))"

section \<open>Bytes of a word\<close>

lemma length_concat_le: "\<forall>d \<in> set ds. length d \<le> s \<Longrightarrow> length (concat ds) \<le> length ds * s"
  by (induction ds) auto

lemma length_le_bytes [simp]: "length (le_bytes n w) = n" by (simp add: le_bytes_def)

lemma key_bytes_le: "key_bytes = le_bytes 8" by (simp add: fun_eq_iff key_bytes_def le_bytes_def)

lemma byte_digit: "unat (ucast (drop_bit (8 * i) w) :: u8) = unat (w :: 'a::len word) div 256 ^ i mod 256"
  by (simp add: unsigned_ucast_eq unat_drop_bit_eq take_bit_eq_mod) (simp add: drop_bit_eq_div power_mult)

lemma horner_digits: "horner_sum (\<lambda>a. a) 256 (map (\<lambda>i. x div 256 ^ (j + i) mod 256) [0..<n]) = x div 256 ^ j mod 256 ^ n" for x :: nat
proof (induction n arbitrary: j)
  case (Suc n)
  have "map (\<lambda>i. x div 256 ^ (j + i) mod 256) [0..<Suc n] =
      (x div 256 ^ j mod 256) # map (\<lambda>i. x div 256 ^ (Suc j + i) mod 256) [0..<n]"
    by (simp add: map_upt_Suc del: upt_Suc)
  moreover have "x div 256 ^ Suc j = x div 256 ^ j div 256" by (simp add: div_mult2_eq [symmetric] mult.commute)
  ultimately have "horner_sum (\<lambda>a. a) 256 (map (\<lambda>i. x div 256 ^ (j + i) mod 256) [0..<Suc n]) =
      x div 256 ^ j mod 256 + 256 * (x div 256 ^ j div 256 mod 256 ^ n)"
    using Suc.IH [of "Suc j"] by (simp del: upt_Suc power_Suc)
  then show ?case by (simp add: mod_mult2_eq)
qed simp

lemma le_word_bytes:
  assumes "LENGTH('a::len) \<le> 8 * n"
  shows "le_word (le_bytes n w) = (w :: 'a word)"
proof -
  have "horner_sum unat 256 (le_bytes n w) = horner_sum (\<lambda>a. a) 256 (map unat (le_bytes n w))"
    by (simp add: horner_sum_eq_sum)
  also have "\<dots> = unat w mod 256 ^ n"
    using horner_digits [of "unat w" 0 n] by (simp add: le_bytes_def byte_digit comp_def)
  also have "\<dots> = unat w"
  proof -
    have "unat w < 2 ^ LENGTH('a)" by (rule unsigned_less)
    also have "\<dots> \<le> 2 ^ (8 * n)" using assms by (simp add: power_increasing)
    finally show ?thesis by (simp add: power_mult)
  qed
  finally show ?thesis by (simp add: le_word_def)
qed

section \<open>Elements that can be read back\<close>

lemma sint_nat: "n < 2 ^ (LENGTH('a::len) - 1) \<Longrightarrow> sint (of_nat n :: 'a word) = int n"
proof -
  assume "n < 2 ^ (LENGTH('a) - 1)"
  then have "int n < 2 ^ (LENGTH('a) - 1)" by (metis of_nat_less_iff of_nat_numeral of_nat_power)
  moreover have "- (2 ^ (LENGTH('a) - 1)) \<le> int n" by (rule order_trans [of _ 0]) simp_all
  ultimately show ?thesis by (simp add: signed_of_nat signed_take_bit_int_eq_self)
qed

lemma to_int_small: "n < 2 ^ 31 \<Longrightarrow> to_int n = int n"
  using sint_nat [where 'a = 32, of n] by (simp add: to_int_def)

lemma mem_bytes_append: "mem_bytes mem p (m + n) = mem_bytes mem p m @ mem_bytes mem (p + m) n"
  using upt_add_eq_append [of p "p + m" n] by (simp add: mem_bytes_def add.assoc)

lemma length_mem_bytes [simp]: "length (mem_bytes mem p n) = n" by (simp add: mem_bytes_def)

lemma append_loop_all: "(\<And>i. i \<in> set is \<Longrightarrow> elem i = Returns (f i)) \<Longrightarrow> append_loop elem is v = Returns (v @ map f is)"
  by (induction "is" arbitrary: v) auto

locale scalar =
  fixes sz :: nat and enc :: "'a \<Rightarrow> u8 list" and dec :: "u8 list \<Rightarrow> 'a"
  assumes sz_pos: "0 < sz" and length_enc: "length (enc x) = sz" and dec_enc: "dec (enc x) = x"
begin

lemma stored_elem:
  "mem_bytes mem p (length xs * sz) = concat (map enc xs) \<Longrightarrow> i < length xs \<Longrightarrow> dec (mem_bytes mem (p + i * sz) sz) = xs ! i"
proof (induction xs arbitrary: p i)
  case (Cons x xs)
  from Cons.prems(1) have "mem_bytes mem p sz = enc x" "mem_bytes mem (p + sz) (length xs * sz) = concat (map enc xs)"
    by (simp_all add: mem_bytes_append length_enc append_eq_append_conv)
  then show ?case using Cons.IH [of "p + sz" "i - 1"] Cons.prems(2) dec_enc by (cases i) (simp_all add: add.assoc)
qed simp

lemma ToVector_stored:
  assumes "mem_bytes mem p (length xs * sz) = concat (map enc xs)"
  shows "ToVector sz dec mem (ConstArray_new (Some p) (int (length xs))) = Returns xs"
proof -
  have "append_loop (array_nth sz dec mem (ConstArray_new (Some p) (int (length xs)))) [0..<length xs] [] =
      Returns ([] @ map (\<lambda>i. xs ! i) [0..<length xs])"
    using stored_elem [OF assms] by (intro append_loop_all) (simp add: array_nth_def ConstArray_new_def)
  then show ?thesis by (simp add: ToVector_def AppendToVector_def ConstArray_new_def map_nth)
qed

lemma length_stored: "length (concat (map enc xs)) = length xs * sz"
  by (induction xs) (simp_all add: length_enc)

lemma binary_size_small: "length xs * sz < 2 ^ 31 \<Longrightarrow> binary_size sz (ConstArray_of_vector p (length xs)) = int (length xs * sz)"
proof -
  assume small: "length xs * sz < 2 ^ 31"
  have "length xs \<le> length xs * sz" using sz_pos by simp
  then have "to_int (length xs) = int (length xs)" using small to_int_small by (meson le_less_trans)
  moreover have "sint (of_nat (sz * length xs) :: u64) = int (sz * length xs)"
    using small by (intro sint_nat) (simp add: mult.commute)
  ultimately show ?thesis by (simp add: binary_size_def ConstArray_of_vector_def mult.commute)
qed

lemma view_sent:
  assumes "mem_bytes mem p (length xs * sz) = concat (map enc xs)" and "length xs * sz < 2 ^ 31"
  shows "as_string sz mem (ConstArray_of_vector (Some p) (length xs)) = Returns (concat (map enc xs))"
proof -
  have "ca_list (ConstArray_of_vector (Some p) (length xs)) = Some p" by (simp add: ConstArray_of_vector_def)
  then show ?thesis using assms(1) binary_size_small [OF assms(2), of "Some p"] by (simp add: as_string_def del: of_nat_mult)
qed

lemma view_received:
  assumes "length xs * sz < 2 ^ 31"
  shows "ConstArray_of_string sz q (length xs * sz) = ConstArray_new (Some q) (int (length xs))"
    and "SetData sz (Some q) (int (length xs * sz)) = ConstArray_new (Some q) (int (length xs))"
proof -
  have "length xs \<le> length xs * sz" using sz_pos by simp
  then have "to_int (length xs) = int (length xs)" using assms to_int_small by (meson le_less_trans)
  then show "ConstArray_of_string sz q (length xs * sz) = ConstArray_new (Some q) (int (length xs))"
    using sz_pos by (simp add: ConstArray_of_string_def ConstArray_new_def)
  moreover have "unat (of_nat (length xs * sz) :: u64) = length xs * sz"
    using assms by (simp add: unsigned_of_nat take_bit_nat_eq_self del: of_nat_mult)
  ultimately show "SetData sz (Some q) (int (length xs * sz)) = ConstArray_new (Some q) (int (length xs))"
    using sz_pos by (simp add: SetData_def ConstArray_of_string_def ConstArray_new_def del: of_nat_mult)
qed

lemma set_nth:
  assumes "ma_list a = Some p"
  shows "\<exists>mem'. array_set sz enc a n x mem = Returns mem' \<and> array_nth sz dec mem' (ToConstArray a) n = Returns x \<and>
    (\<forall>i. i \<noteq> n \<longrightarrow> array_nth sz dec mem' (ToConstArray a) i = array_nth sz dec mem (ToConstArray a) i)"
proof -
  let ?m = "\<lambda>i. if p + n * sz \<le> i \<and> i < p + n * sz + sz then enc x ! (i - (p + n * sz)) else mem i"
  have "mem_bytes ?m (p + n * sz) sz = enc x"
    by (rule nth_equalityI) (simp_all add: mem_bytes_def length_enc)
  moreover have "mem_bytes ?m (p + i * sz) sz = mem_bytes mem (p + i * sz) sz" if "i \<noteq> n" for i
  proof -
    from that have "Suc i \<le> n \<or> Suc n \<le> i" by linarith
    then have "Suc i * sz \<le> n * sz \<or> Suc n * sz \<le> i * sz" using mult_le_mono1 by blast
    then show ?thesis by (auto simp: mem_bytes_def)
  qed
  ultimately show ?thesis using assms dec_enc
    by (simp add: array_set_def array_nth_def ToConstArray_def ConstArray_new_def)
qed

end

interpretation u64s: scalar 8 "le_bytes 8 :: u64 \<Rightarrow> u8 list" le_word
  by unfold_locales (simp_all add: le_word_bytes)

interpretation i32s: scalar 4 "le_bytes 4 :: 32 word \<Rightarrow> u8 list" le_word
  by unfold_locales (simp_all add: le_word_bytes)

lemma SetData_rejects:
  assumes "0 \<le> n" "n < 2 ^ 31" "n mod 8 \<noteq> 0"
  shows "SetData 8 q n = \<lparr>ca_list = None, ca_size = 0\<rparr>"
proof -
  have "n < 2 ^ 64" using assms(2) by simp
  then have "take_bit 64 n = n" using assms(1) by (simp only: take_bit_int_eq_self)
  then have u: "unat (of_int n :: u64) = nat n" by (simp add: unsigned_of_int)
  have "nat n mod 8 \<noteq> 0" using assms nat_mod_distrib [of n 8] by simp
  then show ?thesis unfolding SetData_def u Let_def by simp
qed

section \<open>Properties\<close>



end
