(* ===== verification/Base_Float.thy ===== *)
theory Base_Float
  imports Pet_Init Base_Array
begin

text \<open>
  The single precision arithmetic that fills and checks embeddings (\<open>src/src/base/timer.h\<close>: \<open>XDebug\<close>): the
  conversion of a key to \<open>float\<close>, the subtraction, and the comparison with \<open>1e-6\<close>. Every finite \<open>float\<close> is a
  multiple of \<open>2 ^ -149\<close> and is kept as that integer, so no rounding is left out.
\<close>

section \<open>Values\<close>

text \<open>A number of a floating point type; finite ones in units of the least positive number of the type. Zeros are not told apart.\<close>

datatype fp = NotANumber | Infinite bool | Finite int

definition f32_value :: "32 word \<Rightarrow> fp" where
  "f32_value w =
     (let e = unat (take_bit 8 (drop_bit 23 w)); f = unat (take_bit 23 w); s = bit w 31
      in if e = 255 then (if f = 0 then Infinite s else NotANumber)
         else Finite ((if s then - 1 else 1) * int (if e = 0 then f else (2 ^ 23 + f) * 2 ^ (e - 1))))"

text \<open>Rounding to 24 significant bits, ties to even.\<close>

definition round24 :: "nat \<Rightarrow> nat" where
  "round24 n = (if bit_len n \<le> 24 then n else let e = bit_len n - 24 in rne_div n (2 ^ e) * 2 ^ e)"

definition f32_round :: "int \<Rightarrow> fp" where
  "f32_round d = (let m = round24 (nat \<bar>d\<bar>) in if 2 ^ 277 \<le> m then Infinite (d < 0) else Finite (sgn d * int m))"

fun f32_minus :: "fp \<Rightarrow> fp \<Rightarrow> fp" where
  "f32_minus (Finite a) (Finite b) = f32_round (a - b)"
| "f32_minus (Finite a) (Infinite s) = Infinite (\<not> s)"
| "f32_minus (Infinite s) (Finite b) = Infinite s"
| "f32_minus (Infinite s) (Infinite t) = (if s = t then NotANumber else Infinite s)"
| "f32_minus NotANumber y = NotANumber"
| "f32_minus x NotANumber = NotANumber"

text \<open>
  The bits of \<open>(float) key\<close>: the leading 24 bits of the key and its exponent. A carry out of the
  mantissa moves into the exponent.
\<close>

definition f32_of_u64 :: "u64 \<Rightarrow> 32 word" where
  "f32_of_u64 key =
     (let n = unat key; l = bit_len n
      in if n = 0 then 0
         else of_nat ((l + 125) * 2 ^ 23 + (if l \<le> 24 then n * 2 ^ (24 - l) else rne_div n (2 ^ (l - 24)))))"

text \<open>The double \<open>1e-6\<close> is \<open>4722366482869645 * 2 ^ -72\<close>.\<close>

definition tolerance :: int where
  "tolerance = 4722366482869645 * 2 ^ 77"

fun abs_less_tolerance :: "fp \<Rightarrow> bool" where
  "abs_less_tolerance (Finite d) = (\<bar>d\<bar> < tolerance)"
| "abs_less_tolerance _ = False"

fun abs_above_tolerance :: "fp \<Rightarrow> bool" where
  "abs_above_tolerance (Finite d) = (tolerance < \<bar>d\<bar>)"
| "abs_above_tolerance (Infinite s) = True"
| "abs_above_tolerance NotANumber = False"

section \<open>Comparing an embedding with a number\<close>

text \<open>The difference \<open>emb[i] - value\<close>: the number is converted to \<open>float\<close> first.\<close>

definition emb_diff :: "32 word \<Rightarrow> u64 \<Rightarrow> fp" where
  "emb_diff w n = f32_minus (f32_value w) (f32_value (f32_of_u64 n))"

text \<open>With \<open>assert\<close> compiled out the process ends by \<open>std::exit\<close>.\<close>

fun AssertTensorEq :: "32 word list \<Rightarrow> u64 \<Rightarrow> string \<Rightarrow> unit run" where
  "AssertTensorEq [] n debug_str = Returns ()"
| "AssertTensorEq (w # ws) n debug_str =
     (if abs_above_tolerance (emb_diff w n) then Aborts (LogFatal debug_str) else AssertTensorEq ws n debug_str)"

section \<open>Facts\<close>

lemma round24_0 [simp]: "round24 0 = 0" by (simp add: round24_def)

lemma f32_round_0 [simp]: "f32_round 0 = Finite 0" by (simp add: f32_round_def)

lemma mantissa_range:
  assumes "0 < n"
  shows "2 ^ 23 \<le> (if bit_len n \<le> 24 then n * 2 ^ (24 - bit_len n) else rne_div n (2 ^ (bit_len n - 24)))"
    and "(if bit_len n \<le> 24 then n * 2 ^ (24 - bit_len n) else rne_div n (2 ^ (bit_len n - 24))) \<le> 2 ^ 24"
proof -
  let ?l = "bit_len n"
  have b: "2 ^ (?l - 1) \<le> n" "n < 2 ^ ?l" "0 < ?l" using bit_len_bounds [OF assms] by auto
  have "2 ^ 23 \<le> n * 2 ^ (24 - ?l) \<and> n * 2 ^ (24 - ?l) \<le> 2 ^ 24" if "?l \<le> 24"
  proof
    have "(2 :: nat) ^ 23 = 2 ^ (?l - 1) * 2 ^ (24 - ?l)" using that b(3) by (simp flip: power_add)
    then show "2 ^ 23 \<le> n * 2 ^ (24 - ?l)" using mult_le_mono1 [OF b(1), of "2 ^ (24 - ?l)"] by simp
    have "(2 :: nat) ^ 24 = 2 ^ ?l * 2 ^ (24 - ?l)" using that by (simp flip: power_add)
    then show "n * 2 ^ (24 - ?l) \<le> 2 ^ 24" using mult_le_mono1 [OF less_imp_le [OF b(2)], of "2 ^ (24 - ?l)"] by simp
  qed
  moreover have "2 ^ 23 \<le> rne_div n (2 ^ (?l - 24)) \<and> rne_div n (2 ^ (?l - 24)) \<le> 2 ^ 24" if "24 < ?l"
  proof -
    let ?d = "2 ^ (?l - 24) :: nat"
    have "?l - 1 = 23 + (?l - 24)" "?l = 24 + (?l - 24)" using that by simp_all
    then have "(2 :: nat) ^ (?l - 1) = 2 ^ 23 * ?d" "(2 :: nat) ^ ?l = 2 ^ 24 * ?d" by (metis power_add)+
    with b have "2 ^ 23 * ?d \<le> n" "n < 2 ^ 24 * ?d" by simp_all
    then have "2 ^ 23 \<le> n div ?d" "n div ?d < 2 ^ 24" by (simp_all add: less_eq_div_iff_mult_less_eq div_less_iff_less_mult)
    then show ?thesis by (simp add: rne_div_def Let_def)
  qed
  ultimately show "2 ^ 23 \<le> (if ?l \<le> 24 then n * 2 ^ (24 - ?l) else rne_div n (2 ^ (?l - 24)))"
    "(if ?l \<le> 24 then n * 2 ^ (24 - ?l) else rne_div n (2 ^ (?l - 24))) \<le> 2 ^ 24" by auto
qed

text \<open>The bits of the conversion decode to the key rounded to 24 bits.\<close>

lemma f32_value_of_nat:
  assumes "1 \<le> e" "e < 254" "m < 2 ^ 23"
  shows "f32_value (of_nat (e * 2 ^ 23 + m)) = Finite (int ((2 ^ 23 + m) * 2 ^ (e - 1)))"
proof -
  define w where "w = (of_nat (e * 2 ^ 23 + m) :: 32 word)"
  have s: "e * 2 ^ 23 + m < 2 ^ 31" using assms by simp
  then have u: "unat w = e * 2 ^ 23 + m" by (simp add: w_def unsigned_of_nat take_bit_nat_eq_self del: of_nat_add of_nat_mult)
  have "unat (drop_bit 23 w) = drop_bit 23 (unat w)" using s u by (simp add: unsigned_drop_bit_eq take_bit_nat_eq_self)
  then have "unat (drop_bit 23 w) = e" using assms(3) by (simp add: u drop_bit_eq_div)
  then have e: "unat (take_bit 8 (drop_bit 23 w)) = e" using assms(2) by (simp add: unsigned_take_bit_eq take_bit_nat_eq_self)
  have "unat (take_bit 23 w) = take_bit 23 (unat w)" by (simp only: unsigned_take_bit_eq)
  then have m: "unat (take_bit 23 w) = m" using assms(3) by (simp add: u take_bit_eq_mod)
  have "\<not> bit (e * 2 ^ 23 + m) 31" using s by (simp add: bit_iff_odd)
  moreover have "bit (unat w) 31 = bit w 31" by (simp add: bit_unsigned_iff)
  ultimately have "\<not> bit w 31" using u by simp
  then show ?thesis using e m assms unfolding w_def [symmetric] by (simp add: f32_value_def Let_def)
qed

lemma f32_value_of_u64: "f32_value (f32_of_u64 key) = Finite (int (round24 (unat key) * 2 ^ 149))"
proof (cases "unat key = 0")
  case False
  let ?n = "unat key" and ?l = "bit_len (unat key)"
  define M where "M = (if ?l \<le> 24 then ?n * 2 ^ (24 - ?l) else rne_div ?n (2 ^ (?l - 24)))"
  have b: "2 ^ (?l - 1) \<le> ?n" "0 < ?l" using bit_len_bounds [of ?n] False by auto
  have "?l - 1 < 64"
  proof (rule ccontr)
    assume "\<not> ?l - 1 < 64"
    then have "(2 :: nat) ^ 64 \<le> 2 ^ (?l - 1)" by (intro power_increasing) simp_all
    moreover have "unat key < 2 ^ 64" using unsigned_less [of key, where ?'a = nat] by simp
    ultimately show False using b(1) by linarith
  qed
  then have l: "?l \<le> 64" by simp
  have M: "2 ^ 23 \<le> M" "M \<le> 2 ^ 24" using mantissa_range [of ?n] False unfolding M_def by simp_all
  have r: "round24 ?n * 2 ^ 149 = M * 2 ^ (?l + 125)"
  proof (cases "?l \<le> 24")
    case True
    then have "24 - ?l + (?l + 125) = 149" by simp
    then show ?thesis using True by (simp add: round24_def M_def mult.assoc flip: power_add)
  next
    case False
    then have "?l + 125 = ?l - 24 + 149" by simp
    then have "(2 :: nat) ^ (?l + 125) = 2 ^ (?l - 24) * 2 ^ 149" by (metis power_add)
    then show ?thesis using False by (simp only: round24_def M_def Let_def mult.assoc if_False)
  qed
  have w: "f32_of_u64 key = of_nat ((?l + 125) * 2 ^ 23 + M)" using False by (simp add: f32_of_u64_def M_def Let_def)
  show ?thesis
  proof (cases "M = 2 ^ 24")
    case True
    have e: "(?l + 125) * 2 ^ 23 + M = (?l + 127) * 2 ^ 23 + 0" using True by simp
    have "(2 ^ 23 + 0) * 2 ^ (?l + 127 - 1) = M * 2 ^ (?l + 125)" using True by (simp add: power_add)
    then show ?thesis unfolding w e r using f32_value_of_nat [of "?l + 127" 0] l by simp
  next
    case False
    have e: "(?l + 125) * 2 ^ 23 + M = (?l + 126) * 2 ^ 23 + (M - 2 ^ 23)" using M(1) by simp
    have "(2 ^ 23 + (M - 2 ^ 23)) * 2 ^ (?l + 126 - 1) = M * 2 ^ (?l + 125)" using M(1) by simp
    moreover have "M - 2 ^ 23 < 2 ^ 23" using M(2) False by simp
    ultimately show ?thesis unfolding w e r using f32_value_of_nat [of "?l + 126" "M - 2 ^ 23"] l by (simp del: of_nat_mult of_nat_add)
  qed
qed (simp add: f32_of_u64_def f32_value_def round24_def)

lemma emb_diff_self [simp]: "emb_diff (f32_of_u64 key) key = Finite 0"
  by (simp add: emb_diff_def f32_value_of_u64)

lemma AssertTensorEq_self: "set ws \<subseteq> {f32_of_u64 n} \<Longrightarrow> AssertTensorEq ws n s = Returns ()"
  by (induction ws) (auto simp: tolerance_def)

text \<open>Below \<open>2 ^ 24\<close> the conversion is exact; above, different keys have the same embedding.\<close>

lemma round24_exact:
  assumes "n < 2 ^ 24" shows "round24 n = n"
proof (cases "n = 0")
  case False
  then have "2 ^ (bit_len n - 1) \<le> n" using bit_len_bounds [of n] by simp
  then have "(2 :: nat) ^ (bit_len n - 1) < 2 ^ 24" using assms by linarith
  then have "bit_len n - 1 < 24" by (subst (asm) power_strict_increasing_iff) simp_all
  then have "bit_len n \<le> 24" by linarith
  then show ?thesis by (simp add: round24_def)
qed simp

lemma f32_collision: "f32_of_u64 16777217 = f32_of_u64 16777216"
  by (simp add: f32_of_u64_def bit_len.simps rne_div_def)

end
