(* ===== verification/Base_Timer.thy ===== *)
theory Base_Timer
  imports Base_Float "HOL-Library.AList" "HOL-Library.Signed_Division"
begin

text \<open>
  Counters, timers and reports (\<open>src/src/base/timer.h\<close>). A \<open>double\<close> is a value of type \<open>fp\<close> in units of
  \<open>2 ^ -1074\<close>, and its operations round to 53 bits. Times are nanoseconds of the steady clock. Assertions
  are compiled out, as in a release build; locks are left out. \<open>XMH_PERF\<close> is defined. \<open>Histogram::ToString\<close> calls
  \<open>Percentile\<close>, which has no definition, and is left out with what only it uses.
\<close>

section \<open>Doubles\<close>

text \<open>The ratio \<open>n / d\<close> rounded to 53 significant bits, but not finer than the unit.\<close>

definition round53 :: "nat \<Rightarrow> nat \<Rightarrow> nat" where
  "round53 n d = (let l = bit_len (n div d) in
     if l \<le> 53 then rne_div n d else let e = l - 53 in rne_div n (d * 2 ^ e) * 2 ^ e)"

definition f64_round :: "int \<Rightarrow> nat \<Rightarrow> fp" where
  "f64_round n d = (let m = round53 (nat \<bar>n\<bar>) d in if 2 ^ 2098 \<le> m then Infinite (n < 0) else Finite (sgn n * int m))"

definition f64_of_int :: "int \<Rightarrow> fp" where
  "f64_of_int n = f64_round (n * 2 ^ 1074) 1"

fun f64_add :: "fp \<Rightarrow> fp \<Rightarrow> fp" where
  "f64_add (Finite a) (Finite b) = f64_round (a + b) 1"
| "f64_add (Infinite s) (Finite b) = Infinite s"
| "f64_add (Finite a) (Infinite s) = Infinite s"
| "f64_add (Infinite s) (Infinite t) = (if s = t then Infinite s else NotANumber)"
| "f64_add NotANumber y = NotANumber"
| "f64_add x NotANumber = NotANumber"

fun f64_mult :: "fp \<Rightarrow> fp \<Rightarrow> fp" where
  "f64_mult (Finite a) (Finite b) = f64_round (a * b) (2 ^ 1074)"
| "f64_mult (Infinite s) (Finite b) = (if b = 0 then NotANumber else Infinite (s \<noteq> (b < 0)))"
| "f64_mult (Finite a) (Infinite s) = (if a = 0 then NotANumber else Infinite (s \<noteq> (a < 0)))"
| "f64_mult (Infinite s) (Infinite t) = Infinite (s \<noteq> t)"
| "f64_mult NotANumber y = NotANumber"
| "f64_mult x NotANumber = NotANumber"

fun f64_div :: "fp \<Rightarrow> fp \<Rightarrow> fp" where
  "f64_div (Finite a) (Finite b) =
     (if b = 0 then (if a = 0 then NotANumber else Infinite (a < 0)) else f64_round (sgn b * a * 2 ^ 1074) (nat \<bar>b\<bar>))"
| "f64_div (Infinite s) (Finite b) = Infinite (s \<noteq> (b < 0))"
| "f64_div (Finite a) (Infinite s) = Finite 0"
| "f64_div (Infinite s) (Infinite t) = NotANumber"
| "f64_div NotANumber y = NotANumber"
| "f64_div x NotANumber = NotANumber"

text \<open>The order of numbers, and the comparisons \<open><\<close> and \<open><=\<close>, which are false for \<open>NaN\<close>.\<close>

fun f64_key :: "fp \<Rightarrow> int" where
  "f64_key (Finite a) = a"
| "f64_key (Infinite s) = (if s then - (2 ^ 2098) else 2 ^ 2098)"
| "f64_key NotANumber = 0"

definition f64_less :: "fp \<Rightarrow> fp \<Rightarrow> bool" where
  "f64_less x y = (x \<noteq> NotANumber \<and> y \<noteq> NotANumber \<and> f64_key x < f64_key y)"

definition f64_le :: "fp \<Rightarrow> fp \<Rightarrow> bool" where
  "f64_le x y = (x \<noteq> NotANumber \<and> y \<noteq> NotANumber \<and> f64_key x \<le> f64_key y)"

text \<open>Conversion to \<open>int\<close> by truncation; undefined out of range.\<close>

fun f64_to_int :: "fp \<Rightarrow> int run" where
  "f64_to_int (Finite a) =
     (let n = sgn a * (\<bar>a\<bar> div 2 ^ 1074) in if - (2 ^ 31) \<le> n \<and> n < 2 ^ 31 then Returns n else Aborts (Undefined ''double to int''))"
| "f64_to_int _ = Aborts (Undefined ''double to int'')"

text \<open>\<open>std::fixed\<close> with a precision.\<close>

fun double2StringWithPrecision :: "fp \<Rightarrow> nat \<Rightarrow> string" where
  "double2StringWithPrecision (Finite a) p =
     (let n = rne_div (nat \<bar>a\<bar> * 10 ^ p) (2 ^ 1074); f = nat_digits (n mod 10 ^ p)
      in (if a < 0 then ''-'' else []) @ nat_digits (n div 10 ^ p) @ ''.'' @ replicate (p - length f) CHR ''0'' @ f)"
| "double2StringWithPrecision (Infinite s) p = (if s then ''-inf'' else ''inf'')"
| "double2StringWithPrecision NotANumber p = ''nan''"

text \<open>\<open>std::to_string(double)\<close> has six decimals.\<close>

definition to_string :: "fp \<Rightarrow> string" where
  "to_string x = double2StringWithPrecision x 6"

section \<open>Rounding up\<close>

definition round_up_to :: "int \<Rightarrow> int \<Rightarrow> int run" where
  "round_up_to num factor =
     (let s = num + factor - 1; fits = (\<lambda>x :: int. - (2 ^ 31) \<le> x \<and> x < 2 ^ 31)
      in if factor = 0 \<or> \<not> fits (num + factor) \<or> \<not> fits s \<or> (s = - (2 ^ 31) \<and> factor = - 1) \<or> \<not> fits (s - s smod factor)
         then Aborts (Undefined ''int arithmetic'') else Returns (s - s smod factor))"

section \<open>Tables\<close>

definition DrawLine :: "nat list \<Rightarrow> nat \<Rightarrow> string" where
  "DrawLine widths columns = concat (map (\<lambda>i. ''+-'' @ replicate (widths ! i + 1) CHR ''-'') [0..<columns]) @ ''+'' @ [CHR 0x0A]"

text \<open>A cell: the text padded on the right.\<close>

definition draw_cell :: "nat \<Rightarrow> string \<Rightarrow> string" where
  "draw_cell w s = ''| '' @ s @ replicate (w - length s) CHR '' '' @ '' ''"

definition draw_row :: "nat list \<Rightarrow> string list \<Rightarrow> nat \<Rightarrow> string" where
  "draw_row widths cells n = concat (map (\<lambda>j. draw_cell (widths ! j) (cells ! j)) [0..<n]) @ ''|'' @ [CHR 0x0A]"

definition DrawTB :: "nat list \<Rightarrow> string list \<Rightarrow> string list list \<Rightarrow> string run" where
  "DrawTB widths header str =
     (if str = [] then Aborts (Undefined ''str[0]'')
      else let columns = length (str ! 0) in
        if length widths < columns \<or> length widths < length header \<or> (\<exists>row \<in> set str. length row < columns)
        then Aborts (Undefined ''column out of range'')
        else Returns (DrawLine widths columns @ draw_row widths header (length header) @ DrawLine widths columns @
          concat (map (\<lambda>row. draw_row widths row columns) str) @ DrawLine widths columns))"

section \<open>Counters\<close>

definition kCounterLen :: nat where
  "kCounterLen = 1000"

definition kShards :: nat where
  "kShards = 32"

record PerThreadCounter =
  pc_durations :: "fp list"
  pc_isOverflow :: bool
  pc_index :: nat

definition PerThreadCounter_Record :: "fp \<Rightarrow> PerThreadCounter \<Rightarrow> PerThreadCounter run" where
  "PerThreadCounter_Record ns c =
     (if length (pc_durations c) \<le> pc_index c then Aborts (Undefined ''durations_ out of range'')
      else let c = c\<lparr>pc_durations := (pc_durations c)[pc_index c := ns]\<rparr> in
        Returns (if pc_index c = kCounterLen - 1 then c\<lparr>pc_isOverflow := True, pc_index := 0\<rparr> else c\<lparr>pc_index := pc_index c + 1\<rparr>))"

type_synonym Counters = "PerThreadCounter list"

definition Counters_new :: Counters where
  "Counters_new = replicate kShards \<lparr>pc_durations = replicate kCounterLen (Finite 0), pc_isOverflow = False, pc_index = 0\<rparr>"

text \<open>The shard of a thread; \<open>hash\<close> is the value of \<open>std::hash\<close> for its identifier.\<close>

definition threadIDHash :: "u64 \<Rightarrow> nat" where
  "threadIDHash hash = unat hash mod kShards"

definition Counters_Record :: "u64 \<Rightarrow> fp \<Rightarrow> Counters \<Rightarrow> Counters run" where
  "Counters_Record hash ns cs =
     (let i = threadIDHash hash
      in run_bind (PerThreadCounter_Record ns (cs ! i)) (\<lambda>c. Returns (cs[i := c])))"

text \<open>The values that the statistics read: after an overflow the last element of the array is not among them.\<close>

definition ring_values :: "PerThreadCounter \<Rightarrow> fp list" where
  "ring_values c = take (if pc_isOverflow c then kCounterLen - 1 else pc_index c) (pc_durations c)"

fun mean_loop :: "fp list \<Rightarrow> fp \<Rightarrow> nat \<Rightarrow> fp \<times> nat" where
  "mean_loop [] mean count = (mean, count)"
| "mean_loop (d # ds) mean count =
     mean_loop ds (f64_div (f64_add (f64_mult mean (f64_of_int (int count))) d) (f64_of_int (int count + 1))) (count + 1)"

fun mean_shards :: "Counters \<Rightarrow> fp \<times> nat \<Rightarrow> fp \<times> nat" where
  "mean_shards [] (mean, count) = (mean, count)"
| "mean_shards (c # cs) (mean, count) = mean_shards cs (mean_loop (ring_values c) mean count)"

definition Counters_mean :: "Counters \<Rightarrow> fp" where
  "Counters_mean cs = fst (mean_shards cs (Finite 0, 0))"

fun Counters_now :: "Counters \<Rightarrow> fp" where
  "Counters_now [] = f64_of_int (- 1)"
| "Counters_now (c # cs) =
     (if pc_index c \<noteq> 0 then pc_durations c ! (pc_index c - 1)
      else if pc_isOverflow c then pc_durations c ! (kCounterLen - 1)
      else Counters_now cs)"

text \<open>\<open>std::nth_element\<close> puts at a position what sorting would put there; \<open>NaN\<close> breaks its order.\<close>

definition Counters_p :: "int \<Rightarrow> Counters \<Rightarrow> fp run" where
  "Counters_p quant cs =
     (let all_durations = concat (map ring_values cs);
          it = (of_nat (length all_durations) * of_int quant + 50) div 100 - 1 :: u64
      in if length all_durations \<le> unat it \<or> NotANumber \<in> set all_durations then Aborts (Undefined ''nth_element'')
         else Returns (sort_key f64_key all_durations ! unat it))"

section \<open>Named counters\<close>

text \<open>The map and the list of names that \<open>PerfCounter\<close> and \<open>Timer\<close> keep, each its own.\<close>

record registry =
  reg_map :: "(string \<times> Counters) list"
  reg_keys :: "string list"

definition registry_Init :: registry where
  "registry_Init = \<lparr>reg_map = [], reg_keys = []\<rparr>"

text \<open>The entry of a name, created if there is none.\<close>

definition registry_entry :: "string \<Rightarrow> registry \<Rightarrow> registry" where
  "registry_entry name reg =
     (case map_of (reg_map reg) name of
        Some cs \<Rightarrow> reg
      | None \<Rightarrow> reg\<lparr>reg_map := AList.update name Counters_new (reg_map reg), reg_keys := reg_keys reg @ [name]\<rparr>)"

definition PerfCounter_Record :: "u64 \<Rightarrow> string \<Rightarrow> fp \<Rightarrow> registry \<Rightarrow> registry run" where
  "PerfCounter_Record hash name count reg =
     (let reg = registry_entry name reg in
      case map_of (reg_map reg) name of
        None \<Rightarrow> Aborts (NullDeref ''map entry'')
      | Some cs \<Rightarrow> run_bind (Counters_Record hash count cs) (\<lambda>cs. Returns (reg\<lparr>reg_map := AList.update name cs (reg_map reg)\<rparr>)))"

fun report_rows :: "(string \<Rightarrow> Counters \<Rightarrow> string list run) \<Rightarrow> registry \<Rightarrow> string list \<Rightarrow> string list list run" where
  "report_rows row reg [] = Returns []"
| "report_rows row reg (key # keys) =
     (case map_of (reg_map reg) key of
        None \<Rightarrow> Aborts (NullDeref ''map entry'')
      | Some cs \<Rightarrow> run_bind (row key cs) (\<lambda>r. run_bind (report_rows row reg keys) (\<lambda>rs. Returns (r # rs))))"

definition PerfCounter_row :: "string \<Rightarrow> Counters \<Rightarrow> string list run" where
  "PerfCounter_row key cs = run_bind (Counters_p 99 cs) (\<lambda>p.
     Returns [key, to_string (Counters_mean cs), to_string p, to_string (Counters_now cs)])"

definition PerfCounter_Report :: "registry \<Rightarrow> string run" where
  "PerfCounter_Report reg =
     (if reg_map reg = [] then Returns []
      else run_bind (report_rows PerfCounter_row reg (reg_keys reg)) (\<lambda>vec.
        DrawTB [25, 25, 25, 25] [''Name'', ''Mean'', ''P99'', ''now''] vec))"

section \<open>Timers\<close>

record Timer =
  tm_isEnd :: bool
  tm_timerName :: string
  tm_start :: int
  tm_end :: int
  tm_cum_count :: fp
  tm_sampled_count :: int
  tm_sample_rate :: int

definition beautifyNs :: "fp \<Rightarrow> string run" where
  "beautifyNs ns =
     (let k = f64_of_int 1000; us = f64_div ns k; ms = f64_div us k; s = f64_div ms k in
      run_bind (f64_to_int us) (\<lambda>i.
      if i = 0 then Returns (double2StringWithPrecision ns 3 @ '' ns'')
      else run_bind (f64_to_int ms) (\<lambda>i.
      if i = 0 then Returns (double2StringWithPrecision us 3 @ '' us'')
      else run_bind (f64_to_int s) (\<lambda>i.
      if i = 0 then Returns (double2StringWithPrecision ms 3 @ '' ms'')
      else Returns (double2StringWithPrecision s 3 @ '' s'')))))"

definition Timer_start :: "int \<Rightarrow> Timer \<Rightarrow> Timer run" where
  "Timer_start now t =
     (if tm_sample_rate t = 0 then Aborts (Undefined ''division by zero'')
      else let t = (if tm_sampled_count t smod tm_sample_rate t = 0 then t\<lparr>tm_isEnd := False, tm_start := now\<rparr> else t) in
        if tm_sampled_count t = 2 ^ 31 - 1 then Aborts (Undefined ''signed overflow'')
        else Returns (t\<lparr>tm_sampled_count := tm_sampled_count t + 1\<rparr>))"

definition Timer_new :: "string \<Rightarrow> int \<Rightarrow> int \<Rightarrow> Timer run" where
  "Timer_new timerName sample_rate now =
     Timer_start now \<lparr>tm_isEnd = False, tm_timerName = timerName, tm_start = 0, tm_end = 0, tm_cum_count = Finite 0,
       tm_sampled_count = 0, tm_sample_rate = sample_rate\<rparr>"

definition nsSinceStart :: "int \<Rightarrow> Timer \<Rightarrow> fp" where
  "nsSinceStart now t = f64_of_int (now - tm_start t)"

definition CumStart :: "int \<Rightarrow> Timer \<Rightarrow> Timer" where
  "CumStart now t = t\<lparr>tm_start := now\<rparr>"

definition CumEnd :: "int \<Rightarrow> Timer \<Rightarrow> Timer" where
  "CumEnd now t = t\<lparr>tm_end := now, tm_cum_count := f64_add (tm_cum_count t) (f64_of_int (now - tm_start t))\<rparr>"

definition CumReport :: "u64 \<Rightarrow> Timer \<Rightarrow> registry \<Rightarrow> (Timer \<times> registry) run" where
  "CumReport hash t reg =
     run_bind (PerfCounter_Record hash (tm_timerName t) (tm_cum_count t) reg) (\<lambda>reg.
       Returns (t\<lparr>tm_isEnd := True, tm_cum_count := Finite 0\<rparr>, reg))"

definition Timer_destroy :: "Timer \<Rightarrow> Timer" where
  "Timer_destroy t = t\<lparr>tm_isEnd := True\<rparr>"

definition Timer_end :: "u64 \<Rightarrow> int \<Rightarrow> Timer \<Rightarrow> registry \<Rightarrow> (Timer \<times> registry) run" where
  "Timer_end hash now t reg =
     (if tm_isEnd t then Returns (t, reg)
      else run_bind (PerfCounter_Record hash (tm_timerName t) (f64_of_int (now - tm_start t)) reg) (\<lambda>reg.
        Returns (t\<lparr>tm_isEnd := True, tm_end := now\<rparr>, reg)))"

definition Timer_row :: "string \<Rightarrow> Counters \<Rightarrow> string list run" where
  "Timer_row key cs =
     run_bind (beautifyNs (Counters_mean cs)) (\<lambda>m. run_bind (Counters_p 99 cs) (\<lambda>p. run_bind (beautifyNs p) (\<lambda>q. Returns [key, m, q])))"

definition Timer_Report :: "registry \<Rightarrow> string run" where
  "Timer_Report reg =
     (if reg_map reg = [] then Returns []
      else run_bind (report_rows Timer_row reg (reg_keys reg)) (\<lambda>vec. DrawTB [25, 25, 25] [''Name'', ''Mean'', ''P99''] vec))"

section \<open>The reporter\<close>

text \<open>Whether the report thread exists, and its flag.\<close>

record Reporter =
  rp_thread :: bool
  rp_flag :: bool

definition StartReportThread :: "Reporter \<Rightarrow> Reporter" where
  "StartReportThread r = (if \<not> rp_thread r then r\<lparr>rp_thread := True\<rparr> else r)"

definition StopReportThread :: "Reporter \<Rightarrow> Reporter" where
  "StopReportThread r = (if rp_thread r then r\<lparr>rp_flag := False, rp_thread := False\<rparr> else r)"

definition Init4GoogleTest :: "Reporter \<times> registry \<times> registry \<Rightarrow> Reporter \<times> registry \<times> registry" where
  "Init4GoogleTest = (\<lambda>(r, timers, counters). ((StopReportThread r)\<lparr>rp_flag := True\<rparr>, registry_Init, registry_Init))"

text \<open>What a report prints; \<open>dt\<close> is the date as a string.\<close>

definition Reporter_Report :: "string \<Rightarrow> registry \<Rightarrow> registry \<Rightarrow> string option run" where
  "Reporter_Report dt timers counters =
     run_bind (Timer_Report timers) (\<lambda>t. run_bind (PerfCounter_Report counters) (\<lambda>c.
       Returns (if t @ c = [] then None else Some (dt @ [CHR 0x0A] @ t @ c @ [CHR 0x0A]))))"

text \<open>The report thread: the list has what it reads of the flag before each report.\<close>

fun ReportThread :: "bool list \<Rightarrow> nat" where
  "ReportThread [] = 0"
| "ReportThread (flag # flags) = (if flag then 1 + ReportThread flags else 0)"

section \<open>Histograms\<close>

record Histogram =
  hg_min :: fp
  hg_max :: fp
  hg_num :: fp
  hg_sum :: fp
  hg_sum_squares :: fp
  hg_buckets :: "fp list"

definition kNumBuckets :: nat where
  "kNumBuckets = 154"

text \<open>The limits; the last one, \<open>1e200\<close>, is \<open>5883593420661338 * 2 ^ 612\<close>.\<close>

definition bucket_limits :: "nat list" where
  "bucket_limits = [
     1, 2, 3, 4, 5, 6, 7, 8, 9, 10, 12, 14, 16, 18, 20, 25, 30, 35, 40, 45, 50, 60, 70, 80, 90, 100, 120, 140, 160,
     180, 200, 250, 300, 350, 400, 450, 500, 600, 700, 800, 900, 1000, 1200, 1400, 1600, 1800, 2000, 2500, 3000,
     3500, 4000, 4500, 5000, 6000, 7000, 8000, 9000, 10000, 12000, 14000, 16000, 18000, 20000, 25000, 30000, 35000,
     40000, 45000, 50000, 60000, 70000, 80000, 90000, 100000, 120000, 140000, 160000, 180000, 200000, 250000, 300000,
     350000, 400000, 450000, 500000, 600000, 700000, 800000, 900000, 1000000, 1200000, 1400000, 1600000, 1800000,
     2000000, 2500000, 3000000, 3500000, 4000000, 4500000, 5000000, 6000000, 7000000, 8000000, 9000000, 10000000,
     12000000, 14000000, 16000000, 18000000, 20000000, 25000000, 30000000, 35000000, 40000000, 45000000, 50000000,
     60000000, 70000000, 80000000, 90000000, 100000000, 120000000, 140000000, 160000000, 180000000, 200000000,
     250000000, 300000000, 350000000, 400000000, 450000000, 500000000, 600000000, 700000000, 800000000, 900000000,
     1000000000, 1200000000, 1400000000, 1600000000, 1800000000, 2000000000, 2500000000, 3000000000, 3500000000,
     4000000000, 4500000000, 5000000000, 6000000000, 7000000000, 8000000000, 9000000000]"

definition kBucketLimit :: "nat \<Rightarrow> fp" where
  "kBucketLimit i = (if i < kNumBuckets - 1 then f64_of_int (int (bucket_limits ! i)) else Finite (5883593420661338 * 2 ^ 612 * 2 ^ 1074))"

definition Histogram_Clear :: "Histogram \<Rightarrow> Histogram" where
  "Histogram_Clear h = \<lparr>hg_min = kBucketLimit (kNumBuckets - 1), hg_max = Finite 0, hg_num = Finite 0, hg_sum = Finite 0,
     hg_sum_squares = Finite 0, hg_buckets = replicate kNumBuckets (Finite 0)\<rparr>"

text \<open>The search for the bucket; \<open>n\<close> is the number of buckets left.\<close>

fun bucket_loop :: "fp \<Rightarrow> nat \<Rightarrow> nat \<Rightarrow> nat" where
  "bucket_loop x b 0 = b"
| "bucket_loop x b (Suc n) = (if f64_le (kBucketLimit b) x then bucket_loop x (b + 1) n else b)"

definition Histogram_Add :: "fp \<Rightarrow> Histogram \<Rightarrow> Histogram" where
  "Histogram_Add x h =
     (let b = bucket_loop x 0 (kNumBuckets - 1) in
      \<lparr>hg_min = (if f64_less x (hg_min h) then x else hg_min h),
       hg_max = (if f64_less (hg_max h) x then x else hg_max h),
       hg_num = f64_add (hg_num h) (f64_of_int 1),
       hg_sum = f64_add (hg_sum h) x,
       hg_sum_squares = f64_add (hg_sum_squares h) (f64_mult x x),
       hg_buckets = (hg_buckets h)[b := f64_add (hg_buckets h ! b) (f64_of_int 1)]\<rparr>)"

definition Histogram_Merge :: "Histogram \<Rightarrow> Histogram \<Rightarrow> Histogram" where
  "Histogram_Merge other h =
     \<lparr>hg_min = (if f64_less (hg_min other) (hg_min h) then hg_min other else hg_min h),
      hg_max = (if f64_less (hg_max h) (hg_max other) then hg_max other else hg_max h),
      hg_num = f64_add (hg_num h) (hg_num other),
      hg_sum = f64_add (hg_sum h) (hg_sum other),
      hg_sum_squares = f64_add (hg_sum_squares h) (hg_sum_squares other),
      hg_buckets = map (\<lambda>b. f64_add (hg_buckets h ! b) (hg_buckets other ! b)) [0..<kNumBuckets]\<rparr>"

definition Histogram_Average :: "Histogram \<Rightarrow> fp" where
  "Histogram_Average h = (if hg_num h = Finite 0 then Finite 0 else f64_div (hg_sum h) (hg_num h))"

section \<open>What a ring holds\<close>

text \<open>The ring after the values \<open>xs\<close> have been recorded: the last 1000 of them, each at its place.\<close>

definition ring_holds :: "fp list \<Rightarrow> PerThreadCounter \<Rightarrow> bool" where
  "ring_holds xs c \<longleftrightarrow> length (pc_durations c) = kCounterLen \<and> pc_index c = length xs mod kCounterLen \<and>
     pc_isOverflow c = (kCounterLen \<le> length xs) \<and>
     (\<forall>k < length xs. length xs \<le> k + kCounterLen \<longrightarrow> pc_durations c ! (k mod kCounterLen) = xs ! k)"

lemma kCounterLen_pos [simp]: "0 < kCounterLen" by (simp add: kCounterLen_def)

lemma ring_holds_new: "ring_holds [] \<lparr>pc_durations = replicate kCounterLen (Finite 0), pc_isOverflow = False, pc_index = 0\<rparr>"
  by (simp add: ring_holds_def kCounterLen_def)

lemma mod_apart:
  fixes k n m :: nat
  assumes "k < n" "n \<le> k + m" "k mod m = n mod m"
  shows "n = k + m"
proof -
  have "m dvd n - k" using assms(1,3) by (metis mod_eq_dvd_iff_nat less_imp_le)
  moreover have "0 < n - k" "n - k \<le> m" using assms by simp_all
  ultimately have "n - k = m" using dvd_imp_le [of m "n - k"] by linarith
  then show ?thesis using assms(1) by simp
qed

lemma ring_Record:
  assumes "ring_holds xs c"
  shows "\<exists>c'. PerThreadCounter_Record x c = Returns c' \<and> ring_holds (xs @ [x]) c'"
proof -
  let ?n = "length xs" and ?K = kCounterLen
  have c: "length (pc_durations c) = ?K" "pc_index c = ?n mod ?K" "pc_isOverflow c = (?K \<le> ?n)"
    "\<And>k. k < ?n \<Longrightarrow> ?n \<le> k + ?K \<Longrightarrow> pc_durations c ! (k mod ?K) = xs ! k" using assms by (auto simp: ring_holds_def)
  let ?c = "c\<lparr>pc_durations := (pc_durations c)[pc_index c := x]\<rparr>"
  let ?c' = "if pc_index c = ?K - 1 then ?c\<lparr>pc_isOverflow := True, pc_index := 0\<rparr> else ?c\<lparr>pc_index := pc_index c + 1\<rparr>"
  have "PerThreadCounter_Record x c = Returns ?c'"
    using c(1,2) by (auto simp: PerThreadCounter_Record_def Let_def not_le)
  moreover have "pc_index ?c' = Suc ?n mod ?K" using c(2) by (auto simp: mod_Suc)
  moreover have "pc_isOverflow ?c' = (?K \<le> Suc ?n)"
  proof (cases "?K \<le> ?n")
    case False
    then show ?thesis using c(2,3) by auto
  qed (use c(3) in simp)
  moreover have "pc_durations ?c' ! (k mod ?K) = (xs @ [x]) ! k" if "k < Suc ?n" "Suc ?n \<le> k + ?K" for k
  proof (cases "k = ?n")
    case True
    then show ?thesis using c(1,2) by simp
  next
    case False
    then have k: "k < ?n" "?n \<le> k + ?K" using that by simp_all
    then have "k mod ?K \<noteq> ?n mod ?K" using mod_apart [of k ?n ?K] that(2) by auto
    then show ?thesis using c(2,4) k by (auto simp: nth_append)
  qed
  ultimately show ?thesis using c(1) by (auto simp: ring_holds_def)
qed

lemma ring_values_recorded:
  assumes "ring_holds xs c"
  shows "set (ring_values c) \<subseteq> set xs" and "ring_values c = [] \<longleftrightarrow> xs = []" and "length (ring_values c) < kCounterLen"
    and "length xs < kCounterLen \<Longrightarrow> ring_values c = xs"
proof -
  let ?n = "length xs" and ?K = kCounterLen
  have c: "length (pc_durations c) = ?K" "pc_index c = ?n mod ?K" "pc_isOverflow c = (?K \<le> ?n)"
    "\<And>k. k < ?n \<Longrightarrow> ?n \<le> k + ?K \<Longrightarrow> pc_durations c ! (k mod ?K) = xs ! k" using assms by (auto simp: ring_holds_def)
  have l: "length (ring_values c) = (if ?K \<le> ?n then ?K - 1 else ?n)" using c(1-3) by (simp add: ring_values_def)
  show "length (ring_values c) < ?K" using l by (auto simp: kCounterLen_def)
  show "ring_values c = [] \<longleftrightarrow> xs = []" using l by (auto simp: kCounterLen_def simp flip: length_0_conv)
  have v: "ring_values c ! i \<in> set xs" if i: "i < length (ring_values c)" for i
  proof -
    have i': "i < ?K" "i < ?n" using i l by (auto split: if_splits)
    define k where "k = i + ?K * ((?n - 1 - i) div ?K)"
    have "?K * ((?n - 1 - i) div ?K) \<le> ?n - 1 - i" by simp
    then have "k < ?n" using i'(2) unfolding k_def by linarith
    moreover have "?n - 1 - i < ?K * ((?n - 1 - i) div ?K) + ?K" using dividend_less_times_div [of ?K "?n - 1 - i"] by (simp add: add.commute)
    then have "?n \<le> k + ?K" using i'(2) unfolding k_def by linarith
    moreover have "k mod ?K = i" using i'(1) by (simp add: k_def)
    ultimately have "pc_durations c ! i \<in> set xs" using c(4) [of k] by auto
    then show ?thesis using i by (simp add: ring_values_def)
  qed
  then show "set (ring_values c) \<subseteq> set xs" by (auto simp: in_set_conv_nth)
  show "ring_values c = xs" if "?n < ?K"
    using that l c(4) by (intro nth_equalityI) (auto simp: ring_values_def c(2,3))
qed

section \<open>What the registry holds\<close>

text \<open>A record of a value by a thread under a name, the values of a name in a shard, and the names by first use.\<close>

type_synonym timing = "u64 \<times> string \<times> fp"

definition recorded :: "timing list \<Rightarrow> string \<Rightarrow> nat \<Rightarrow> fp list" where
  "recorded evs name i = map (\<lambda>(h, n, x). x) (filter (\<lambda>(h, n, x). n = name \<and> threadIDHash h = i) evs)"

definition names_of :: "timing list \<Rightarrow> string list" where
  "names_of evs = rev (remdups (rev (map (\<lambda>(h, n, x). n) evs)))"

fun record_all :: "timing list \<Rightarrow> registry \<Rightarrow> registry run" where
  "record_all [] reg = Returns reg"
| "record_all ((h, name, x) # evs) reg = run_bind (PerfCounter_Record h name x reg) (record_all evs)"

definition counters_hold :: "timing list \<Rightarrow> string \<Rightarrow> Counters \<Rightarrow> bool" where
  "counters_hold evs name cs \<longleftrightarrow> length cs = kShards \<and> (\<forall>i < kShards. ring_holds (recorded evs name i) (cs ! i))"

definition registry_holds :: "timing list \<Rightarrow> registry \<Rightarrow> bool" where
  "registry_holds evs reg \<longleftrightarrow> reg_keys reg = names_of evs \<and> distinct (map fst (reg_map reg)) \<and> dom (map_of (reg_map reg)) = set (names_of evs) \<and>
     (\<forall>name cs. map_of (reg_map reg) name = Some cs \<longrightarrow> counters_hold evs name cs)"

lemma recorded_snoc: "recorded (evs @ [(h, n, x)]) name i = recorded evs name i @ (if n = name \<and> threadIDHash h = i then [x] else [])"
  by (simp add: recorded_def)

lemma names_of_snoc: "names_of (evs @ [(h, n, x)]) = names_of evs @ (if n \<in> set (names_of evs) then [] else [n])"
  by (auto simp: names_of_def)

lemma set_names_of: "set (names_of evs) = (\<lambda>(h, n, x). n) ` set evs" by (simp add: names_of_def)

lemma recorded_none: "name \<notin> set (names_of evs) \<Longrightarrow> recorded evs name i = []"
  by (force simp: recorded_def set_names_of filter_empty_conv)

lemma threadIDHash_less: "threadIDHash h < kShards" by (simp add: threadIDHash_def kShards_def)

lemma Counters_new_hold: "name \<notin> set (names_of evs) \<Longrightarrow> counters_hold evs name Counters_new"
  by (simp add: counters_hold_def Counters_new_def recorded_none ring_holds_new)

lemma Counters_Record_hold:
  assumes "counters_hold evs name cs"
  shows "\<exists>cs'. Counters_Record h x cs = Returns cs' \<and> counters_hold (evs @ [(h, name, x)]) name cs'"
proof -
  let ?i = "threadIDHash h"
  have c: "length cs = kShards" "\<And>i. i < kShards \<Longrightarrow> ring_holds (recorded evs name i) (cs ! i)" using assms by (auto simp: counters_hold_def)
  obtain c' where c': "PerThreadCounter_Record x (cs ! ?i) = Returns c'" "ring_holds (recorded evs name ?i @ [x]) c'"
    using ring_Record [OF c(2) [OF threadIDHash_less]] by blast
  have "ring_holds (recorded (evs @ [(h, name, x)]) name i) (cs[?i := c'] ! i)" if "i < kShards" for i
    using c c'(2) that by (cases "i = ?i") (auto simp: recorded_snoc)
  then show ?thesis using c'(1) c(1) by (auto simp: Counters_Record_def Let_def counters_hold_def)
qed

lemma PerfCounter_Record_holds:
  assumes "registry_holds evs reg"
  shows "\<exists>reg'. PerfCounter_Record h name x reg = Returns reg' \<and> registry_holds (evs @ [(h, name, x)]) reg'"
proof -
  let ?m = "map_of (reg_map reg)" and ?evs = "evs @ [(h, name, x)]"
  have r: "reg_keys reg = names_of evs" "distinct (map fst (reg_map reg))" "dom ?m = set (names_of evs)"
    "\<And>n cs. ?m n = Some cs \<Longrightarrow> counters_hold evs n cs" using assms by (auto simp: registry_holds_def)
  define cs where "cs = (case ?m name of None \<Rightarrow> Counters_new | Some cs \<Rightarrow> cs)"
  have "counters_hold evs name cs" using r(3,4) Counters_new_hold [of name evs] by (auto simp: cs_def domIff split: option.splits)
  then obtain cs' where cs': "Counters_Record h x cs = Returns cs'" "counters_hold ?evs name cs'" using Counters_Record_hold by blast
  define reg1 where "reg1 = registry_entry name reg"
  have e: "map_of (reg_map reg1) = ?m(name \<mapsto> cs)" "distinct (map fst (reg_map reg1))" "reg_keys reg1 = names_of ?evs"
    using r(1-3) by (auto simp: reg1_def registry_entry_def cs_def update_conv' distinct_update names_of_snoc domIff fun_upd_idem split: option.splits)
  let ?reg = "reg1\<lparr>reg_map := AList.update name cs' (reg_map reg1)\<rparr>"
  have "PerfCounter_Record h name x reg = Returns ?reg"
    using cs'(1) e(1) by (simp add: PerfCounter_Record_def reg1_def [symmetric] Let_def)
  moreover have "counters_hold ?evs n cs2" if "n \<noteq> name" "?m n = Some cs2" for n cs2
    using r(4) [OF that(2)] that(1) by (simp add: counters_hold_def recorded_snoc)
  ultimately show ?thesis
    using cs'(2) e r(3) by (auto simp: registry_holds_def update_conv' distinct_update names_of_snoc split: if_splits)
qed

lemma record_all_holds:
  "registry_holds evs0 reg \<Longrightarrow> \<exists>reg'. record_all evs reg = Returns reg' \<and> registry_holds (evs0 @ evs) reg'"
proof (induction evs arbitrary: evs0 reg)
  case (Cons e evs)
  obtain h n x where e: "e = (h, n, x)" by (cases e)
  obtain reg1 where r: "PerfCounter_Record h n x reg = Returns reg1" "registry_holds (evs0 @ [(h, n, x)]) reg1"
    using PerfCounter_Record_holds [OF Cons.prems] by blast
  then show ?case using Cons.IH [OF r(2)] e by simp
qed simp

section \<open>Reports\<close>

lemma percentile_index:
  assumes "0 < L" "L < 2 ^ 32"
  shows "unat ((of_nat L * of_int 99 + 50) div 100 - 1 :: u64) = (99 * L + 50) div 100 - 1" and "(99 * L + 50) div 100 - 1 < L"
proof -
  let ?q = "(99 * L + 50) div 100"
  have q: "1 \<le> ?q" "?q \<le> L" using assms(1) by linarith+
  then show "?q - 1 < L" by linarith
  have "(of_nat L * of_int 99 + 50 :: u64) = of_nat (99 * L + 50)" by simp
  moreover have "unat (of_nat (99 * L + 50) :: u64) = 99 * L + 50" using assms(2) by (intro unat_nat_u64) simp
  ultimately have u: "unat ((of_nat L * of_int 99 + 50 :: u64) div 100) = ?q" by (simp only: unat_div) simp
  have "of_nat (unat w) = w" for w :: u64 by simp
  then have "(of_nat L * of_int 99 + 50 :: u64) div 100 = of_nat ?q" by (metis u)
  then have "(of_nat L * of_int 99 + 50 :: u64) div 100 - 1 = of_nat (?q - 1)" using q(1) by (simp add: of_nat_diff)
  moreover have "unat (of_nat (?q - 1) :: u64) = ?q - 1" using q(2) assms(2) by (intro unat_nat_u64) simp
  ultimately show "unat ((of_nat L * of_int 99 + 50) div 100 - 1 :: u64) = ?q - 1" by (simp only:)
qed

text \<open>The percentile of a counter in use is one of its recorded values.\<close>

lemma Counters_p_Returns:
  assumes h: "counters_hold evs name cs" and n: "name \<in> set (names_of evs)" and nan: "\<forall>(h, n, x) \<in> set evs. x \<noteq> NotANumber"
  shows "\<exists>x. Counters_p 99 cs = Returns x \<and> (\<exists>h. (h, name, x) \<in> set evs)"
proof -
  let ?all = "concat (map ring_values cs)"
  have c: "length cs = kShards" "\<And>i. i < kShards \<Longrightarrow> ring_holds (recorded evs name i) (cs ! i)" using h by (auto simp: counters_hold_def)
  have sub: "\<exists>h. (h, name, x) \<in> set evs" if x: "x \<in> set ?all" for x
  proof -
    obtain c' where "c' \<in> set cs" "x \<in> set (ring_values c')" using x by auto
    then obtain i where "i < kShards" "x \<in> set (ring_values (cs ! i))" using c(1) by (metis in_set_conv_nth)
    then have "x \<in> set (recorded evs name i)" using ring_values_recorded(1) [OF c(2)] by blast
    then show ?thesis by (auto simp: recorded_def)
  qed
  obtain h x where hx: "(h, name, x) \<in> set evs" using n by (auto simp: set_names_of)
  then have "recorded evs name (threadIDHash h) \<noteq> []" by (force simp: recorded_def filter_empty_conv)
  then have "ring_values (cs ! threadIDHash h) \<noteq> []" using ring_values_recorded(2) [OF c(2) [OF threadIDHash_less]] by simp
  moreover have "cs ! threadIDHash h \<in> set cs" using c(1) threadIDHash_less by simp
  ultimately have pos: "0 < length ?all" by (metis concat_eq_Nil_conv image_eqI length_greater_0_conv set_map)
  have "\<forall>xs \<in> set (map ring_values cs). length xs \<le> kCounterLen"
    using ring_values_recorded(3) [OF c(2)] c(1) by (fastforce simp: in_set_conv_nth)
  from length_concat_le [OF this] have le: "length ?all < 2 ^ 32" using c(1) by (simp add: kShards_def kCounterLen_def)
  let ?i = "(99 * length ?all + 50) div 100 - 1"
  have nn: "NotANumber \<notin> set ?all" using sub nan by fastforce
  have "Counters_p 99 cs = Returns (sort_key f64_key ?all ! ?i)"
    using percentile_index [OF pos le] nn by (simp add: Counters_p_def Let_def)
  moreover have "sort_key f64_key ?all ! ?i \<in> set ?all"
    using percentile_index(2) [OF pos le] by (metis length_sort nth_mem set_sort)
  ultimately show ?thesis using sub by blast
qed

lemma report_rows_Returns:
  assumes "\<And>key. key \<in> set keys \<Longrightarrow> \<exists>cs r. map_of (reg_map reg) key = Some cs \<and> row key cs = Returns (key # r) \<and> length r = k"
  shows "\<exists>rows. report_rows row reg keys = Returns rows \<and> map List.hd rows = keys \<and> (\<forall>r \<in> set rows. length r = Suc k)"
  using assms
proof (induction keys)
  case (Cons key keys)
  obtain cs r where "map_of (reg_map reg) key = Some cs" "row key cs = Returns (key # r)" "length r = k" using Cons.prems by force
  moreover obtain rows where "report_rows row reg keys = Returns rows" "map List.hd rows = keys" "\<forall>r \<in> set rows. length r = Suc k"
    using Cons by auto
  ultimately show ?case by simp
qed simp

text \<open>If the cells fit, all lines of a table have the same length.\<close>

lemma draw_row_length:
  assumes "\<forall>j < n. length (cells ! j) \<le> widths ! j"
  shows "length (draw_row widths cells n) = length (DrawLine widths n)"
proof -
  have "length (draw_cell (widths ! j) (cells ! j)) = length (''+-'' @ replicate (widths ! j + 1) CHR ''-'')" if "j < n" for j
    using assms that by (simp add: draw_cell_def)
  then have "map (length \<circ> (\<lambda>j. draw_cell (widths ! j) (cells ! j))) [0..<n] = map (length \<circ> (\<lambda>i. ''+-'' @ replicate (widths ! i + 1) CHR ''-'')) [0..<n]"
    by (simp del: length_append)
  then show ?thesis by (simp only: draw_row_def DrawLine_def length_append length_concat map_map) simp
qed

section \<open>Single operations\<close>

lemma round_up_to_multiple:
  assumes "0 \<le> num" "0 < factor" "num + factor < 2 ^ 31"
  shows "\<exists>r. round_up_to num factor = Returns r \<and> factor dvd r \<and> num \<le> r \<and> r < num + factor"
proof -
  let ?s = "num + factor - 1"
  have m: "?s smod factor = ?s mod factor" using assms by (simp add: signed_modulo_int_def signed_divide_int_def sgn_if minus_div_mult_eq_mod)
  have r: "0 \<le> ?s mod factor" "?s mod factor < factor" using assms(2) by simp_all
  have r3: "?s mod factor \<le> ?s" by (rule zmod_le_nonneg_dividend) (use assms in simp)
  have "round_up_to num factor = Returns (?s - ?s mod factor)"
    using assms r r3 by (simp add: round_up_to_def Let_def m)
  then show ?thesis using r by auto
qed

text \<open>The bucket of a value lies between the limits around it.\<close>

lemma bucket_loop_range: "b \<le> bucket_loop x b n" "bucket_loop x b n \<le> b + n"
  by (induction n arbitrary: b) (auto, metis Suc_leD, metis add_Suc)

lemma bucket_loop_spec:
  "bucket_loop x b n < b + n \<Longrightarrow> \<not> f64_le (kBucketLimit (bucket_loop x b n)) x"
  "b < bucket_loop x b n \<Longrightarrow> f64_le (kBucketLimit (bucket_loop x b n - 1)) x"
proof (induction n arbitrary: b)
  case (Suc n)
  case 2
  then show ?case using Suc(2) [of "Suc b"] bucket_loop_range(1) [of "Suc b" x n] by (cases "bucket_loop x (Suc b) n = Suc b") (auto split: if_splits)
qed (auto split: if_splits)

text \<open>When a ring has just been filled, the newest value is not among those the statistics read.\<close>

lemma ring_values_full:
  assumes "ring_holds xs c" "length xs = kCounterLen"
  shows "ring_values c = take (kCounterLen - 1) xs"
proof (rule nth_equalityI)
  show "length (ring_values c) = length (take (kCounterLen - 1) xs)" using assms by (simp add: ring_values_def ring_holds_def)
  fix i assume "i < length (ring_values c)"
  then have i: "i < kCounterLen - 1" using assms by (simp add: ring_values_def ring_holds_def)
  then have "pc_durations c ! (i mod kCounterLen) = xs ! i" using assms by (simp add: ring_holds_def)
  then show "ring_values c ! i = take (kCounterLen - 1) xs ! i" using i assms by (simp add: ring_values_def ring_holds_def)
qed

text \<open>A counter that exists but has no value yet has no percentile.\<close>

lemma Counters_p_new: "Counters_p 99 Counters_new = Aborts (Undefined ''nth_element'')"
proof -
  have e: "concat (map ring_values Counters_new) = []" by (simp add: Counters_new_def ring_values_def)
  show ?thesis unfolding Counters_p_def Let_def e by simp
qed

text \<open>A report thread that is started after it was stopped finds its flag cleared.\<close>

lemma StartReportThread_after_stop: "rp_thread r \<Longrightarrow> rp_flag (StartReportThread (StopReportThread r)) = False"
  by (simp add: StartReportThread_def StopReportThread_def)

lemma Timer_end_once:
  assumes "Timer_end h now t reg = Returns (t', reg')"
  shows "Timer_end h2 now2 t' reg' = Returns (t', reg')"
  using assms by (auto simp: Timer_end_def run_bind_eq_Returns split: if_splits)

section \<open>Properties\<close>



end
