(* ===== verification/Shm_Common.thy ===== *)
theory Shm_Common
  imports Pet_Prelude
begin

text \<open>
  The small parts that the key-value store is built on: the word that the index stores for a key
  (\<open>src/src/pet_kv/shm_common.h\<close>), the flushing of cache lines (\<open>src/src/pet_kv/persistence.h\<close>) and the
  database interface with its test implementation (\<open>src/src/pet_kv/std_kv.h\<close>).
\<close>

section \<open>The word stored for a key\<close>

record PetKVConfig =
  kExpireReductBit :: u64
  kExpireReductMark :: u64
  kExpireBit :: u64
  kExpireMark :: u64
  kNoMallocOffset :: u64

text \<open>\<open>(1LL << offset_bit) - 1\<close> overflows from 63 bits on.\<close>

definition PetKVConfig_new :: "nat \<Rightarrow> PetKVConfig run" where
  "PetKVConfig_new offset_bit =
     run_bind (run_check (offset_bit \<ge> 32) ''offset_bit >= 32'') (\<lambda>_.
       if offset_bit \<ge> 63 then Aborts (Undefined ''shift'')
       else let expire_bit = 64 - offset_bit;
                reduct_bit = 32 - expire_bit
            in Returns \<lparr>kExpireReductBit = of_nat reduct_bit,
                 kExpireReductMark = push_bit reduct_bit 1 - 1,
                 kExpireBit = of_nat expire_bit,
                 kExpireMark = push_bit expire_bit 1 - 1,
                 kNoMallocOffset = push_bit offset_bit 1 - 1\<rparr>)"

text \<open>Offsets are \<open>int64\<close>s; the words here are their two's complement representation.\<close>

definition shm_malloc_offset :: "PetKVConfig \<Rightarrow> u64 \<Rightarrow> u64" where
  "shm_malloc_offset cfg data_value =
     (let offset = drop_bit (unat (kExpireBit cfg)) data_value
      in if offset = kNoMallocOffset cfg then -1 else push_bit 3 offset)"

definition SetShmMallocOffset :: "PetKVConfig \<Rightarrow> u64 \<Rightarrow> u64 \<Rightarrow> u64" where
  "SetShmMallocOffset cfg offset data_value =
     (let offset = (if offset = -1 then kNoMallocOffset cfg else signed_drop_bit 3 offset)
      in (data_value AND kExpireMark cfg) OR push_bit (unat (kExpireBit cfg)) offset)"

definition expire_timet :: "PetKVConfig \<Rightarrow> u64 \<Rightarrow> u32" where
  "expire_timet cfg data_value = ucast (push_bit (unat (kExpireReductBit cfg)) (data_value AND kExpireMark cfg))"

text \<open>The constructor of \<open>PetKVData\<close> sets the offset of a word that is 0.\<close>

definition PetKVData_new :: "PetKVConfig \<Rightarrow> u64 \<Rightarrow> u64" where
  "PetKVData_new cfg offset = SetShmMallocOffset cfg offset 0"

section \<open>Flushing cache lines\<close>

definition kCACHELINE_SIZE :: nat where
  "kCACHELINE_SIZE = 64"

datatype flush_instr = CLFLUSHOPT | CLWB | CLFLUSH

text \<open>The instruction depends on what the processor offers.\<close>

definition clflushopt :: "bool \<Rightarrow> bool \<Rightarrow> bool \<Rightarrow> flush_instr run" where
  "clflushopt isClflushoptEnabled isClwbEnabled isClflushEnabled =
     (if isClflushoptEnabled then Returns CLFLUSHOPT
      else if isClwbEnabled then Returns CLWB
      else if isClflushEnabled then Returns CLFLUSH
      else Aborts (LogFatal ''system does't support clflush-like instrs''))"

text \<open>The addresses that are flushed, in order.\<close>

function flush_loop :: "nat \<Rightarrow> nat \<Rightarrow> nat \<Rightarrow> nat list" where
  "flush_loop addr sz i = (if i < sz then (addr + i) # flush_loop addr sz (i + kCACHELINE_SIZE) else [])"
  by pat_completeness auto
termination by (relation "measure (\<lambda>(addr, sz, i). sz - i)") (auto simp: kCACHELINE_SIZE_def)

declare flush_loop.simps [simp del]

definition clflushopt_range :: "nat \<Rightarrow> nat \<Rightarrow> nat list" where
  "clflushopt_range des sz = flush_loop des (sz + des mod kCACHELINE_SIZE) 0"

section \<open>The database interface\<close>

type_synonym TestDB = "u64 \<rightharpoonup> u32 \<times> u8 list"

definition TestDB_Write :: "u64 \<Rightarrow> u8 list \<Rightarrow> u32 \<Rightarrow> TestDB \<Rightarrow> bool \<times> TestDB" where
  "TestDB_Write key dat expire db = (True, db(key \<mapsto> (expire, dat)))"

text \<open>The result holds the out parameters \<open>data\<close> and \<open>expire_timet\<close>, which keeps its value on a miss.\<close>

definition TestDB_Read :: "u64 \<Rightarrow> u32 \<Rightarrow> TestDB \<Rightarrow> bool \<times> u8 list \<times> u32" where
  "TestDB_Read key expire db =
     (case db key of None \<Rightarrow> (False, [], expire) | Some (e, d) \<Rightarrow> (True, d, e))"

definition TestDB_GetInfo :: "TestDB \<Rightarrow> nat" where
  "TestDB_GetInfo db = card (dom db)"

definition DBApi_Write :: "(u64 \<Rightarrow> u8 list \<Rightarrow> u32 \<Rightarrow> 'db \<Rightarrow> bool \<times> 'db) \<Rightarrow> u64 \<Rightarrow> u8 list \<Rightarrow> 'db \<Rightarrow> bool \<times> 'db" where
  "DBApi_Write write key dat db = write key dat 0 db"

text \<open>\<open>now\<close> is the time stamp in microseconds.\<close>

definition DBApi_Read ::
  "(u64 \<Rightarrow> u32 \<Rightarrow> 'db \<Rightarrow> bool \<times> u8 list \<times> u32) \<Rightarrow> int \<Rightarrow> u64 \<Rightarrow> 'db \<Rightarrow> bool \<times> u8 list" where
  "DBApi_Read read now key db =
     (let (ok, dat, expire) = read key 0 db
      in if \<not> ok then (False, dat)
         else if expire = 0 then (True, dat)
         else if uint expire < now div 1000000 then (False, dat)
         else (True, dat))"

section \<open>Properties of the stored word\<close>

lemma PetKVConfig_fields:
  assumes "PetKVConfig_new b = Returns cfg"
  shows "32 \<le> b" "b < 63" "unat (kExpireBit cfg) = 64 - b" "unat (kExpireReductBit cfg) = b - 32"
    "kExpireMark cfg = mask (64 - b)" "kNoMallocOffset cfg = mask b"
proof -
  have b: "32 \<le> b" "b < 63" "cfg = \<lparr>kExpireReductBit = of_nat (32 - (64 - b)), kExpireReductMark = push_bit (32 - (64 - b)) 1 - 1,
      kExpireBit = of_nat (64 - b), kExpireMark = push_bit (64 - b) 1 - 1, kNoMallocOffset = push_bit b 1 - 1\<rparr>"
    using assms by (auto simp: PetKVConfig_new_def run_simps Let_def split: if_splits)
  show "32 \<le> b" "b < 63" using b by simp_all
  have "64 - b < 2 ^ 64" "b - 32 < 2 ^ 64" using b(2) by simp_all
  then show "unat (kExpireBit cfg) = 64 - b" "unat (kExpireReductBit cfg) = b - 32"
    using b by (simp_all add: unsigned_of_nat take_bit_nat_eq_self del: of_nat_diff)
  show "kExpireMark cfg = mask (64 - b)" "kNoMallocOffset cfg = mask b"
    using b(3) by (simp_all add: mask_eq_exp_minus_1 push_bit_of_1)
qed

lemma bit_le_unat:
  assumes "bit (w :: u64) i"
  shows "2 ^ i \<le> unat w"
proof (rule ccontr)
  assume "\<not> 2 ^ i \<le> unat w"
  then have "unat w div 2 ^ i = 0" by simp
  moreover have "bit (unat w) i" using assms by (simp add: bit_unsigned_iff)
  ultimately show False by (simp add: bit_iff_odd)
qed

lemma unat_mask_u64:
  assumes "b < 63"
  shows "unat (mask b :: u64) = 2 ^ b - 1"
proof -
  have "(2::nat) ^ b \<le> 2 ^ 64" using assms by (intro power_increasing) simp_all
  moreover have "(2::nat) ^ b - 1 < 2 ^ b" by simp
  ultimately have "(2::nat) ^ b - 1 < 2 ^ 64" by (rule less_le_trans [rotated])
  then have "unat (of_nat (2 ^ b - 1) :: u64) = 2 ^ b - 1" by (simp add: unsigned_of_nat take_bit_nat_eq_self del: of_nat_diff)
  then show ?thesis by (simp only: of_nat_mask_eq mask_eq_exp_minus_1 [where 'a = nat, symmetric])
qed

lemma pack_unpack:
  fixes n dv :: u64
  assumes "e + b = 64" and "unat n < 2 ^ b"
  shows "drop_bit e ((dv AND mask e) OR push_bit e n) = n" "((dv AND mask e) OR push_bit e n) AND mask e = dv AND mask e"
proof -
  have n: "i < b" if "bit n i" for i
  proof (rule ccontr)
    assume "\<not> i < b"
    then have "(2::nat) ^ b \<le> 2 ^ i" by simp
    moreover have "2 ^ i \<le> unat n" using bit_le_unat [OF that] .
    ultimately show False using assms(2) by linarith
  qed
  show "drop_bit e ((dv AND mask e) OR push_bit e n) = n"
    by (rule bit_eqI) (use assms(1) in \<open>auto simp: bit_simps dest: n\<close>)
  show "((dv AND mask e) OR push_bit e n) AND mask e = dv AND mask e"
    by (rule bit_eqI) (auto simp: bit_simps)
qed

lemma shm_offset_roundtrip:
  assumes "PetKVConfig_new b = Returns cfg" and "unat off < 2 ^ 63" and "unat off div 8 < 2 ^ b - 1"
  shows "unat (shm_malloc_offset cfg (SetShmMallocOffset cfg off dv)) = unat off div 8 * 8"
    "expire_timet cfg (SetShmMallocOffset cfg off dv) = expire_timet cfg dv"
proof -
  note F = PetKVConfig_fields [OF assms(1)]
  have "off \<noteq> -1" using assms(2) bit_le_unat [of off 63] by auto
  moreover have "signed_drop_bit 3 off = drop_bit 3 off"
  proof (rule bit_eqI)
    fix i assume "possible_bit TYPE(u64) i"
    have "\<not> bit off 63" using assms(2) bit_le_unat [of off 63] by auto
    then show "bit (signed_drop_bit 3 off) i \<longleftrightarrow> bit (drop_bit 3 off) i"
      by (auto simp: bit_signed_drop_bit_iff bit_drop_bit_eq dest: bit_imp_le_length)
  qed
  ultimately have s: "SetShmMallocOffset cfg off dv = (dv AND mask (64 - b)) OR push_bit (64 - b) (drop_bit 3 off)"
    by (simp add: SetShmMallocOffset_def F)
  have n: "unat (drop_bit 3 off) = unat off div 8" by (simp add: drop_bit_eq_div unat_div)
  have e: "64 - b + b = 64" "unat (drop_bit 3 off) < 2 ^ b" using F(1,2) assms(3) n by simp_all
  note P = pack_unpack [OF e, of dv]
  have "drop_bit 3 off \<noteq> mask b"
    using assms(3) n unat_mask_u64 [OF F(2)] by auto
  moreover have "unat (push_bit 3 (drop_bit 3 off)) = unat off div 8 * 8"
    using assms(2) by (simp add: push_bit_eq_mult unat_word_ariths n)
  ultimately show "unat (shm_malloc_offset cfg (SetShmMallocOffset cfg off dv)) = unat off div 8 * 8"
    using P(1) s by (simp add: shm_malloc_offset_def F)
  show "expire_timet cfg (SetShmMallocOffset cfg off dv) = expire_timet cfg dv"
    using P(2) s by (simp add: expire_timet_def F)
qed

text \<open>
  (C23) The word stored for a key keeps offset and expiry time apart: an offset below the limit of the
  configuration is read back rounded down to a multiple of 8, the mark for no offset as -1, and in
  both cases the expiry time is not changed.
\<close>

theorem PetKVData_roundtrip:
  assumes "PetKVConfig_new b = Returns cfg" and "unat off < 2 ^ 63" and "unat off div 8 < 2 ^ b - 1"
  shows "unat (shm_malloc_offset cfg (SetShmMallocOffset cfg off dv)) = unat off div 8 * 8 \<and>
    shm_malloc_offset cfg (SetShmMallocOffset cfg (-1) dv) = -1 \<and>
    expire_timet cfg (SetShmMallocOffset cfg off dv) = expire_timet cfg dv \<and>
    expire_timet cfg (SetShmMallocOffset cfg (-1) dv) = expire_timet cfg dv"
proof -
  note F = PetKVConfig_fields [OF assms(1)]
  have "64 - b + b = 64" using F(2) by simp
  moreover have "unat (mask b :: u64) < 2 ^ b" using unat_mask_u64 [OF F(2)] by simp
  ultimately show ?thesis
    using shm_offset_roundtrip [OF assms] pack_unpack [of "64 - b" b "mask b" dv]
    by (simp add: shm_malloc_offset_def SetShmMallocOffset_def expire_timet_def F)
qed

theorem PetKVData_roundtrip_witness:
  "\<exists>cfg. PetKVConfig_new 48 = Returns cfg \<and> shm_malloc_offset cfg (SetShmMallocOffset cfg 4103 5) = 4096"
proof -
  have "\<exists>cfg. PetKVConfig_new 48 = Returns cfg" by (simp add: PetKVConfig_new_def Let_def)
  then obtain cfg where c: "PetKVConfig_new 48 = Returns cfg" ..
  have "unat (shm_malloc_offset cfg (SetShmMallocOffset cfg 4103 5)) = 4096"
    using PetKVData_roundtrip [OF c, of 4103 5] by simp
  then show ?thesis using c by (auto simp: word_unat_eq_iff)
qed

section \<open>Properties of the flush loop\<close>

lemma flush_loop_lines:
  "(\<lambda>a. a div 64) ` set (flush_loop addr sz i) = {q. (addr + i) div 64 \<le> q \<and> q < (addr + i) div 64 + (sz - i + 63) div 64}"
proof (induction addr sz i rule: flush_loop.induct)
  case (1 addr sz i)
  show ?case
  proof (cases "i < sz")
    case True
    have "(sz - i + 63) div 64 = Suc ((sz - (i + 64) + 63) div 64)"
    proof (cases "sz < i + 64")
      case True
      then have "sz - i + 63 = 64 + (sz - i - 1)" "sz - (i + 64) + 63 = 63" "sz - i - 1 < 64" using \<open>i < sz\<close> by auto
      then show ?thesis by simp
    next
      case False
      then have "sz - i + 63 = 64 + (sz - (i + 64) + 63)" by simp
      moreover have "(64 + x) div 64 = Suc (x div 64)" for x :: nat by simp
      ultimately show ?thesis by (simp only:)
    qed
    moreover have "(addr + (i + 64)) div 64 = Suc ((addr + i) div 64)" by (simp add: add.assoc [symmetric])
    ultimately show ?thesis
      using 1 [OF True] True by (subst flush_loop.simps) (auto simp: kCACHELINE_SIZE_def)
  next
    case False
    then show ?thesis by (subst flush_loop.simps) simp
  qed
qed

text \<open>
  (C24) \<open>clflushopt_range\<close> flushes exactly the cache lines that the range touches, also when its start is
  not aligned.
\<close>

theorem clflushopt_range_exact:
  assumes "0 < sz"
  shows "(\<lambda>a. a div kCACHELINE_SIZE) ` set (clflushopt_range des sz) = (\<lambda>b. b div kCACHELINE_SIZE) ` {des..<des + sz}"
proof -
  let ?q = "des div 64" and ?r = "des mod 64"
  have d: "des = 64 * ?q + ?r" by simp
  have "(sz + ?r + 63) div 64 = Suc ((?r + sz - 1) div 64)" using assms by (simp add: add.commute)
  moreover have "(des + sz - 1) div 64 = ?q + (?r + sz - 1) div 64"
  proof -
    have "des + sz - 1 = 64 * ?q + (?r + sz - 1)" using assms d by linarith
    then show ?thesis by simp
  qed
  ultimately have L: "(\<lambda>a. a div 64) ` set (flush_loop des (sz + ?r) 0) = {?q..(des + sz - 1) div 64}"
    using flush_loop_lines [of des "sz + ?r" 0] by auto
  have "q \<in> (\<lambda>b. b div 64) ` {des..<des + sz}" if "?q \<le> q" "q \<le> (des + sz - 1) div 64" for q
  proof (rule image_eqI)
    show "q = max des (64 * q) div 64" using that(1) by (auto simp: max_def)
    have "64 * q \<le> des + sz - 1" using that(2) by (simp add: less_eq_div_iff_mult_less_eq)
    then show "max des (64 * q) \<in> {des..<des + sz}" using assms by auto
  qed
  moreover have "?q \<le> b div 64 \<and> b div 64 \<le> (des + sz - 1) div 64" if "des \<le> b" "b < des + sz" for b
    using that by (auto intro!: div_le_mono)
  ultimately show ?thesis using L by (auto simp: clflushopt_range_def kCACHELINE_SIZE_def)
qed

theorem clflushopt_range_exact_witness:
  "(\<lambda>a. a div kCACHELINE_SIZE) ` set (clflushopt_range 63 2) = {0, 1}"
proof -
  have "{63..<(65::nat)} = {63, 64}" by auto
  then show ?thesis using clflushopt_range_exact [of 2 63] by (simp add: kCACHELINE_SIZE_def)
qed

end
