(* ===== verification/Pet_KV.thy ===== *)
theory Pet_KV
  imports Pet_Recovery Pet_Valid Mem_Recycle Shm_Common
begin

text \<open>
  The key-value store of one shard (\<open>src/src/pet_kv/pet_kv.h\<close> and \<open>pet_kv.cc\<close>: \<open>PetKV\<close>): the index
  maps a key to a packed offset into the value file, in which a memory pool allocates the values;
  blocks of replaced values go to the epoch recycler. The bytes of the value file are part of the
  state; pointers into it are offsets. Flushes and log messages are left out.
\<close>

section \<open>State, lookup and update\<close>

record PetKVReadData =
  rd_expire_timet :: u32
  rd_data :: "u64 option"
  rd_size :: int

record PetKV =
  kv_dict :: PetHash
  kv_malloc :: PersistMemoryPool
  kv_recycle :: ShmEpochRecycle
  kv_bytes :: "nat \<Rightarrow> u8"
  kv_pre_known :: nat

text \<open>The pool is in \<open>PERFECT_FIT_MOD\<close> if the size of the values is known in advance.\<close>

definition kv_perfect :: "PetKV \<Rightarrow> bool" where
  "kv_perfect kv \<longleftrightarrow> kv_pre_known kv \<noteq> 0"

definition PetKV_Get :: "PetKVConfig \<Rightarrow> u64 \<Rightarrow> PetKV \<Rightarrow> PetKVReadData run" where
  "PetKV_Get cfg key kv =
     run_bind (PetHash_Get (kv_dict kv) key) (\<lambda>r.
       case r of
         None \<Rightarrow> Returns \<lparr>rd_expire_timet = 0, rd_data = None, rd_size = 0\<rparr>
       | Some cache \<Rightarrow>
           run_bind
             (if kv_pre_known kv = 0
              then GetMallocSize False (unat (shm_malloc_offset cfg cache)) (kv_malloc kv)
              else Returns (int (kv_pre_known kv))) (\<lambda>sz.
             Returns \<lparr>rd_expire_timet = expire_timet cfg cache,
               rd_data = Some (shm_malloc_offset cfg cache), rd_size = sz\<rparr>))"

definition memcpy :: "nat \<Rightarrow> u8 list \<Rightarrow> (nat \<Rightarrow> u8) \<Rightarrow> nat \<Rightarrow> u8" where
  "memcpy a log m = (\<lambda>i. if a \<le> i \<and> i < a + length log then log ! (i - a) else m i)"

text \<open>\<open>FREE_SHM\<close> of the block at an offset.\<close>

definition FREE_SHM :: "u64 \<Rightarrow> PetKV \<Rightarrow> PetKV run" where
  "FREE_SHM off kv =
     run_bind (ShmEpochRecycle_Recycle (Free (kv_perfect kv)) (Some (unat off)) (kv_recycle kv) (kv_malloc kv)) (\<lambda>(r, p).
       Returns (kv\<lparr>kv_recycle := r, kv_malloc := p\<rparr>))"

text \<open>
  The entry of the key is updated in place, or inserted first. \<open>Insert\<close> never returns a null pointer,
  so the branch that gives up is not reached.
\<close>

definition update_entry :: "PetKVConfig \<Rightarrow> u64 \<Rightarrow> u64 \<Rightarrow> location option \<Rightarrow> PetKV \<Rightarrow> (location \<times> PetKV) run" where
  "update_entry cfg key new_cache p_cache kv =
     (case p_cache of
        None \<Rightarrow>
          run_bind (PetHash_Insert (kv_dict kv) key new_cache None True) (\<lambda>(h, s).
            Returns (s, kv\<lparr>kv_dict := store_val h s (SetShmMallocOffset cfg (shm_malloc_offset cfg new_cache) (val_at h s))\<rparr>))
      | Some s \<Rightarrow>
          run_bind (FREE_SHM (shm_malloc_offset cfg (val_at (kv_dict kv) s)) kv) (\<lambda>kv.
            Returns (s, kv\<lparr>kv_dict := store_val (kv_dict kv) s
              (SetShmMallocOffset cfg (shm_malloc_offset cfg new_cache) (val_at (kv_dict kv) s))\<rparr>)))"

definition PetKV_Update :: "PetKVConfig \<Rightarrow> u64 \<Rightarrow> u8 list \<Rightarrow> PetKV \<Rightarrow> (bool \<times> PetKV) run" where
  "PetKV_Update cfg key log kv =
     run_bind (GetReturnPtr (kv_dict kv) key) (\<lambda>p_cache.
     run_bind (New (kv_perfect kv) (length log) (kv_malloc kv)) (\<lambda>(value, p).
     let kv = kv\<lparr>kv_malloc := p, kv_bytes := memcpy value log (kv_bytes kv)\<rparr> in
     run_bind (GetMallocOffset value) (\<lambda>off.
     let new_cache = PetKVData_new cfg (of_nat off) in
     run_bind (update_entry cfg key new_cache p_cache kv) (\<lambda>(s, kv).
     if shm_malloc_offset cfg (val_at (kv_dict kv) s) \<noteq> shm_malloc_offset cfg new_cache
     then run_bind (FREE_SHM (shm_malloc_offset cfg new_cache) kv) (\<lambda>kv. Returns (True, kv))
     else Returns (True, kv)))))"

definition key_num :: "PetKV \<Rightarrow> u32" where
  "key_num kv = PetHash_Size (kv_dict kv)"

definition PetKV_Valid :: "u64 \<Rightarrow> PetKV \<Rightarrow> bool run" where
  "PetKV_Valid dict_file_size kv = Valid (kv_dict kv) dict_file_size"

text \<open>The numbers that \<open>GetInfo\<close> prints: entries, capacity, and the numbers of the pool.\<close>

definition PetKV_GetInfo :: "PetKV \<Rightarrow> (u32 \<times> u32 \<times> nat \<times> nat \<times> int) run" where
  "PetKV_GetInfo kv =
     run_bind (GetInfo (kv_malloc kv)) (\<lambda>(u, n, util).
       Returns (PetHash_Size (kv_dict kv), PetHash_Capacity (kv_dict kv), u, n, util))"

section \<open>Opening and closing\<close>

definition kv_slab_sizes :: "nat \<Rightarrow> nat list" where
  "kv_slab_sizes pre_known_value_size =
     (if pre_known_value_size = 0 then [8 + 32, 8 + 64, 8 + 128, 8 + 512, 8 + 1024] else [pre_known_value_size])"

text \<open>
  The constructor. \<open>pool_exists\<close>, \<open>headers\<close>, \<open>ints\<close> and \<open>bytes\<close> describe the value file as it is found,
  \<open>dict0\<close> what the memory of the index file holds after it has been opened with the right size. The
  number of recovery threads and the interleaving are those of \<open>Reload\<close>; the pool ignores what
  \<open>AddMallocs4Recovery\<close> reports.
\<close>

definition PetKV_new ::
  "nat \<Rightarrow> nat list \<Rightarrow> EpochManager \<Rightarrow> bool \<Rightarrow> ChunkHeader list \<Rightarrow> (nat \<rightharpoonup> int) \<Rightarrow> (nat \<Rightarrow> u8) \<Rightarrow> PetHash \<Rightarrow>
   nat \<Rightarrow> u64 \<Rightarrow> nat \<Rightarrow> PetKV run" where
  "PetKV_new threads sched em pool_exists headers ints bytes dict0 memory_size dict_cap pre_known =
     run_bind (PersistMemoryPool_new pool_exists memory_size (kv_slab_sizes pre_known) headers ints) (\<lambda>pool.
     run_bind (MemorySize dict_cap True) (\<lambda>dict_memory_size.
     run_bind (Valid dict0 dict_memory_size) (\<lambda>valid.
     run_bind
       (if \<not> valid then PetHash_Initialize dict_cap True
        else run_bind (Reload True threads sched dict_cap True dict0) (\<lambda>(h, log). Returns h)) (\<lambda>dict.
     run_bind (run_check (int (unat (PetHash_Size dict)) = total_malloc pool) ''dict_->Size() == total_malloc()'') (\<lambda>_.
       Returns \<lparr>kv_dict = dict, kv_malloc = pool, kv_recycle = ShmEpochRecycle_new em, kv_bytes = bytes,
         kv_pre_known = pre_known\<rparr>)))))"

text \<open>The destructor deletes the recycler, which frees all the blocks that are waiting.\<close>

definition PetKV_close :: "PetKV \<Rightarrow> PetKV run" where
  "PetKV_close kv =
     run_bind (ShmEpochRecycle_Clear (Free (kv_perfect kv)) (kv_recycle kv) (kv_malloc kv)) (\<lambda>(r, p).
       Returns (kv\<lparr>kv_recycle := r, kv_malloc := p\<rparr>))"

section \<open>Invariant and abstraction\<close>

text \<open>
  Every block of the pool belongs to exactly one key or waits in the recycler. The length of a value
  is known in advance or written in front of it.
\<close>

definition kv_addr :: "PetKVConfig \<Rightarrow> u64 \<Rightarrow> nat" where
  "kv_addr cfg v = unat (shm_malloc_offset cfg v)"

definition kv_live :: "PetKVConfig \<Rightarrow> PetKV \<Rightarrow> nat set" where
  "kv_live cfg kv = kv_addr cfg ` ran (abs_map (kv_dict kv))"

definition kv_queue :: "PetKV \<Rightarrow> nat set" where
  "kv_queue kv = snd ` set (er_recycle_ptr (kv_recycle kv))"

definition kv_len :: "PetKV \<Rightarrow> nat \<Rightarrow> nat" where
  "kv_len kv a = (if kv_pre_known kv = 0 then nat (the (pool_ints (kv_malloc kv) (a - 8))) else kv_pre_known kv)"

definition kv_value :: "PetKV \<Rightarrow> nat \<Rightarrow> u8 list" where
  "kv_value kv a = map (kv_bytes kv) [a..<a + kv_len kv a]"

definition kv_map :: "PetKVConfig \<Rightarrow> PetKV \<Rightarrow> u64 \<rightharpoonup> u8 list" where
  "kv_map cfg kv k = map_option (\<lambda>v. kv_value kv (kv_addr cfg v)) (abs_map (kv_dict kv) k)"

definition kv_blocks :: "PetKV \<Rightarrow> (nat \<times> nat) set" where
  "kv_blocks kv = user_blocks (kv_perfect kv) (kv_malloc kv)"

definition pool_fits :: "nat \<Rightarrow> PersistMemoryPool \<Rightarrow> bool" where
  "pool_fits b p \<longleftrightarrow> length (chunks p) * kPoolChunkSize < 8 * (2 ^ b - 1) \<and> length (chunks p) * kPoolChunkSize < 2 ^ 63 \<and>
     (\<forall>s \<in> dom (size_to_chunks p). 8 dvd s)"

definition kv_inv :: "nat \<Rightarrow> PetKVConfig \<Rightarrow> PetKV \<Rightarrow> bool" where
  "kv_inv b cfg kv \<longleftrightarrow> PetKVConfig_new b = Returns cfg \<and> ready (kv_dict kv) \<and> pool_inv (kv_malloc kv) \<and>
     pool_fits b (kv_malloc kv) \<and> queue_ok (kv_recycle kv) \<and>
     inj_on (\<lambda>k. kv_addr cfg (the (abs_map (kv_dict kv) k))) (dom (abs_map (kv_dict kv))) \<and>
     distinct (map snd (er_recycle_ptr (kv_recycle kv))) \<and>
     kv_live cfg kv \<inter> kv_queue kv = {} \<and> fst ` kv_blocks kv = kv_live cfg kv \<union> kv_queue kv \<and>
     (kv_perfect kv \<longrightarrow> dom (size_to_chunks (kv_malloc kv)) \<subseteq> {kv_pre_known kv}) \<and>
     (\<forall>a \<in> kv_live cfg kv. (\<exists>n \<ge> kv_len kv a. (a, n) \<in> kv_blocks kv) \<and>
        (kv_pre_known kv = 0 \<longrightarrow> pool_ints (kv_malloc kv) (a - 8) = Some (int (kv_len kv a))))"

lemma kv_invD:
  assumes "kv_inv b cfg kv"
  shows "PetKVConfig_new b = Returns cfg" "ready (kv_dict kv)" "pool_inv (kv_malloc kv)" "pool_fits b (kv_malloc kv)"
    "queue_ok (kv_recycle kv)" "inj_on (\<lambda>k. kv_addr cfg (the (abs_map (kv_dict kv) k))) (dom (abs_map (kv_dict kv)))"
    "distinct (map snd (er_recycle_ptr (kv_recycle kv)))" "kv_live cfg kv \<inter> kv_queue kv = {}"
    "fst ` kv_blocks kv = kv_live cfg kv \<union> kv_queue kv"
    "kv_perfect kv \<Longrightarrow> dom (size_to_chunks (kv_malloc kv)) \<subseteq> {kv_pre_known kv}"
    "a \<in> kv_live cfg kv \<Longrightarrow> \<exists>n \<ge> kv_len kv a. (a, n) \<in> kv_blocks kv"
    "a \<in> kv_live cfg kv \<Longrightarrow> kv_pre_known kv = 0 \<Longrightarrow> pool_ints (kv_malloc kv) (a - 8) = Some (int (kv_len kv a))"
  using assms unfolding kv_inv_def by auto

section \<open>Blocks are aligned and fit into a packed word\<close>

lemma block_aligned:
  assumes "pool_inv p" and "pool_fits b p" and "(a, n) \<in> user_blocks perfect_fit p"
  shows "8 dvd a"
proof -
  have pb: "8 dvd a'" if blk: "(a', s) \<in> pool_blocks p" for a' s
  proof -
    obtain e where e: "GetChunkID a' < length (chunks p)" "chunk_ok (chunks p ! GetChunkID a')"
      "a' = GetChunkID a' * kPoolChunkSize + entry_off (chunks p ! GetChunkID a') e"
      using pool_blocksE [OF assms(1) blk] by metis
    have "8 dvd SlabSize (chunks p ! GetChunkID a')"
      using pool_invD(4) [OF assms(1) e(1)] chunk_okD(1) [OF e(2)] assms(2) by (auto simp: pool_fits_def)
    then have "8 dvd entry_off (chunks p ! GetChunkID a') e" by (simp add: entry_off_def data_off_def)
    moreover have "8 dvd kPoolChunkSize" by (simp add: kPoolChunkSize_def)
    ultimately show ?thesis using e(3) by (metis dvd_add dvd_mult)
  qed
  show ?thesis
    using assms(3) pb by (cases perfect_fit) (auto simp: user_blocks_def kMetaDataSize_def)
qed

lemma GetMallocOffset_aligned: "8 dvd a \<Longrightarrow> GetMallocOffset a = Returns a"
  by (auto simp: GetMallocOffset_def push_bit_eq_mult drop_bit_eq_div elim!: dvdE)

lemma packed_addr:
  assumes "PetKVConfig_new b = Returns cfg" and "8 dvd a" and "a < 8 * (2 ^ b - 1)" and "a < 2 ^ 63"
  shows "shm_malloc_offset cfg (SetShmMallocOffset cfg (of_nat a) dv) = of_nat a"
    "kv_addr cfg (SetShmMallocOffset cfg (of_nat a) dv) = a" "unat (of_nat a :: u64) = a"
proof -
  have u: "unat (of_nat a :: u64) = a" using assms(4) by (simp add: unsigned_of_nat take_bit_nat_eq_self)
  have "a div 8 < 2 ^ b - 1" using assms(3) by (simp add: div_less_iff_less_mult mult.commute)
  then have "unat (shm_malloc_offset cfg (SetShmMallocOffset cfg (of_nat a) dv)) = a"
    using shm_offset_roundtrip(1) [OF assms(1), of "of_nat a" dv] assms(2,4) u by simp
  then show "shm_malloc_offset cfg (SetShmMallocOffset cfg (of_nat a) dv) = of_nat a"
    "kv_addr cfg (SetShmMallocOffset cfg (of_nat a) dv) = a" "unat (of_nat a :: u64) = a"
    using u by (simp_all add: kv_addr_def word_unat_eq_iff)
qed

section \<open>What freeing keeps\<close>

definition same_frame :: "PersistMemoryPool \<Rightarrow> PersistMemoryPool \<Rightarrow> bool" where
  "same_frame p p' \<longleftrightarrow> pool_ints p' = pool_ints p \<and> dom (size_to_chunks p') = dom (size_to_chunks p) \<and>
     length (chunks p') = length (chunks p)"

lemma pool_fits_frame: "same_frame p p' \<Longrightarrow> pool_fits b p' = pool_fits b p"
  by (simp add: same_frame_def pool_fits_def)

lemma Free_frame: "Free perfect_fit a p = Returns (r, p') \<Longrightarrow> same_frame p p'"
  by (auto simp: Free_def Let_def run_simps same_frame_def split: if_splits)

lemma recycle_loop_frame:
  "recycle_loop (Free perfect_fit) c q p = Returns (q', p') \<Longrightarrow> same_frame p p'"
proof (induction q arbitrary: p)
  case (Cons x q)
  obtain t d where x: "x = (t, d)" by (cases x)
  show ?case
  proof (cases "c t")
    case True
    then obtain p1 where "Free perfect_fit d p = Returns (True, p1)" "recycle_loop (Free perfect_fit) c q p1 = Returns (q', p')"
      using Cons.prems x by (auto simp: run_simps)
    then show ?thesis using Cons.IH [of p1] Free_frame by (fastforce simp: same_frame_def)
  qed (use Cons.prems x in \<open>simp add: same_frame_def\<close>)
qed (simp add: same_frame_def)

lemma Recycle_frame:
  "ShmEpochRecycle_Recycle (Free perfect_fit) ptr r p = Returns (r', p') \<Longrightarrow> same_frame p p'"
  by (auto simp: ShmEpochRecycle_Recycle_def Let_def run_simps dest: recycle_loop_frame)

lemma recycle_epoch_le:
  assumes "unat (current_epoch (er_epoch_manager r)) < 2 ^ 64 - 1"
  shows "current_epoch (er_epoch_manager r) \<le> current_epoch (recycle_epoch r)"
  using assms by (simp add: recycle_epoch_def BumpCurrentEpoch_def Manager_ComputeNewSafeToReclaimEpoch_def
      word_le_nat_alt unat_word_ariths)

section \<open>A new block with the value\<close>

lemma memcpy_new: "map (memcpy a log m) [a..<a + length log] = log"
  by (rule nth_equalityI) (simp_all add: memcpy_def)

lemma memcpy_other: "a + length log \<le> x \<or> x + n \<le> a \<Longrightarrow> map (memcpy a log m) [x..<x + n] = map m [x..<x + n]"
  by (auto simp: memcpy_def)

text \<open>The state after the value has been copied into a new block.\<close>

lemma kv_new_block:
  assumes inv: "kv_inv b cfg kv" and new: "New (kv_perfect kv) (length log) (kv_malloc kv) = Returns (a, p)"
  defines "kv1 \<equiv> kv\<lparr>kv_malloc := p, kv_bytes := memcpy a log (kv_bytes kv)\<rparr>"
  obtains n where "pool_inv p" "pool_fits b p" "dom (size_to_chunks p) = dom (size_to_chunks (kv_malloc kv))"
    "a \<notin> fst ` kv_blocks kv" "kv_blocks kv1 = insert (a, n) (kv_blocks kv)" "length log \<le> n"
    "kv_len kv1 a = length log" "kv_pre_known kv = 0 \<longrightarrow> pool_ints p (a - 8) = Some (int (length log))"
    "\<forall>x \<in> kv_live cfg kv. kv_len kv1 x = kv_len kv x \<and> kv_value kv1 x = kv_value kv x \<and>
       (kv_pre_known kv = 0 \<longrightarrow> pool_ints p (x - 8) = pool_ints (kv_malloc kv) (x - 8))"
    "kv_value kv1 a = log"
proof -
  note I = kv_invD [OF inv]
  note N = pool.new_addr [OF I(3) new]
  obtain n where n: "length log \<le> n" "user_blocks (kv_perfect kv) p = insert (a, n) (user_blocks (kv_perfect kv) (kv_malloc kv))"
    using N(4) by blast
  have F: "dom (size_to_chunks p) = dom (size_to_chunks (kv_malloc kv)) \<and> length (chunks p) = length (chunks (kv_malloc kv)) \<and>
      (kv_perfect kv \<longrightarrow> length log \<in> dom (size_to_chunks (kv_malloc kv))) \<and>
      (if kv_perfect kv then pool_ints p = pool_ints (kv_malloc kv)
       else 8 \<le> a \<and> pool_ints p = (pool_ints (kv_malloc kv))(a - 8 \<mapsto> int (length log)))"
  proof (cases rule: New_grown [OF I(3) new, case_names exact rounded])
    case exact
    then show ?thesis using new NewInternal_valid(1) [OF I(3)] by (auto simp: grown_def New_def)
  next
    case (rounded slab c q)
    then show ?thesis by (auto simp: grown_def kMetaDataSize_def)
  qed
  have len: "kv_len kv1 a = length log"
    using F I(10) by (auto simp: kv_len_def kv1_def kv_perfect_def split: if_splits)
  have "a \<notin> fst ` kv_blocks kv" using N(2) by (simp add: kv_blocks_def)
  have "kv_len kv1 x = kv_len kv x \<and> kv_value kv1 x = kv_value kv x \<and>
       (kv_pre_known kv = 0 \<longrightarrow> pool_ints p (x - 8) = pool_ints (kv_malloc kv) (x - 8))"
    if x: "x \<in> kv_live cfg kv" for x
  proof -
    obtain m where m: "kv_len kv x \<le> m" "(x, m) \<in> user_blocks (kv_perfect kv) (kv_malloc kv)"
      using I(11) [OF x] by (auto simp: kv_blocks_def)
    have xa: "x \<noteq> a" using m(2) N(2) by force
    have "8 \<le> x" if "\<not> kv_perfect kv" using m(2) user_blocks_False [OF I(3)] that by (simp add: kMetaDataSize_def)
    then have pi: "pool_ints p (x - 8) = pool_ints (kv_malloc kv) (x - 8)" using F xa by (auto split: if_splits)
    then have l: "kv_len kv1 x = kv_len kv x" by (simp add: kv_len_def kv1_def)
    have "a + n \<le> x \<or> x + m \<le> a" using pool.no_overlap [OF N(1), of a n "kv_perfect kv" x m] n(2) m(2) xa by auto
    then have "a + length log \<le> x \<or> x + kv_len kv x \<le> a" using n(1) m(1) by linarith
    then have "kv_value kv1 x = kv_value kv x" unfolding kv_value_def l using memcpy_other by (simp add: kv1_def)
    then show ?thesis using l pi by simp
  qed
  moreover have "kv_value kv1 a = log" unfolding kv_value_def len by (simp add: kv1_def memcpy_new)
  moreover have "pool_fits b p" using I(4) F by (simp add: pool_fits_def)
  ultimately show thesis
    using that [of n] N(1,2) n F len by (auto simp: kv_blocks_def kv1_def kv_perfect_def)
qed

section \<open>The map after an update\<close>

definition old_addr :: "PetKVConfig \<Rightarrow> PetKV \<Rightarrow> u64 \<Rightarrow> nat set" where
  "old_addr cfg kv key = (case abs_map (kv_dict kv) key of None \<Rightarrow> {} | Some w \<Rightarrow> {kv_addr cfg w})"

lemma live_update:
  assumes "inj_on (\<lambda>k. kv_addr cfg (the (m k))) (dom m)" and "kv_addr cfg v \<notin> kv_addr cfg ` ran m"
  shows "kv_addr cfg ` ran (m(key \<mapsto> v)) =
      insert (kv_addr cfg v) (kv_addr cfg ` ran m - (case m key of None \<Rightarrow> {} | Some w \<Rightarrow> {kv_addr cfg w}))"
    "inj_on (\<lambda>k. kv_addr cfg (the ((m(key \<mapsto> v)) k))) (dom (m(key \<mapsto> v)))"
proof -
  have inj: "k = k'" if "m k = Some w" "m k' = Some w'" "kv_addr cfg w = kv_addr cfg w'" for k k' w w'
    using inj_onD [OF assms(1), of k k'] that by auto
  show "kv_addr cfg ` ran (m(key \<mapsto> v)) =
      insert (kv_addr cfg v) (kv_addr cfg ` ran m - (case m key of None \<Rightarrow> {} | Some w \<Rightarrow> {kv_addr cfg w}))"
  proof -
    let ?R = "{w. \<exists>k. k \<noteq> key \<and> m k = Some w}"
    have "ran (m(key \<mapsto> v)) = insert v ?R" by (auto simp: ran_def)
    moreover have "kv_addr cfg ` ?R = kv_addr cfg ` ran m - (case m key of None \<Rightarrow> {} | Some w \<Rightarrow> {kv_addr cfg w})"
    proof (cases "m key")
      case None
      then have "?R = ran m" by (auto simp: ran_def) (metis option.distinct(1))
      then show ?thesis using None by simp
    next
      case (Some w)
      then have "ran m = insert w ?R" by (auto simp: ran_def) (metis option.inject)
      moreover have "kv_addr cfg w \<notin> kv_addr cfg ` ?R" using inj [OF _ Some] by auto
      ultimately show ?thesis using Some by auto
    qed
    ultimately show ?thesis by simp
  qed
  show "inj_on (\<lambda>k. kv_addr cfg (the ((m(key \<mapsto> v)) k))) (dom (m(key \<mapsto> v)))"
  proof -
    have nv: "kv_addr cfg w \<noteq> kv_addr cfg v" if "m k = Some w" for k w using assms(2) that by (metis image_eqI ranI)
    show ?thesis
    proof (rule inj_onI)
      fix k k'
      assume k: "k \<in> dom (m(key \<mapsto> v))" "k' \<in> dom (m(key \<mapsto> v))"
        "kv_addr cfg (the ((m(key \<mapsto> v)) k)) = kv_addr cfg (the ((m(key \<mapsto> v)) k'))"
      show "k = k'"
        using k nv inj by (cases "k = key"; cases "k' = key") (auto, metis+)
    qed
  qed
qed

lemma kv_inv_update:
  assumes inv: "kv_inv b cfg kv"
    and kv': "kv' = kv\<lparr>kv_dict := h', kv_malloc := p', kv_recycle := r', kv_bytes := bs'\<rparr>"
    and dict: "ready h'" "abs_map h' = (abs_map (kv_dict kv))(key \<mapsto> v)" "kv_addr cfg v \<notin> kv_live cfg kv"
    and pool: "pool_inv p'" "pool_fits b p'" "dom (size_to_chunks p') = dom (size_to_chunks (kv_malloc kv))"
    and que: "queue_ok r'" "distinct (map snd (er_recycle_ptr r'))"
      "insert (kv_addr cfg v) (kv_live cfg kv - old_addr cfg kv key) \<inter> kv_queue kv' = {}"
      "fst ` kv_blocks kv' = insert (kv_addr cfg v) (kv_live cfg kv - old_addr cfg kv key) \<union> kv_queue kv'"
    and len: "\<And>x. x \<in> kv_live cfg kv - old_addr cfg kv key \<or> x = kv_addr cfg v \<Longrightarrow>
        (\<exists>n \<ge> kv_len kv' x. (x, n) \<in> kv_blocks kv') \<and>
        (kv_pre_known kv = 0 \<longrightarrow> pool_ints p' (x - 8) = Some (int (kv_len kv' x)))"
    and val: "\<And>x. x \<in> kv_live cfg kv - old_addr cfg kv key \<Longrightarrow> kv_value kv' x = kv_value kv x"
      "kv_value kv' (kv_addr cfg v) = log"
  shows "kv_inv b cfg kv' \<and> kv_map cfg kv' = (kv_map cfg kv)(key \<mapsto> log)"
proof
  note I = kv_invD [OF inv]
  note L = live_update [OF I(6), of v key, folded kv_live_def, OF dict(3)]
  have live: "kv_live cfg kv' = insert (kv_addr cfg v) (kv_live cfg kv - old_addr cfg kv key)"
    using L(1) by (simp add: kv_live_def kv' dict(2) old_addr_def)
  have inj: "inj_on (\<lambda>k. kv_addr cfg (the (abs_map (kv_dict kv') k))) (dom (abs_map (kv_dict kv')))"
    using L(2) by (simp add: kv' dict(2))
  show "kv_inv b cfg kv'"
    unfolding kv_inv_def live
    using I(1,10) dict(1) pool que inj len by (auto simp: kv' kv_perfect_def)
  show "kv_map cfg kv' = (kv_map cfg kv)(key \<mapsto> log)"
  proof
    fix k
    show "kv_map cfg kv' k = ((kv_map cfg kv)(key \<mapsto> log)) k"
    proof (cases "k = key \<or> abs_map (kv_dict kv) k = None")
      case True
      then show ?thesis using val(2) by (auto simp: kv_map_def kv' dict(2))
    next
      case False
      then obtain w where w: "abs_map (kv_dict kv) k = Some w" "k \<noteq> key" by auto
      have "kv_addr cfg w \<notin> old_addr cfg kv key"
        using inj_onD [OF I(6), of k key] w by (auto simp: old_addr_def dom_def split: option.splits)
      then have "kv_addr cfg w \<in> kv_live cfg kv - old_addr cfg kv key" using w(1) by (auto simp: kv_live_def ran_def)
      from val(1) [OF this] w show ?thesis by (simp add: kv_map_def kv' dict(2))
    qed
  qed
qed

section \<open>Update and lookup\<close>

lemma kv_new_addr:
  assumes inv: "kv_inv b cfg kv" and new: "New (kv_perfect kv) (length log) (kv_malloc kv) = Returns (a, p)"
    and B: "pool_inv p" "pool_fits b p" "(a, n) \<in> user_blocks (kv_perfect kv) p"
  shows "GetMallocOffset a = Returns a" "shm_malloc_offset cfg (SetShmMallocOffset cfg (of_nat a) dv) = of_nat a"
    "kv_addr cfg (SetShmMallocOffset cfg (of_nat a) dv) = a" "shm_malloc_offset cfg (PetKVData_new cfg (of_nat a)) = of_nat a"
proof -
  note I = kv_invD [OF inv]
  have al: "8 dvd a" using block_aligned [OF B] .
  have "a + n \<le> length (chunks p) * kPoolChunkSize" using New_range [OF I(3) new B(3)] .
  then have "a < 8 * (2 ^ b - 1)" "a < 2 ^ 63" using B(2) by (auto simp: pool_fits_def)
  note P = packed_addr [OF I(1) al this]
  show "GetMallocOffset a = Returns a" using GetMallocOffset_aligned [OF al] .
  show "shm_malloc_offset cfg (SetShmMallocOffset cfg (of_nat a) dv) = of_nat a"
    "kv_addr cfg (SetShmMallocOffset cfg (of_nat a) dv) = a" "shm_malloc_offset cfg (PetKVData_new cfg (of_nat a)) = of_nat a"
    using P by (simp_all add: PetKVData_new_def)
qed

lemma Update_miss:
  assumes inv: "kv_inv b cfg kv" and new: "New (kv_perfect kv) (length log) (kv_malloc kv) = Returns (a, p)"
    and key: "abs_map (kv_dict kv) key = None" and room: "\<not> Full (kv_dict kv)"
  shows "\<exists>kv'. PetKV_Update cfg key log kv = Returns (True, kv') \<and> kv_inv b cfg kv' \<and>
    kv_map cfg kv' = (kv_map cfg kv)(key \<mapsto> log) \<and> kv_recycle kv' = kv_recycle kv \<and>
    kv_pre_known kv' = kv_pre_known kv \<and> nchunks (kv_dict kv') = nchunks (kv_dict kv)"
proof -
  note I = kv_invD [OF inv]
  let ?kv1 = "kv\<lparr>kv_malloc := p, kv_bytes := memcpy a log (kv_bytes kv)\<rparr>"
  obtain n where B: "pool_inv p" "pool_fits b p" "dom (size_to_chunks p) = dom (size_to_chunks (kv_malloc kv))"
    "a \<notin> fst ` kv_blocks kv" "kv_blocks ?kv1 = insert (a, n) (kv_blocks kv)" "length log \<le> n"
    "kv_len ?kv1 a = length log" "kv_pre_known kv = 0 \<longrightarrow> pool_ints p (a - 8) = Some (int (length log))"
    "\<forall>x \<in> kv_live cfg kv. kv_len ?kv1 x = kv_len kv x \<and> kv_value ?kv1 x = kv_value kv x \<and>
       (kv_pre_known kv = 0 \<longrightarrow> pool_ints p (x - 8) = pool_ints (kv_malloc kv) (x - 8))"
    "kv_value ?kv1 a = log"
    using kv_new_block [OF inv new] .
  have blk: "(a, n) \<in> user_blocks (kv_perfect kv) p" using B(5) by (simp add: kv_blocks_def kv_perfect_def)
  note A = kv_new_addr [OF inv new B(1,2) blk]
  let ?c = "PetKVData_new cfg (of_nat a)"
  have D: "pet_inv (kv_dict kv)" "settled (kv_dict kv)" using I(2) by (auto simp: ready_def)
  obtain h s where h: "PetHash_Insert (kv_dict kv) key ?c None True = Returns (h, s)" "stored (kv_dict kv) key ?c {} h s"
    using insert_ok_exact [OF PetHash_Insert_ok [OF D(1) key, of True None ?c] room] room by (auto simp: can_insert_def)
  have S: "pet_inv h" "s \<in> used h" "key_at h s = key" "abs_map h = (abs_map (kv_dict kv))(key \<mapsto> ?c)" "settled h"
    "nchunks h = nchunks (kv_dict kv)"
    using h(2) D(2) by (auto simp: stored_def restrict_map_def)
  define v where "v = SetShmMallocOffset cfg (of_nat a) (val_at h s)"
  define kv' where "kv' = ?kv1\<lparr>kv_dict := store_val h s v\<rparr>"
  have va: "kv_addr cfg v = a" "shm_malloc_offset cfg v = of_nat a" using A by (simp_all add: v_def)
  have vs: "val_at (store_val h s v) s = v" using store_val_entries(3) [OF S(1,2) S(2)] by simp
  have dict: "ready (store_val h s v)" "abs_map (store_val h s v) = (abs_map (kv_dict kv))(key \<mapsto> v)"
    using inv_store_val [OF S(1,2)] abs_store_val [OF S(1,2)] S by (auto simp: ready_def)
  have nl: "a \<notin> kv_live cfg kv" "a \<notin> kv_queue kv" using B(4) I(9) by auto
  have od: "old_addr cfg kv key = {}" using key by (simp add: old_addr_def)
  have kb: "kv_blocks kv' = insert (a, n) (kv_blocks kv)" "kv_queue kv' = kv_queue kv"
    using B(5) by (simp_all add: kv'_def kv_blocks_def kv_queue_def kv_perfect_def)
  have vl: "kv_value kv' x = kv_value ?kv1 x" "kv_len kv' x = kv_len ?kv1 x" for x
    by (simp_all add: kv'_def kv_value_def kv_len_def)
  have "kv_inv b cfg kv' \<and> kv_map cfg kv' = (kv_map cfg kv)(key \<mapsto> log)"
  proof (rule kv_inv_update [OF inv, where kv' = kv' and h' = "store_val h s v" and p' = p and r' = "kv_recycle kv" and
        bs' = "memcpy a log (kv_bytes kv)" and v = v])
    show "kv' = kv\<lparr>kv_dict := store_val h s v, kv_malloc := p, kv_recycle := kv_recycle kv, kv_bytes := memcpy a log (kv_bytes kv)\<rparr>"
      by (simp add: kv'_def)
    show "insert (kv_addr cfg v) (kv_live cfg kv - old_addr cfg kv key) \<inter> kv_queue kv' = {}"
      "fst ` kv_blocks kv' = insert (kv_addr cfg v) (kv_live cfg kv - old_addr cfg kv key) \<union> kv_queue kv'"
      using nl I(8,9) od kb by (auto simp: va)
    show "(\<exists>n \<ge> kv_len kv' x. (x, n) \<in> kv_blocks kv') \<and> (kv_pre_known kv = 0 \<longrightarrow> pool_ints p (x - 8) = Some (int (kv_len kv' x)))"
      if "x \<in> kv_live cfg kv - old_addr cfg kv key \<or> x = kv_addr cfg v" for x
      using that B(6-9) I(11,12) [of x] od by (auto simp: va vl kb)
    show "kv_value kv' x = kv_value kv x" if "x \<in> kv_live cfg kv - old_addr cfg kv key" for x
      using that B(9) by (simp add: vl)
  qed (use I(5,7) B(1-3,10) dict nl vl in \<open>simp_all add: va\<close>)
  moreover have "PetKV_Update cfg key log kv = Returns (True, kv')"
    using GetInternal_miss [OF D(1) _ D(2), of key] key new A h(1) vs va
    by (simp add: PetKV_Update_def GetReturnPtr_def abs_map_None update_entry_def kv'_def v_def)
  ultimately show ?thesis using S(6) by (intro exI [of _ kv']) (simp add: kv'_def)
qed

lemma kept_image:
  assumes "fst ` B = insert a (L \<union> Q)" and "A \<subseteq> insert x Q" and "x \<in> L" and "a \<notin> L" and "a \<notin> Q" and "L \<inter> Q = {}"
    and "A \<subseteq> fst ` {b \<in> B. fst b \<in> insert x Q \<longrightarrow> fst b \<in> A}"
  shows "fst ` {b \<in> B. fst b \<in> insert x Q \<longrightarrow> fst b \<in> A} = insert a (L - {x}) \<union> A" "insert a (L - {x}) \<inter> A = {}"
proof -
  show "insert a (L - {x}) \<inter> A = {}" using assms(2-6) by auto
  have "insert a (L - {x}) \<subseteq> fst ` {b \<in> B. fst b \<in> insert x Q \<longrightarrow> fst b \<in> A}"
  proof
    fix y assume y: "y \<in> insert a (L - {x})"
    then obtain b where "b \<in> B" "fst b = y" using assms(1) by (metis Un_iff Diff_iff imageE insert_iff)
    moreover have "y \<notin> insert x Q" using y assms(3-6) by auto
    ultimately show "y \<in> fst ` {b \<in> B. fst b \<in> insert x Q \<longrightarrow> fst b \<in> A}" by blast
  qed
  moreover have "fst ` {b \<in> B. fst b \<in> insert x Q \<longrightarrow> fst b \<in> A} \<subseteq> insert a (L - {x}) \<union> A"
  proof
    fix y assume "y \<in> fst ` {b \<in> B. fst b \<in> insert x Q \<longrightarrow> fst b \<in> A}"
    then have "y \<in> insert a (L \<union> Q)" "y \<in> insert x Q \<longrightarrow> y \<in> A" using assms(1) by auto
    then show "y \<in> insert a (L - {x}) \<union> A" by auto
  qed
  ultimately show "fst ` {b \<in> B. fst b \<in> insert x Q \<longrightarrow> fst b \<in> A} = insert a (L - {x}) \<union> A" using assms(7) by auto
qed

lemma Update_hit:
  assumes inv: "kv_inv b cfg kv" and new: "New (kv_perfect kv) (length log) (kv_malloc kv) = Returns (a, p)"
    and key: "abs_map (kv_dict kv) key = Some w" and ep: "unat (current_epoch (er_epoch_manager (kv_recycle kv))) < 2 ^ 64 - 1"
  shows "\<exists>kv'. PetKV_Update cfg key log kv = Returns (True, kv') \<and> kv_inv b cfg kv' \<and>
    kv_map cfg kv' = (kv_map cfg kv)(key \<mapsto> log) \<and> er_epoch_manager (kv_recycle kv') = recycle_epoch (kv_recycle kv) \<and>
    kv_pre_known kv' = kv_pre_known kv \<and> nchunks (kv_dict kv') = nchunks (kv_dict kv)"
proof -
  note I = kv_invD [OF inv]
  let ?kv1 = "kv\<lparr>kv_malloc := p, kv_bytes := memcpy a log (kv_bytes kv)\<rparr>"
  obtain n where B: "pool_inv p" "pool_fits b p" "dom (size_to_chunks p) = dom (size_to_chunks (kv_malloc kv))"
    "a \<notin> fst ` kv_blocks kv" "kv_blocks ?kv1 = insert (a, n) (kv_blocks kv)" "length log \<le> n"
    "kv_len ?kv1 a = length log" "kv_pre_known kv = 0 \<longrightarrow> pool_ints p (a - 8) = Some (int (length log))"
    "\<forall>x \<in> kv_live cfg kv. kv_len ?kv1 x = kv_len kv x \<and> kv_value ?kv1 x = kv_value kv x \<and>
       (kv_pre_known kv = 0 \<longrightarrow> pool_ints p (x - 8) = pool_ints (kv_malloc kv) (x - 8))"
    "kv_value ?kv1 a = log"
    using kv_new_block [OF inv new] .
  have blk: "(a, n) \<in> user_blocks (kv_perfect kv) p" "user_blocks (kv_perfect kv) p = insert (a, n) (kv_blocks kv)"
    using B(5) by (simp_all add: kv_blocks_def kv_perfect_def)
  note A = kv_new_addr [OF inv new B(1,2) blk(1)]
  have D: "pet_inv (kv_dict kv)" "settled (kv_dict kv)" using I(2) by (auto simp: ready_def)
  obtain s where S: "s \<in> used (kv_dict kv)" "key_at (kv_dict kv) s = key" "val_at (kv_dict kv) s = w"
    using abs_map_SomeD [OF key] by blast
  define o' where "o' = kv_addr cfg w"
  have ol: "o' \<in> kv_live cfg kv" "old_addr cfg kv key = {o'}" using key by (auto simp: kv_live_def ran_def o'_def old_addr_def)
  have nl: "a \<notin> kv_live cfg kv" "a \<notin> kv_queue kv" "o' \<notin> kv_queue kv" using B(4) I(8,9) ol(1) by auto
  have q: "distinct (map snd (er_recycle_ptr (kv_recycle kv)) @ ptrs [Some o'])"
    "snd ` set (er_recycle_ptr (kv_recycle kv)) \<union> set (ptrs [Some o']) \<subseteq> fst ` user_blocks (kv_perfect kv) p"
    using I(7,9) nl(3) ol(1) by (auto simp: kv_queue_def blk(2))
  let ?r' = "\<lambda>q. \<lparr>er_epoch_manager = recycle_epoch (kv_recycle kv), er_recycle_ptr = q, er_recycled_count = er_recycled_count (kv_recycle kv) + 1\<rparr>"
  obtain q' p' where R: "ShmEpochRecycle_Recycle (Free (kv_perfect kv)) (Some o') (kv_recycle kv) p = Returns (?r' q', p')"
    "pool_inv p'" "distinct (map snd q' @ ptrs [])" "snd ` set q' \<union> set (ptrs []) \<subseteq> fst ` user_blocks (kv_perfect kv) p'"
    "queue_ok (?r' q')" "\<forall>(e, a) \<in> set q'. safe_to_reclaim_epoch (recycle_epoch (kv_recycle kv)) < e"
    "set q' \<subseteq> set (er_recycle_ptr (kv_recycle kv)) \<union> UNIV \<times> set (ptrs [Some o'])"
    "user_blocks (kv_perfect kv) p' = {b \<in> user_blocks (kv_perfect kv) p.
        fst b \<in> snd ` set (er_recycle_ptr (kv_recycle kv)) \<union> set (ptrs [Some o']) \<longrightarrow> fst b \<in> snd ` set q'}"
    using pool.Recycle_step [OF B(1) q I(5) recycle_epoch_le [OF ep]] .
  let ?Q = "kv_queue kv"
  have bk: "user_blocks (kv_perfect kv) p' = {b \<in> insert (a, n) (kv_blocks kv). fst b \<in> insert o' ?Q \<longrightarrow> fst b \<in> snd ` set q'}"
    unfolding R(8) blk(2) by (simp add: kv_queue_def)
  have K: "fst ` user_blocks (kv_perfect kv) p' = insert a (kv_live cfg kv - {o'}) \<union> snd ` set q'"
    "insert a (kv_live cfg kv - {o'}) \<inter> snd ` set q' = {}"
  proof -
    have 1: "fst ` insert (a, n) (kv_blocks kv) = insert a (kv_live cfg kv \<union> ?Q)" using I(9) by simp
    have 2: "snd ` set q' \<subseteq> insert o' ?Q" using R(7) by (auto simp: kv_queue_def)
    have 3: "snd ` set q' \<subseteq> fst ` {b \<in> insert (a, n) (kv_blocks kv). fst b \<in> insert o' ?Q \<longrightarrow> fst b \<in> snd ` set q'}"
      using R(4) unfolding bk by simp
    show "fst ` user_blocks (kv_perfect kv) p' = insert a (kv_live cfg kv - {o'}) \<union> snd ` set q'"
      "insert a (kv_live cfg kv - {o'}) \<inter> snd ` set q' = {}"
      unfolding bk using kept_image [OF 1 2 ol(1) nl(1,2) I(8) 3] by simp_all
  qed
  have fr: "same_frame p p'" using Recycle_frame [OF R(1)] .
  define v where "v = SetShmMallocOffset cfg (of_nat a) w"
  define kv' where "kv' = ?kv1\<lparr>kv_recycle := ?r' q', kv_malloc := p', kv_dict := store_val (kv_dict kv) s v\<rparr>"
  have va: "kv_addr cfg v = a" "shm_malloc_offset cfg v = of_nat a" using A by (simp_all add: v_def)
  have vs: "val_at (store_val (kv_dict kv) s v) s = v" using store_val_entries(3) [OF D(1) S(1) S(1)] by simp
  have dict: "ready (store_val (kv_dict kv) s v)" "abs_map (store_val (kv_dict kv) s v) = (abs_map (kv_dict kv))(key \<mapsto> v)"
    using inv_store_val [OF D(1) S(1)] abs_store_val [OF D(1) S(1)] S D by (auto simp: ready_def)
  have kb: "kv_blocks kv' = user_blocks (kv_perfect kv) p'" "kv_queue kv' = snd ` set q'"
    by (simp_all add: kv'_def kv_blocks_def kv_queue_def kv_perfect_def)
  have vl: "kv_value kv' x = kv_value ?kv1 x" "kv_len kv' x = kv_len ?kv1 x" "pool_ints p' = pool_ints p" for x
    using fr by (simp_all add: kv'_def kv_value_def kv_len_def same_frame_def)
  have in': "(x, m) \<in> user_blocks (kv_perfect kv) p'"
    if "(x, m) \<in> insert (a, n) (kv_blocks kv)" "x \<in> insert a (kv_live cfg kv - {o'})" for x m
    using that nl I(8) ol(1) unfolding bk by auto
  have "kv_inv b cfg kv' \<and> kv_map cfg kv' = (kv_map cfg kv)(key \<mapsto> log)"
  proof (rule kv_inv_update [OF inv, where kv' = kv' and h' = "store_val (kv_dict kv) s v" and p' = p' and r' = "?r' q'" and
        bs' = "memcpy a log (kv_bytes kv)" and v = v])
    show "(\<exists>n \<ge> kv_len kv' x. (x, n) \<in> kv_blocks kv') \<and> (kv_pre_known kv = 0 \<longrightarrow> pool_ints p' (x - 8) = Some (int (kv_len kv' x)))"
      if "x \<in> kv_live cfg kv - old_addr cfg kv key \<or> x = kv_addr cfg v" for x
    proof (cases "x = a")
      case True
      then show ?thesis using B(6-8) in' [of a n] by (auto simp: vl kb)
    next
      case False
      then have x: "x \<in> kv_live cfg kv" "x \<in> insert a (kv_live cfg kv - {o'})" using that by (auto simp: va ol(2))
      then show ?thesis using B(9) I(11,12) [OF x(1)] in' by (auto simp: vl kb)
    qed
    show "kv_value kv' x = kv_value kv x" if "x \<in> kv_live cfg kv - old_addr cfg kv key" for x
      using that B(9) by (simp add: vl)
  qed (use R(2,3,5) K fr B(2,3,10) dict nl vl pool_fits_frame [OF fr] in \<open>simp_all add: kv'_def va ol(2) kv_blocks_def kv_queue_def kv_perfect_def same_frame_def\<close>)
  moreover have "PetKV_Update cfg key log kv = Returns (True, kv')"
    using GetInternal_hit [OF D(1) S(1)] S new A R(1) vs va
    by (simp add: PetKV_Update_def GetReturnPtr_def update_entry_def FREE_SHM_def kv'_def v_def kv_perfect_def o'_def kv_addr_def)
  ultimately show ?thesis by (intro exI [of _ kv']) (simp add: kv'_def)
qed

end
