(* ===== verification/Pet_KV_Open.thy ===== *)
theory Pet_KV_Open
  imports Pet_KV
begin

text \<open>
  What a client of \<open>PetKV\<close> observes: lookups after updates, and what opening the files of a store again
  recovers.
\<close>

section \<open>Lookup\<close>

lemma PetKV_Get_miss:
  assumes "kv_inv b cfg kv" and "kv_map cfg kv key = None"
  shows "PetKV_Get cfg key kv = Returns \<lparr>rd_expire_timet = 0, rd_data = None, rd_size = 0\<rparr>"
proof -
  have "PetHash_Get (kv_dict kv) key = Returns None"
    using PetHash_Get_abs [where h = "kv_dict kv" and key = key and P = "{}"] kv_invD(2) [OF assms(1)] assms(2) by (simp add: ready_def kv_map_def)
  then show ?thesis by (simp add: PetKV_Get_def)
qed

lemma PetKV_Get_hit:
  assumes "kv_inv b cfg kv" and "kv_map cfg kv key = Some log"
  shows "\<exists>off e. PetKV_Get cfg key kv = Returns \<lparr>rd_expire_timet = e, rd_data = Some off, rd_size = int (length log)\<rparr> \<and>
    map (kv_bytes kv) [unat off..<unat off + length log] = log"
proof -
  obtain v where v: "abs_map (kv_dict kv) key = Some v" "log = kv_value kv (kv_addr cfg v)"
    using assms(2) by (auto simp: kv_map_def)
  have "PetHash_Get (kv_dict kv) key = Returns (Some v)"
    using PetHash_Get_abs [where h = "kv_dict kv" and key = key and P = "{}"] kv_invD(2) [OF assms(1)] v by (simp add: ready_def)
  moreover have a: "kv_addr cfg v \<in> kv_live cfg kv" using v(1) by (auto simp: kv_live_def ran_def)
  have "GetMallocSize False (kv_addr cfg v) (kv_malloc kv) = Returns (int (kv_len kv (kv_addr cfg v)))" if "kv_pre_known kv = 0"
    using kv_invD(11,12) [OF assms(1) a] that kv_invD(3) [OF assms(1)]
    by (auto simp: GetMallocSize_def kv_blocks_def kv_perfect_def user_blocks_False kMetaDataSize_def)
  moreover have "length log = kv_len kv (kv_addr cfg v)" using v(2) by (simp add: kv_value_def)
  ultimately show ?thesis
    using v(2) by (cases "kv_pre_known kv = 0") (auto simp: PetKV_Get_def kv_addr_def kv_value_def kv_len_def)
qed

section \<open>Opening the files of a closed store\<close>

lemma settled_rebuilt:
  assumes "recoverable h" and "settled h"
  shows "settled (inc_all (rebuilt h n) ps)"
proof -
  have "\<not> is_migrating (chunk_table (inc_all (rebuilt h n) ps) ! q)" if "q < nchunks h" for q
  proof -
    have "\<not> is_migrating (chunk_table h ! q)" using that assms(2) by (simp add: settled_def nchunks_def)
    then show ?thesis using rebuilt_chunk(3) [OF assms(1) that, of n] that by (simp add: nth_inc_all IncOverflow_pow)
  qed
  moreover have "length (chunk_table (inc_all (rebuilt h n) ps)) = nchunks h"
    unfolding nchunks_def [symmetric] by simp
  ultimately show ?thesis by (auto simp: settled_def in_set_conv_nth)
qed

lemma card_user_blocks:
  assumes "pool_inv p"
  shows "card (fst ` user_blocks perfect_fit p) = card (pool_blocks p)"
proof -
  have "inj_on fst (user_blocks perfect_fit p)"
    using pool.block_unique [OF assms] by (auto simp: inj_on_def)
  then have "card (fst ` user_blocks perfect_fit p) = card (user_blocks perfect_fit p)" by (rule card_image)
  also have "\<dots> = card (pool_blocks p)"
    using pool_block_unique [OF assms]
    by (auto simp: user_blocks_def intro!: card_image inj_onI)
  finally show ?thesis .
qed

lemma kv_card_live:
  assumes "kv_inv b cfg kv"
  shows "card (kv_live cfg kv) = unat (dict_size (kv_dict kv))"
proof -
  have "kv_live cfg kv = (\<lambda>k. kv_addr cfg (the (abs_map (kv_dict kv) k))) ` dom (abs_map (kv_dict kv))"
    by (force simp: kv_live_def ran_def)
  then have "card (kv_live cfg kv) = card (dom (abs_map (kv_dict kv)))" using card_image [OF kv_invD(6) [OF assms]] by simp
  also have "\<dots> = card (used (kv_dict kv))"
    using kv_invD(2) [OF assms] pet_invpD(4) by (auto simp: dom_abs_map ready_def intro!: card_image)
  finally show ?thesis using kv_invD(2) [OF assms] pet_invpD(5) by (auto simp: ready_def)
qed

lemma live_queue_total:
  assumes "kv_inv b cfg kv"
  shows "total_malloc (kv_malloc kv) = int (unat (dict_size (kv_dict kv))) + int (length (er_recycle_ptr (kv_recycle kv)))"
proof -
  note I = kv_invD [OF assms]
  have "finite (fst ` kv_blocks kv)"
    by (simp add: kv_blocks_def user_blocks_def pool_blocks_def chunk_blocks_def)
  then have "finite (kv_live cfg kv)" "finite (kv_queue kv)" unfolding I(9) by auto
  then have "card (fst ` kv_blocks kv) = card (kv_live cfg kv) + card (kv_queue kv)"
    using I(8,9) by (simp add: card_Un_disjoint)
  moreover have "card (kv_queue kv) = length (er_recycle_ptr (kv_recycle kv))"
    using distinct_card [OF I(7)] by (simp add: kv_queue_def)
  ultimately show ?thesis
    using card_user_blocks [OF I(3)] pool_invD(7) [OF I(3)] kv_card_live [OF assms] by (simp add: kv_blocks_def)
qed

lemma kv_slab_sizes_dvd: "8 dvd pre \<Longrightarrow> s \<in> set (kv_slab_sizes pre) \<Longrightarrow> 8 dvd s"
  by (auto simp: kv_slab_sizes_def split: if_splits)

text \<open>
  What the file of the index and the file of the pool hold when they are opened again with the
  arguments of the first time.
\<close>

definition reopens :: "PetKV \<Rightarrow> nat \<Rightarrow> u64 \<Rightarrow> bool" where
  "reopens kv memory_size dict_cap \<longleftrightarrow> marked (kv_dict kv) \<and> nchunks (kv_dict kv) < 2 ^ 28 \<and>
     OverFallChunkNum dict_cap = Returns (chunk_num (kv_dict kv)) \<and>
     dom (size_to_chunks (kv_malloc kv)) = set (kv_slab_sizes (kv_pre_known kv)) \<and>
     memory_size div kPoolChunkSize = length (chunks (kv_malloc kv)) \<and>
     length (kv_slab_sizes (kv_pre_known kv)) \<le> length (chunks (kv_malloc kv))"

lemma Reload_closed:
  assumes h: "ready h" "marked h" "nchunks h < 2 ^ 31" and t: "0 < threads"
    and n: "OverFallChunkNum cap = Returns (chunk_num h)"
  shows "\<exists>h' log. Reload True threads sched cap True h = Returns (h', log) \<and> ready h' \<and> abs_map h' = abs_map h"
proof -
  have inv: "pet_inv h" "settled h" using h(1) by (simp_all add: ready_def)
  have "torn h h" using chunk_wfD(1) pet_invpD(2) [OF inv(1)] by (auto simp: torn_def)
  note e = torn_entries [OF this h(2) inv(1)]
  have i: "PetHash_Initialize cap True = Returns (empty_table (chunk_num h))"
    using n by (simp add: PetHash_Initialize_def effective_capacity_def empty_table_def)
  have c: "nchunks h = nchunks (empty_table (chunk_num h))"
    using pet_invpD(1) [OF inv(1)] by (simp add: nchunks_empty_table shape_def)
  from Reload_rebuilt [OF e(1) t i c h(3)] obtain m as where
    r: "Reload True threads sched cap True h = Returns (inc_all (rebuilt h m) (incs as), valids as)"
      "pet_inv (inc_all (rebuilt h m) (incs as))"
    by blast
  then show ?thesis
    using settled_rebuilt [OF e(1) inv(2)] abs_inc_all [of "rebuilt h m"] rebuilt_entries(5) [OF e(1), of m] e(2)
    by (simp add: ready_def)
qed

lemma ready_size: "ready h \<Longrightarrow> unat (dict_size h) = card (dom (abs_map h))"
  using pet_invpD(4,5) by (auto simp: dom_abs_map ready_def card_image)

lemma pool_reopened:
  assumes "pool_inv p" and "dom (size_to_chunks p) = set slabs" and "length slabs \<le> length (chunks p)"
    and "memory_size div kPoolChunkSize = length (chunks p)"
  obtains p' where "PersistMemoryPool_new True memory_size slabs (map header (chunks p)) (pool_ints p) = Returns p'"
    "pool_inv p'" "pool_blocks p' = pool_blocks p" "same_frame p p'"
proof -
  let ?hs = "map header (chunks p)" and ?p = "reopened slabs (map header (chunks p)) (pool_ints p) (length (chunks p))"
  have hs: "header_ok h \<and> slab_size h \<in> set slabs" if h: "h \<in> set ?hs" "is_used h" for h
  proof -
    obtain i where i: "i < length (chunks p)" "h = header (chunks p ! i)" using h(1) by (auto simp: in_set_conv_nth)
    then show ?thesis
      using h(2) pool_invD(1,4) [OF assms(1) i(1)] chunk_ok_header assms(2) by (auto simp: SlabSize_def)
  qed
  have "PersistMemoryPool_new True memory_size slabs ?hs (pool_ints p) = Returns ?p"
    using PersistMemoryPool_reopen [of ?hs slabs memory_size "pool_ints p", OF hs] assms(3,4) by simp
  moreover have "pool_inv ?p" using reopened_inv(1) [of ?hs slabs "pool_ints p", OF hs] by simp
  moreover have "pool_blocks ?p = pool_blocks p"
    using reopened_inv(2) [of ?hs slabs "pool_ints p", OF hs] by (simp add: pool_blocks_def chunk_blocks_header)
  moreover have "same_frame p ?p" using assms(2) by (auto simp: same_frame_def reopened_def split: if_splits)
  ultimately show thesis by (rule that)
qed

lemma kv_inv_reopened:
  fixes em :: EpochManager
  assumes inv: "kv_inv b cfg kv" and q: "er_recycle_ptr (kv_recycle kv) = []" and h: "ready h'" "abs_map h' = abs_map (kv_dict kv)"
    and p: "pool_inv p'" "pool_blocks p' = pool_blocks (kv_malloc kv)" "same_frame (kv_malloc kv) p'"
  defines "kv' \<equiv> \<lparr>kv_dict = h', kv_malloc = p', kv_recycle = ShmEpochRecycle_new em, kv_bytes = kv_bytes kv,
      kv_pre_known = kv_pre_known kv\<rparr>"
  shows "kv_inv b cfg kv'" "kv_map cfg kv' = kv_map cfg kv"
proof -
  note I = kv_invD [OF inv]
  have f: "pool_ints p' = pool_ints (kv_malloc kv)" "dom (size_to_chunks p') = dom (size_to_chunks (kv_malloc kv))"
    using p(3) by (simp_all add: same_frame_def)
  have e: "kv_live cfg kv' = kv_live cfg kv" "kv_queue kv' = {}" "kv_blocks kv' = kv_blocks kv" "kv_len kv' = kv_len kv"
    "kv_perfect kv' = kv_perfect kv" "kv_queue kv = {}"
    using h(2) p(2) f q
    by (auto simp: kv'_def kv_live_def kv_queue_def kv_blocks_def kv_len_def kv_perfect_def user_blocks_def ShmEpochRecycle_new_def)
  then show "kv_map cfg kv' = kv_map cfg kv"
    using h(2) by (simp add: kv_map_def fun_eq_iff kv_value_def) (simp add: kv'_def)
  have "queue_ok (kv_recycle kv')" by (simp add: kv'_def ShmEpochRecycle_new_def queue_ok_def)
  then show "kv_inv b cfg kv'"
    using I h p(1) pool_fits_frame [OF p(3)] f unfolding kv_inv_def e
    by (simp add: kv'_def ShmEpochRecycle_new_def)
qed

lemma PetKV_new_reopens:
  fixes em :: EpochManager and sched :: "nat list"
  assumes inv: "kv_inv b cfg kv" and re: "reopens kv memory_size dict_cap" and t: "0 < threads"
  defines "res \<equiv> PetKV_new threads sched em True (map header (chunks (kv_malloc kv))) (pool_ints (kv_malloc kv))
      (kv_bytes kv) (kv_dict kv) memory_size dict_cap (kv_pre_known kv)"
  shows "er_recycle_ptr (kv_recycle kv) = [] \<Longrightarrow> \<exists>kv'. res = Returns kv' \<and> kv_inv b cfg kv' \<and> kv_map cfg kv' = kv_map cfg kv"
    and "er_recycle_ptr (kv_recycle kv) \<noteq> [] \<Longrightarrow> res = Aborts (CheckFailed ''dict_->Size() == total_malloc()'')"
proof -
  note I = kv_invD [OF inv] and R = re [unfolded reopens_def]
  obtain p' where p: "PersistMemoryPool_new True memory_size (kv_slab_sizes (kv_pre_known kv))
      (map header (chunks (kv_malloc kv))) (pool_ints (kv_malloc kv)) = Returns p'"
    "pool_inv p'" "pool_blocks p' = pool_blocks (kv_malloc kv)" "same_frame (kv_malloc kv) p'"
    using pool_reopened [OF I(3), of "kv_slab_sizes (kv_pre_known kv)" memory_size] R by blast
  obtain h' log where h: "Reload True threads sched dict_cap True (kv_dict kv) = Returns (h', log)" "ready h'"
    "abs_map h' = abs_map (kv_dict kv)"
  proof -
    have "nchunks (kv_dict kv) < 2 ^ 31" using R by simp
    then show ?thesis using that Reload_closed [OF I(2) _ _ t, of dict_cap sched] R by blast
  qed
  have "MemorySize dict_cap True = Returns (64 + 320 * chunk_num (kv_dict kv))"
    using R by (simp add: MemorySize_def effective_capacity_def sizeof_PetHash_def sizeof_ChunkT_def mult.commute)
  moreover have "Valid (kv_dict kv) (64 + 320 * chunk_num (kv_dict kv)) = Returns True"
    using Valid_invariant I(2) R by (simp add: ready_def)
  moreover have tm: "total_malloc p' = int (unat (dict_size h')) + int (length (er_recycle_ptr (kv_recycle kv)))"
    using live_queue_total [OF inv] pool_invD(7) [OF I(3)] pool_invD(7) [OF p(2)] p(3)
      ready_size [OF h(2)] ready_size [OF I(2)] h(3) by simp
  have us: "unat (PetHash_Size h') = unat (dict_size h')"
  proof -
    have "card (used (kv_dict kv)) < 2 ^ 32" using card_used_le [of "kv_dict kv"] R by simp
    then have "unat (dict_size h') < 2 ^ 32"
      using ready_size [OF h(2)] ready_size [OF I(2)] h(3) pet_invpD(5) [of "{}" "kv_dict kv"] I(2) by (simp add: ready_def)
    then show ?thesis by (simp add: PetHash_Size_def unsigned_ucast_eq take_bit_nat_eq_self)
  qed
  have "int (unat (PetHash_Size h')) = total_malloc p' \<longleftrightarrow> er_recycle_ptr (kv_recycle kv) = []" unfolding us tm by simp
  ultimately have r: "res = run_bind (run_check (er_recycle_ptr (kv_recycle kv) = []) ''dict_->Size() == total_malloc()'') (\<lambda>_.
       Returns \<lparr>kv_dict = h', kv_malloc = p', kv_recycle = ShmEpochRecycle_new em, kv_bytes = kv_bytes kv,
         kv_pre_known = kv_pre_known kv\<rparr>)"
    using p(1) h(1) by (simp add: res_def PetKV_new_def)
  show "\<exists>kv'. res = Returns kv' \<and> kv_inv b cfg kv' \<and> kv_map cfg kv' = kv_map cfg kv" if "er_recycle_ptr (kv_recycle kv) = []"
    using r kv_inv_reopened [OF inv that h(2,3) p(2-4)] that by (simp add: run_check_def)
  show "res = Aborts (CheckFailed ''dict_->Size() == total_malloc()'')" if "er_recycle_ptr (kv_recycle kv) \<noteq> []"
    using r that by (simp add: run_check_def)
qed

section \<open>Properties\<close>

text \<open>A store over an empty index of two chunks and a pool of one chunk for values of 32000 bytes.\<close>

definition demo_kv :: PetKV where
  "demo_kv = \<lparr>kv_dict = empty_table 2, kv_malloc = demo_pool, kv_recycle = ShmEpochRecycle_new EpochManager_new,
     kv_bytes = (\<lambda>_. 0), kv_pre_known = 32000\<rparr>"

lemma demo_cfg: "\<exists>cfg. PetKVConfig_new 36 = Returns cfg"
  by (simp add: PetKVConfig_new_def Let_def)

lemma demo_kv_inv:
  assumes "PetKVConfig_new 36 = Returns cfg"
  shows "kv_inv 36 cfg demo_kv" "kv_map cfg demo_kv = Map.empty"
proof -
  note e = empty_table_facts [of 2 1, simplified]
  have l: "kv_live cfg demo_kv = {}" by (simp add: kv_live_def demo_kv_def e)
  have "kv_blocks demo_kv = {}" "kv_queue demo_kv = {}"
    using demo_pool_inv by (simp_all add: kv_blocks_def demo_kv_def user_blocks_def kv_queue_def ShmEpochRecycle_new_def)
  moreover have "pool_fits 36 demo_pool" by (simp add: pool_fits_def demo_pool_def kPoolChunkSize_def)
  ultimately show "kv_inv 36 cfg demo_kv"
    using assms l e demo_pool_inv unfolding kv_inv_def l
    by (simp add: demo_kv_def ready_def queue_ok_def ShmEpochRecycle_new_def) (simp add: demo_pool_def)
  show "kv_map cfg demo_kv = Map.empty" by (simp add: kv_map_def demo_kv_def e fun_eq_iff)
qed

lemma demo_kv_not_full: "\<not> Full (kv_dict demo_kv)"
proof -
  note e = empty_table_facts [of 2 1, simplified]
  show ?thesis by (simp add: demo_kv_def Full_iff [OF e(1)] card_used e(4) empty_used_list [of 2 1, simplified])
qed

text \<open>
  (C25) An update of a store whose allocator has room, of a stored key or below the load limit of the
  index, succeeds and changes the value of its key only; afterwards a lookup of a key without a value
  reports a null pointer and a lookup of any other key points at the last value written for it, with
  its length.
\<close>

theorem PetKV_Update_correct:
  assumes "kv_inv b cfg kv" and "New (kv_perfect kv) (length log) (kv_malloc kv) = Returns (a, p)"
    and "key \<in> dom (kv_map cfg kv) \<or> \<not> Full (kv_dict kv)"
    and "unat (current_epoch (er_epoch_manager (kv_recycle kv))) < 2 ^ 64 - 1"
  shows "\<exists>kv'. PetKV_Update cfg key log kv = Returns (True, kv') \<and> kv_inv b cfg kv' \<and>
    kv_map cfg kv' = (kv_map cfg kv)(key \<mapsto> log) \<and>
    (\<forall>k. case kv_map cfg kv' k of
        None \<Rightarrow> PetKV_Get cfg k kv' = Returns \<lparr>rd_expire_timet = 0, rd_data = None, rd_size = 0\<rparr>
      | Some v \<Rightarrow> \<exists>off e. PetKV_Get cfg k kv' = Returns \<lparr>rd_expire_timet = e, rd_data = Some off, rd_size = int (length v)\<rparr> \<and>
          map (kv_bytes kv') [unat off..<unat off + length v] = v)"
proof -
  obtain kv' where u: "PetKV_Update cfg key log kv = Returns (True, kv')" "kv_inv b cfg kv'"
    "kv_map cfg kv' = (kv_map cfg kv)(key \<mapsto> log)"
  proof (cases "abs_map (kv_dict kv) key")
    case None
    then have "\<not> Full (kv_dict kv)" using assms(3) by (auto simp: kv_map_def)
    from Update_miss [OF assms(1,2) None this] show ?thesis using that by blast
  next
    case (Some w)
    from Update_hit [OF assms(1,2) Some assms(4)] show ?thesis using that by blast
  qed
  show ?thesis
    using u PetKV_Get_miss [OF u(2)] PetKV_Get_hit [OF u(2)]
    by (intro exI [of _ kv'] conjI allI) (simp_all split: option.split)
qed

theorem PetKV_Update_correct_witness:
  "\<exists>cfg kv' off e. PetKVConfig_new 36 = Returns cfg \<and> PetKV_Update cfg 5 (replicate 32000 7) demo_kv = Returns (True, kv') \<and>
     PetKV_Get cfg 5 kv' = Returns \<lparr>rd_expire_timet = e, rd_data = Some off, rd_size = 32000\<rparr> \<and>
     map (kv_bytes kv') [unat off..<unat off + 32000] = replicate 32000 7"
proof -
  obtain cfg where c: "PetKVConfig_new 36 = Returns cfg" using demo_cfg by blast
  obtain p where p: "New True 32000 demo_pool = Returns (32, p)" using demo_New by blast
  have n: "New (kv_perfect demo_kv) (length (replicate 32000 (7 :: u8))) (kv_malloc demo_kv) = Returns (32, p)"
    using p by (simp add: demo_kv_def kv_perfect_def)
  have "unat (current_epoch (er_epoch_manager (kv_recycle demo_kv))) < 2 ^ 64 - 1"
    by (simp add: demo_kv_def ShmEpochRecycle_new_def EpochManager_new_def)
  from PetKV_Update_correct [OF demo_kv_inv(1) [OF c] n _ this, of 5] demo_kv_not_full
  obtain kv' where u: "PetKV_Update cfg 5 (replicate 32000 7) demo_kv = Returns (True, kv')"
    "kv_map cfg kv' = (kv_map cfg demo_kv)(5 \<mapsto> replicate 32000 7)"
    "\<forall>k. case kv_map cfg kv' k of
        None \<Rightarrow> PetKV_Get cfg k kv' = Returns \<lparr>rd_expire_timet = 0, rd_data = None, rd_size = 0\<rparr>
      | Some v \<Rightarrow> \<exists>off e. PetKV_Get cfg k kv' = Returns \<lparr>rd_expire_timet = e, rd_data = Some off, rd_size = int (length v)\<rparr> \<and>
          map (kv_bytes kv') [unat off..<unat off + length v] = v"
    by blast
  from spec [OF u(3), of 5] obtain off e where
    "PetKV_Get cfg 5 kv' = Returns \<lparr>rd_expire_timet = e, rd_data = Some off, rd_size = 32000\<rparr>"
    "map (kv_bytes kv') [unat off..<unat off + 32000] = replicate 32000 7"
    unfolding u(2) by auto
  with c u(1) show ?thesis by blast
qed

text \<open>
  (C26) Opening the files of a store again, with the arguments of the first time, any number of recovery
  threads and any interleaving of them: if no freed block was waiting in the recycler, as after the
  destructor, the store has the same contents; if one was waiting, as after a crash, the number of
  blocks found in the pool differs from the number of keys and the constructor fails.
\<close>

theorem PetKV_reopen:
  assumes "kv_inv b cfg kv" and "reopens kv memory_size dict_cap" and "0 < threads"
  shows "if er_recycle_ptr (kv_recycle kv) = []
    then \<exists>kv'. PetKV_new threads sched em True (map header (chunks (kv_malloc kv))) (pool_ints (kv_malloc kv))
        (kv_bytes kv) (kv_dict kv) memory_size dict_cap (kv_pre_known kv) = Returns kv' \<and>
      kv_inv b cfg kv' \<and> kv_map cfg kv' = kv_map cfg kv
    else PetKV_new threads sched em True (map header (chunks (kv_malloc kv))) (pool_ints (kv_malloc kv))
        (kv_bytes kv) (kv_dict kv) memory_size dict_cap (kv_pre_known kv) =
      Aborts (CheckFailed ''dict_->Size() == total_malloc()'')"
  using PetKV_new_reopens [OF assms] by simp

lemma demo_kv_reopens: "reopens demo_kv 2097152 28"
proof -
  note e = empty_table_facts [of 2 1, simplified]
  have "OverFallChunkNum 28 = Returns 2"
    by (simp add: OverFallChunkNum_def Next2Power_def kChunkSize_def kMaxSize_def next2power_loop.simps)
  then show ?thesis
    using marked_empty [of 2] e
    by (simp add: reopens_def demo_kv_def nchunks_empty_table kv_slab_sizes_def demo_pool_def kPoolChunkSize_def)
      (simp add: empty_table_def)
qed

theorem PetKV_reopen_witness:
  "\<exists>cfg kv'. PetKVConfig_new 36 = Returns cfg \<and>
     PetKV_new 4 [3, 1] EpochManager_new True (map header (chunks demo_pool)) (pool_ints demo_pool) (\<lambda>_. 0)
       (empty_table 2) 2097152 28 32000 = Returns kv' \<and> kv_map cfg kv' = Map.empty"
proof -
  obtain cfg where c: "PetKVConfig_new 36 = Returns cfg" using demo_cfg by blast
  have "er_recycle_ptr (kv_recycle demo_kv) = []" by (simp add: demo_kv_def ShmEpochRecycle_new_def)
  with PetKV_reopen [OF demo_kv_inv(1) [OF c] demo_kv_reopens, of 4 "[3, 1]" EpochManager_new] demo_kv_inv(2) [OF c]
  obtain kv' where "PetKV_new 4 [3, 1] EpochManager_new True (map header (chunks demo_pool)) (pool_ints demo_pool) (\<lambda>_. 0)
      (empty_table 2) 2097152 28 32000 = Returns kv'" "kv_map cfg kv' = Map.empty"
    by (auto simp: demo_kv_def)
  with c show ?thesis by blast
qed

end
