(* ===== verification/Kv_Spec.thy ===== *)
theory Kv_Spec
  imports Pet_Prelude
begin

text \<open>
  The contract of a key-value store that its clients rely on, and what a client that spreads the keys
  over several stores gets from it.
\<close>

text \<open>Every key lives in the store its hash selects.\<close>

definition shards_inv :: "('s \<Rightarrow> bool) \<Rightarrow> ('s \<Rightarrow> 'k \<rightharpoonup> 'v) \<Rightarrow> ('k \<Rightarrow> nat) \<Rightarrow> 's list \<Rightarrow> bool" where
  "shards_inv sinv sabs shard ss \<longleftrightarrow> (\<forall>k. shard k < length ss) \<and>
     (\<forall>i < length ss. sinv (ss ! i) \<and> (\<forall>k \<in> dom (sabs (ss ! i)). shard k = i))"

definition shards_abs :: "('s \<Rightarrow> 'k \<rightharpoonup> 'v) \<Rightarrow> ('k \<Rightarrow> nat) \<Rightarrow> 's list \<Rightarrow> 'k \<rightharpoonup> 'v" where
  "shards_abs sabs shard ss k = sabs (ss ! shard k) k"

lemma shards_invD:
  assumes "shards_inv sinv sabs shard ss"
  shows "shard k < length ss" "i < length ss \<Longrightarrow> sinv (ss ! i)" "i < length ss \<Longrightarrow> k \<in> dom (sabs (ss ! i)) \<Longrightarrow> shard k = i"
  using assms by (auto simp: shards_inv_def)

lemma shards_dom:
  assumes "shards_inv sinv sabs shard ss"
  shows "dom (shards_abs sabs shard ss) = (\<Union>i < length ss. dom (sabs (ss ! i)))"
proof (rule set_eqI)
  fix k
  have "k \<in> dom (shards_abs sabs shard ss) \<longleftrightarrow> k \<in> dom (sabs (ss ! shard k))" by (simp add: shards_abs_def dom_def)
  then show "k \<in> dom (shards_abs sabs shard ss) \<longleftrightarrow> k \<in> (\<Union>i < length ss. dom (sabs (ss ! i)))"
    using shards_invD(1,3) [OF assms] by blast
qed

locale value_store =
  fixes sinv :: "'s \<Rightarrow> bool" and sabs :: "'s \<Rightarrow> 'k \<rightharpoonup> 'v" and room :: "'k \<Rightarrow> 'v \<Rightarrow> 's \<Rightarrow> bool"
    and put :: "'k \<Rightarrow> 'v \<Rightarrow> 's \<Rightarrow> (bool \<times> 's) run"
  assumes put_law: "sinv s \<Longrightarrow> room k v s \<Longrightarrow>
      \<exists>s'. put k v s = Returns (True, s') \<and> sinv s' \<and> sabs s' = (sabs s)(k \<mapsto> v)"
    and abs_finite: "sinv s \<Longrightarrow> finite (dom (sabs s))"
begin

lemma shards_put:
  assumes "shards_inv sinv sabs shard ss" and "room k v (ss ! shard k)"
  shows "\<exists>s'. put k v (ss ! shard k) = Returns (True, s') \<and> shards_inv sinv sabs shard (ss[shard k := s']) \<and>
    shards_abs sabs shard (ss[shard k := s']) = (shards_abs sabs shard ss)(k \<mapsto> v)"
proof -
  note S = shards_invD [OF assms(1)]
  have i: "shard k < length ss" "sinv (ss ! shard k)" using S by auto
  obtain s' where s: "put k v (ss ! shard k) = Returns (True, s')" "sinv s'" "sabs s' = (sabs (ss ! shard k))(k \<mapsto> v)"
    using put_law [OF i(2) assms(2)] by blast
  have "shards_inv sinv sabs shard (ss[shard k := s'])"
    unfolding shards_inv_def
  proof (intro conjI allI impI ballI)
    fix j assume j: "j < length (ss[shard k := s'])"
    show "sinv (ss[shard k := s'] ! j)" using j S(2) s(2) by (cases "j = shard k") auto
    fix l assume l: "l \<in> dom (sabs (ss[shard k := s'] ! j))"
    show "shard l = j"
    proof (cases "j = shard k")
      case True
      then show ?thesis using l s(3) S(3) [OF i(1), of l] i(1) by (auto split: if_splits)
    next
      case False
      then show ?thesis using l j S(3) [of j l] by simp
    qed
  qed (use S(1) in simp)
  moreover have "shards_abs sabs shard (ss[shard k := s']) l = ((shards_abs sabs shard ss)(k \<mapsto> v)) l" for l
    using s(3) i(1) by (cases "shard l = shard k") (auto simp: shards_abs_def)
  ultimately show ?thesis using s(1) by blast
qed

lemma shards_card:
  assumes "shards_inv sinv sabs shard ss"
  shows "card (dom (shards_abs sabs shard ss)) = (\<Sum>s \<leftarrow> ss. card (dom (sabs s)))"
proof -
  note S = shards_invD [OF assms]
  have "dom (sabs (ss ! i)) \<inter> dom (sabs (ss ! j)) = {}" if "i < length ss" "j < length ss" "i \<noteq> j" for i j
    using S(3) that by blast
  then have "card (\<Union>i < length ss. dom (sabs (ss ! i))) = (\<Sum>i < length ss. card (dom (sabs (ss ! i))))"
    using S(2) abs_finite by (intro card_UN_disjoint) auto
  then show ?thesis unfolding shards_dom [OF assms] by (simp add: sum_list_sum_nth atLeast0LessThan)
qed

end

end
