(* ===== verification/Pet_MultiKV.thy ===== *)
theory Pet_MultiKV
  imports Pet_KV_Open Kv_Spec Base_Files
begin

text \<open>
  The sharded store (\<open>src/src/pet_kv/pet_kv.h\<close> and \<open>pet_kv.cc\<close>: \<open>PetMultiKV\<close>): a hash of the key selects one
  of several stores, each with a directory of its own. CityHash is a parameter.
\<close>

section \<open>State and operations\<close>

record PetMultiKV =
  mk_shm_dir :: "string list"
  mk_shard_num :: nat
  mk_shm_kv :: "PetKV list"
  mk_pre_known :: nat

type_synonym city_hash = "u8 list \<Rightarrow> u64 \<Rightarrow> u64 \<Rightarrow> u64"

definition GetShard :: "city_hash \<Rightarrow> nat \<Rightarrow> u64 \<Rightarrow> nat" where
  "GetShard city shard_num key = unat (GetHashWithLevel city key 1 mod of_nat shard_num)"

definition shard_dir :: "string list \<Rightarrow> nat \<Rightarrow> string" where
  "shard_dir dirs shard_id = dirs ! (shard_id mod length dirs) @ ''/'' @ IntToString (int shard_id)"

definition PetMultiKV_Update ::
  "PetKVConfig \<Rightarrow> city_hash \<Rightarrow> u64 \<Rightarrow> u8 list \<Rightarrow> PetMultiKV \<Rightarrow> (bool \<times> PetMultiKV) run" where
  "PetMultiKV_Update cfg city key log mk =
     (let i = GetShard city (mk_shard_num mk) key in
      run_bind (PetKV_Update cfg key log (mk_shm_kv mk ! i)) (\<lambda>(r, kv).
        Returns (r, mk\<lparr>mk_shm_kv := (mk_shm_kv mk)[i := kv]\<rparr>)))"

definition PetMultiKV_Get :: "PetKVConfig \<Rightarrow> city_hash \<Rightarrow> u64 \<Rightarrow> PetMultiKV \<Rightarrow> PetKVReadData run" where
  "PetMultiKV_Get cfg city key mk = PetKV_Get cfg key (mk_shm_kv mk ! GetShard city (mk_shard_num mk) key)"

text \<open>
  What \<open>BatchGet\<close> appends for a key: an array of floats in the value file of a shard, or in the buffer of
  16384 zeros.
\<close>

datatype float_array = InShard nat u64 int | InZeros int

definition batch_item :: "PetKVConfig \<Rightarrow> city_hash \<Rightarrow> PetMultiKV \<Rightarrow> u64 \<Rightarrow> float_array run" where
  "batch_item cfg city mk key =
     run_bind (PetMultiKV_Get cfg city key mk) (\<lambda>read_data.
       if rd_size read_data = 0 then Returns (InZeros (int (mk_pre_known mk) div 4))
       else case rd_data read_data of
              Some p \<Rightarrow> Returns (InShard (GetShard city (mk_shard_num mk) key) p (rd_size read_data div 4))
            | None \<Rightarrow> Aborts (NullDeref ''read_data.data''))"

fun PetMultiKV_BatchGet ::
  "PetKVConfig \<Rightarrow> city_hash \<Rightarrow> PetMultiKV \<Rightarrow> u64 list \<Rightarrow> float_array list \<Rightarrow> float_array list run" where
  "PetMultiKV_BatchGet cfg city mk [] values = Returns values"
| "PetMultiKV_BatchGet cfg city mk (key # keys) values =
     run_bind (batch_item cfg city mk key) (\<lambda>v. PetMultiKV_BatchGet cfg city mk keys (values @ [v]))"

definition PetMultiKV_key_num :: "PetMultiKV \<Rightarrow> int" where
  "PetMultiKV_key_num mk = (\<Sum>kv \<leftarrow> mk_shm_kv mk. int (unat (key_num kv)))"

fun info_loop :: "nat \<Rightarrow> PetKV list \<Rightarrow> (string \<times> u32 \<times> u32 \<times> nat \<times> nat \<times> int) list run" where
  "info_loop shard [] = Returns []"
| "info_loop shard (kv # kvs) =
     run_bind (PetKV_GetInfo kv) (\<lambda>i.
     run_bind (info_loop (Suc shard) kvs) (\<lambda>info. Returns ((''shard '' @ IntToString (int shard), i) # info)))"

definition PetMultiKV_GetInfo :: "PetMultiKV \<Rightarrow> (string \<times> u32 \<times> u32 \<times> nat \<times> nat \<times> int) list run" where
  "PetMultiKV_GetInfo mk = info_loop 0 (mk_shm_kv mk)"

section \<open>Opening and closing\<close>

text \<open>
  The number of bits for offsets. \<open>1LL << 63\<close> is negative; \<open>1LL << 64\<close> is undefined.
\<close>

definition shl1 :: "nat \<Rightarrow> int run" where
  "shl1 i = (if i < 63 then Returns (2 ^ i) else if i = 63 then Returns (- (2 ^ 63)) else Aborts (Undefined ''shift''))"

function config_loop :: "int \<Rightarrow> nat \<Rightarrow> PetKVConfig \<Rightarrow> PetKVConfig run" where
  "config_loop shard_memory i kConfig =
     (if i \<le> 64
      then run_bind (shl1 i) (\<lambda>s.
        if s > shard_memory then PetKVConfig_new (i - 3) else config_loop shard_memory (i + 1) kConfig)
      else Returns kConfig)"
  by auto
termination by (relation "measure (\<lambda>(m, i, c). 65 - i)") auto

declare config_loop.simps [simp del]

definition select_config :: "int \<Rightarrow> PetKVConfig \<Rightarrow> PetKVConfig run" where
  "select_config shard_memory kConfig =
     (if shard_memory \<ge> 2 ^ 35 then config_loop shard_memory 36 kConfig else Returns kConfig)"

text \<open>What the files of a shard hold when they are opened, as in \<^const>\<open>PetKV_new\<close>.\<close>

record shard_files =
  sf_exists :: bool
  sf_headers :: "ChunkHeader list"
  sf_ints :: "nat \<rightharpoonup> int"
  sf_bytes :: "nat \<Rightarrow> u8"
  sf_dict :: PetHash

definition LoadShard ::
  "nat \<Rightarrow> nat list \<Rightarrow> EpochManager \<Rightarrow> (string \<Rightarrow> shard_files) \<Rightarrow> string list \<Rightarrow> nat \<Rightarrow> u64 \<Rightarrow> nat \<Rightarrow> nat \<Rightarrow> PetKV run" where
  "LoadShard threads sched em files dirs shard_memory cap pre_known shard =
     (let f = files (shard_dir dirs shard)
      in PetKV_new threads sched em (sf_exists f) (sf_headers f) (sf_ints f) (sf_bytes f) (sf_dict f)
           shard_memory cap pre_known)"

fun load_shards :: "(nat \<Rightarrow> PetKV run) \<Rightarrow> nat list \<Rightarrow> PetKV list run" where
  "load_shards load [] = Returns []"
| "load_shards load (i # is) = run_bind (load i) (\<lambda>kv. run_bind (load_shards load is) (\<lambda>kvs. Returns (kv # kvs)))"

fun create_dirs :: "string list \<Rightarrow> file_system \<Rightarrow> file_system run" where
  "create_dirs [] fs = Returns fs"
| "create_dirs (d # ds) fs = run_bind (CreateDirectory d fs) (\<lambda>(r, fs). create_dirs ds fs)"

definition PetMultiKV_new ::
  "nat \<Rightarrow> nat list \<Rightarrow> EpochManager \<Rightarrow> (string \<Rightarrow> shard_files) \<Rightarrow> PetKVConfig \<Rightarrow> file_system \<Rightarrow>
   string list \<Rightarrow> nat \<Rightarrow> nat \<Rightarrow> u64 \<Rightarrow> nat \<Rightarrow> (PetMultiKV \<times> PetKVConfig \<times> file_system) run" where
  "PetMultiKV_new threads sched em files kConfig fs dirs shard_num shard_memory cap pre_known =
     run_bind (run_check (dirs \<noteq> []) ''!shm_dir_.empty()'') (\<lambda>_.
     run_bind (create_dirs dirs fs) (\<lambda>fs.
     run_bind (select_config (int shard_memory) kConfig) (\<lambda>kConfig.
     run_bind (load_shards (LoadShard threads sched em files dirs shard_memory cap pre_known) [0..<shard_num]) (\<lambda>kvs.
       Returns (\<lparr>mk_shm_dir = dirs, mk_shard_num = shard_num, mk_shm_kv = kvs, mk_pre_known = pre_known\<rparr>, kConfig, fs)))))"

fun close_shards :: "PetKV list \<Rightarrow> PetKV list run" where
  "close_shards [] = Returns []"
| "close_shards (kv # kvs) = run_bind (PetKV_close kv) (\<lambda>kv. run_bind (close_shards kvs) (\<lambda>kvs. Returns (kv # kvs)))"

definition PetMultiKV_close :: "PetMultiKV \<Rightarrow> PetMultiKV run" where
  "PetMultiKV_close mk = run_bind (close_shards (mk_shm_kv mk)) (\<lambda>kvs. Returns (mk\<lparr>mk_shm_kv := kvs\<rparr>))"

section \<open>The configuration\<close>

lemma config_loop_finds:
  assumes "i \<le> n" and "n \<le> 62" and "shard_memory < 2 ^ n" and "\<forall>j. i \<le> j \<and> j < n \<longrightarrow> 2 ^ j \<le> shard_memory"
  shows "config_loop shard_memory i c = PetKVConfig_new (n - 3)"
  using assms
proof (induction "n - i" arbitrary: i)
  case 0
  then show ?case by (subst config_loop.simps) (simp add: shl1_def)
next
  case (Suc d)
  then have "config_loop shard_memory (Suc i) c = PetKVConfig_new (n - 3)" by auto
  then show ?case using Suc.prems Suc.hyps(2) by (subst config_loop.simps) (auto simp: shl1_def not_less)
qed

text \<open>Whatever size up to \<open>2 ^ 62\<close> the shards have, the offsets of the configuration reach all of it.\<close>

lemma select_config_fits:
  assumes "2 ^ 35 \<le> shard_memory" and "shard_memory < 2 ^ 62"
  shows "\<exists>n cfg. select_config shard_memory c = Returns cfg \<and> PetKVConfig_new (n - 3) = Returns cfg \<and>
    36 \<le> n \<and> n \<le> 62 \<and> shard_memory < 2 ^ n \<and> 2 ^ (n - 1) \<le> shard_memory"
proof -
  define n where "n = (LEAST n. shard_memory < 2 ^ n)"
  have l: "shard_memory < 2 ^ n" unfolding n_def by (rule LeastI [of _ 62]) (use assms in simp)
  have n62: "n \<le> 62" unfolding n_def by (rule Least_le) (use assms in simp)
  have b: "2 ^ j \<le> shard_memory" if "j < n" for j using not_less_Least [of j "\<lambda>n. shard_memory < 2 ^ n"] that by (auto simp: n_def not_less)
  have "n > 35"
  proof (rule ccontr)
    assume "\<not> n > 35"
    then have "(2 :: int) ^ n \<le> 2 ^ 35" by (intro power_increasing) auto
    then show False using l assms(1) by linarith
  qed
  then have n: "36 \<le> n" "n - 1 < n" by auto
  have "select_config shard_memory c = PetKVConfig_new (n - 3)"
    using config_loop_finds [OF n(1) n62 l] b assms(1) by (simp add: select_config_def)
  moreover have "\<exists>cfg. PetKVConfig_new (n - 3) = Returns cfg" using n(1) n62 by (auto simp: PetKVConfig_new_def Let_def run_check_def)
  ultimately show ?thesis using n(1) n62 l b [OF n(2)] by (intro exI [of _ n]) auto
qed

text \<open>Different shards have different directories.\<close>

lemma shard_dir_inj:
  assumes "shard_dir dirs i = shard_dir dirs j"
  shows "i = j"
proof -
  have last: "rev (takeWhile (\<lambda>c. c \<noteq> CHR ''/'') (rev (d @ ''/'' @ x))) = x" if "CHR ''/'' \<notin> set x" for d x
  proof -
    have "takeWhile (\<lambda>c. c \<noteq> CHR ''/'') (rev x @ CHR ''/'' # rev d) = rev x"
      using that by (subst takeWhile_append2) auto
    then show ?thesis by simp
  qed
  note l = last [OF IntToString_no_slash]
  have "IntToString (int i) = IntToString (int j)"
    using arg_cong [OF assms, of "\<lambda>p. rev (takeWhile (\<lambda>c. c \<noteq> CHR ''/'') (rev p))"] unfolding shard_dir_def l .
  then show ?thesis by (simp add: IntToString_eq)
qed

section \<open>The shards together\<close>

definition kv_room :: "PetKVConfig \<Rightarrow> u64 \<Rightarrow> u8 list \<Rightarrow> PetKV \<Rightarrow> bool" where
  "kv_room cfg key log kv \<longleftrightarrow> (\<exists>a p. New (kv_perfect kv) (length log) (kv_malloc kv) = Returns (a, p)) \<and>
     (key \<in> dom (kv_map cfg kv) \<or> \<not> Full (kv_dict kv)) \<and>
     unat (current_epoch (er_epoch_manager (kv_recycle kv))) < 2 ^ 64 - 1"

lemma kv_dom: "dom (kv_map cfg kv) = dom (abs_map (kv_dict kv))"
  by (auto simp: kv_map_def)

interpretation petkv: value_store "kv_inv b cfg" "kv_map cfg" "kv_room cfg" "PetKV_Update cfg" for b cfg
proof unfold_locales
  fix kv k log
  assume inv: "kv_inv b cfg kv" and r: "kv_room cfg k log kv"
  then obtain a p where n: "New (kv_perfect kv) (length log) (kv_malloc kv) = Returns (a, p)" by (auto simp: kv_room_def)
  show "\<exists>kv'. PetKV_Update cfg k log kv = Returns (True, kv') \<and> kv_inv b cfg kv' \<and> kv_map cfg kv' = (kv_map cfg kv)(k \<mapsto> log)"
  proof (cases "abs_map (kv_dict kv) k")
    case None
    then have "\<not> Full (kv_dict kv)" using r by (auto simp: kv_room_def kv_dom)
    from Update_miss [OF inv n None this] show ?thesis by blast
  next
    case (Some w)
    have "unat (current_epoch (er_epoch_manager (kv_recycle kv))) < 2 ^ 64 - 1" using r by (simp add: kv_room_def)
    from Update_hit [OF inv n Some this] show ?thesis by blast
  qed
next
  fix kv assume "kv_inv b cfg kv"
  then show "finite (dom (kv_map cfg kv))" unfolding kv_dom by (simp add: dom_abs_map used_def)
qed

definition mk_inv :: "nat \<Rightarrow> PetKVConfig \<Rightarrow> city_hash \<Rightarrow> PetMultiKV \<Rightarrow> bool" where
  "mk_inv b cfg city mk \<longleftrightarrow> length (mk_shm_kv mk) = mk_shard_num mk \<and>
     shards_inv (kv_inv b cfg) (kv_map cfg) (GetShard city (mk_shard_num mk)) (mk_shm_kv mk)"

definition mk_map :: "PetKVConfig \<Rightarrow> city_hash \<Rightarrow> PetMultiKV \<Rightarrow> u64 \<rightharpoonup> u8 list" where
  "mk_map cfg city mk = shards_abs (kv_map cfg) (GetShard city (mk_shard_num mk)) (mk_shm_kv mk)"

text \<open>The bytes behind an array of \<open>BatchGet\<close>.\<close>

fun array_bytes :: "PetMultiKV \<Rightarrow> float_array \<Rightarrow> u8 list" where
  "array_bytes mk (InShard i p n) = map (kv_bytes (mk_shm_kv mk ! i)) [unat p..<unat p + 4 * nat n]"
| "array_bytes mk (InZeros n) = replicate (4 * nat n) 0"

text \<open>What the caller of \<open>BatchGet\<close> reads for a key: zeros if it has no value or an empty one.\<close>

definition batch_value :: "nat \<Rightarrow> u8 list option \<Rightarrow> u8 list" where
  "batch_value pre_known r =
     (case r of
        None \<Rightarrow> replicate (4 * (pre_known div 4)) 0
      | Some v \<Rightarrow> if v = [] then replicate (4 * (pre_known div 4)) 0 else take (4 * (length v div 4)) v)"

lemma batch_item_value:
  assumes "mk_inv b cfg city mk"
  shows "\<exists>a. batch_item cfg city mk key = Returns a \<and> array_bytes mk a = batch_value (mk_pre_known mk) (mk_map cfg city mk key)"
proof -
  let ?kv = "mk_shm_kv mk ! GetShard city (mk_shard_num mk) key"
  have inv: "kv_inv b cfg ?kv" using assms shards_invD(1,2) by (fastforce simp: mk_inv_def)
  have m: "mk_map cfg city mk key = kv_map cfg ?kv key" by (simp add: mk_map_def shards_abs_def)
  show ?thesis
  proof (cases "kv_map cfg ?kv key")
    case None
    then show ?thesis
      using PetKV_Get_miss [OF inv None] by (simp add: batch_item_def PetMultiKV_Get_def batch_value_def m nat_div_distrib)
  next
    case (Some v)
    obtain off e where g: "PetKV_Get cfg key ?kv = Returns \<lparr>rd_expire_timet = e, rd_data = Some off, rd_size = int (length v)\<rparr>"
      "map (kv_bytes ?kv) [unat off..<unat off + length v] = v"
      using PetKV_Get_hit [OF inv Some] by blast
    have "map (kv_bytes ?kv) [unat off..<unat off + 4 * (length v div 4)] = take (4 * (length v div 4)) v"
    proof -
      have "take (4 * (length v div 4)) (map (kv_bytes ?kv) [unat off..<unat off + length v]) =
          map (kv_bytes ?kv) [unat off..<unat off + 4 * (length v div 4)]"
        by (simp add: take_map take_upt)
      then show ?thesis using g(2) by simp
    qed
    then show ?thesis
      using g(1) Some by (auto simp: batch_item_def PetMultiKV_Get_def batch_value_def m nat_div_distrib)
  qed
qed

lemma BatchGet_values:
  assumes "mk_inv b cfg city mk"
  shows "\<exists>as. PetMultiKV_BatchGet cfg city mk keys values = Returns (values @ as) \<and>
    map (array_bytes mk) as = map (\<lambda>k. batch_value (mk_pre_known mk) (mk_map cfg city mk k)) keys"
proof (induction keys arbitrary: "values")
  case (Cons k keys)
  obtain a where a: "batch_item cfg city mk k = Returns a" "array_bytes mk a = batch_value (mk_pre_known mk) (mk_map cfg city mk k)"
    using batch_item_value [OF assms] by blast
  obtain as where "PetMultiKV_BatchGet cfg city mk keys (values @ [a]) = Returns ((values @ [a]) @ as)"
    "map (array_bytes mk) as = map (\<lambda>k. batch_value (mk_pre_known mk) (mk_map cfg city mk k)) keys"
    using Cons.IH by blast
  with a show ?case by (intro exI [of _ "a # as"]) simp
qed simp

lemma sum_list_int: "(\<Sum>x \<leftarrow> xs. int (f x)) = int (\<Sum>x \<leftarrow> xs. f x)"
  by (induction xs) simp_all

text \<open>The number of keys of the store is that of its map, while no shard holds \<open>2 ^ 32\<close> keys.\<close>

lemma key_num_card:
  assumes "mk_inv b cfg city mk" and "\<And>kv. kv \<in> set (mk_shm_kv mk) \<Longrightarrow> unat (dict_size (kv_dict kv)) < 2 ^ 32"
  shows "PetMultiKV_key_num mk = int (card (dom (mk_map cfg city mk)))"
proof -
  have "int (unat (key_num kv)) = int (card (dom (kv_map cfg kv)))" if kv: "kv \<in> set (mk_shm_kv mk)" for kv
  proof -
    obtain i where "i < length (mk_shm_kv mk)" "kv = mk_shm_kv mk ! i" using kv by (auto simp: in_set_conv_nth)
    then have "kv_inv b cfg kv" using assms(1) shards_invD(2) by (fastforce simp: mk_inv_def)
    then have "unat (dict_size (kv_dict kv)) = card (dom (kv_map cfg kv))"
      unfolding kv_dom by (intro ready_size kv_invD(2))
    moreover have "unat (key_num kv) = unat (dict_size (kv_dict kv))"
      using assms(2) [OF kv] by (simp add: key_num_def PetHash_Size_def unsigned_ucast_eq take_bit_nat_eq_self)
    ultimately show ?thesis by simp
  qed
  then have "PetMultiKV_key_num mk = (\<Sum>kv \<leftarrow> mk_shm_kv mk. int (card (dom (kv_map cfg kv))))"
    unfolding PetMultiKV_key_num_def by (intro arg_cong [of _ _ sum_list] map_cong) auto
  also have "\<dots> = int (\<Sum>kv \<leftarrow> mk_shm_kv mk. card (dom (kv_map cfg kv)))" by (rule sum_list_int)
  finally show ?thesis
    using petkv.shards_card [of b cfg "GetShard city (mk_shard_num mk)" "mk_shm_kv mk"] assms(1) by (simp add: mk_map_def mk_inv_def)
qed

lemma PetMultiKV_Update_map:
  assumes "mk_inv b cfg city mk" and "kv_room cfg key log (mk_shm_kv mk ! GetShard city (mk_shard_num mk) key)"
  shows "\<exists>mk'. PetMultiKV_Update cfg city key log mk = Returns (True, mk') \<and> mk_inv b cfg city mk' \<and>
    mk_map cfg city mk' = (mk_map cfg city mk)(key \<mapsto> log) \<and> mk_pre_known mk' = mk_pre_known mk"
proof -
  let ?i = "GetShard city (mk_shard_num mk) key"
  obtain kv' where kv: "PetKV_Update cfg key log (mk_shm_kv mk ! ?i) = Returns (True, kv')"
    "shards_inv (kv_inv b cfg) (kv_map cfg) (GetShard city (mk_shard_num mk)) ((mk_shm_kv mk)[?i := kv'])"
    "shards_abs (kv_map cfg) (GetShard city (mk_shard_num mk)) ((mk_shm_kv mk)[?i := kv']) = (mk_map cfg city mk)(key \<mapsto> log)"
    using petkv.shards_put [where ss = "mk_shm_kv mk" and shard = "GetShard city (mk_shard_num mk)", OF _ assms(2)] assms(1)
    by (auto simp: mk_inv_def mk_map_def)
  let ?mk = "mk\<lparr>mk_shm_kv := (mk_shm_kv mk)[?i := kv']\<rparr>"
  have "PetMultiKV_Update cfg city key log mk = Returns (True, ?mk)" using kv(1) by (simp add: PetMultiKV_Update_def)
  moreover have i: "mk_inv b cfg city ?mk" using assms(1) kv(2) by (simp add: mk_inv_def)
  moreover have "mk_map cfg city ?mk = (mk_map cfg city mk)(key \<mapsto> log)" using kv(3) by (simp add: mk_map_def)
  ultimately show ?thesis by (intro exI [of _ ?mk]) simp
qed

section \<open>Properties\<close>

text \<open>
  (C27) The sharded store behaves as one map, whatever the hash function is: an update of a shard with room
  changes the value of its key only, in all shards together, and afterwards \<open>BatchGet\<close> of any keys
  returns in order the values of the map, cut to whole floats, and zeros for keys without a value.
\<close>

theorem PetMultiKV_refines_map:
  assumes "mk_inv b cfg city mk" and "kv_room cfg key log (mk_shm_kv mk ! GetShard city (mk_shard_num mk) key)"
  shows "\<exists>mk'. PetMultiKV_Update cfg city key log mk = Returns (True, mk') \<and> mk_inv b cfg city mk' \<and>
    mk_map cfg city mk' = (mk_map cfg city mk)(key \<mapsto> log) \<and>
    (\<forall>keys. \<exists>as. PetMultiKV_BatchGet cfg city mk' keys [] = Returns as \<and>
       map (array_bytes mk') as = map (\<lambda>k. batch_value (mk_pre_known mk) (mk_map cfg city mk' k)) keys)"
proof -
  obtain mk' where u: "PetMultiKV_Update cfg city key log mk = Returns (True, mk')" and i: "mk_inv b cfg city mk'"
    and m: "mk_map cfg city mk' = (mk_map cfg city mk)(key \<mapsto> log)" "mk_pre_known mk' = mk_pre_known mk"
    using PetMultiKV_Update_map [OF assms] by blast
  have "\<exists>as. PetMultiKV_BatchGet cfg city mk' keys [] = Returns as \<and>
      map (array_bytes mk') as = map (\<lambda>k. batch_value (mk_pre_known mk) (mk_map cfg city mk' k)) keys" for keys
    using BatchGet_values [OF i, of keys "[]"] m(2) by simp
  then show ?thesis using u i m(1) by blast
qed

definition demo_mk :: PetMultiKV where
  "demo_mk = \<lparr>mk_shm_dir = [''/a'', ''/b''], mk_shard_num = 2, mk_shm_kv = [demo_kv, demo_kv], mk_pre_known = 32000\<rparr>"

theorem PetMultiKV_refines_map_witness:
  "\<exists>cfg mk' as. PetKVConfig_new 36 = Returns cfg \<and>
     PetMultiKV_Update cfg (\<lambda>bs s l. 5) 9 (replicate 32000 7) demo_mk = Returns (True, mk') \<and>
     PetMultiKV_BatchGet cfg (\<lambda>bs s l. 5) mk' [8, 9] [] = Returns as \<and>
     map (array_bytes mk') as = [replicate 32000 0, replicate 32000 7]"
proof -
  obtain cfg where c: "PetKVConfig_new 36 = Returns cfg" using demo_cfg by blast
  note d = demo_kv_inv [OF c]
  let ?city = "\<lambda>bs s l. 5 :: u64"
  have s: "GetShard ?city 2 k = 1" for k by (simp add: GetShard_def GetHashWithLevel_def)
  have i: "mk_inv 36 cfg ?city demo_mk"
    using d by (simp add: mk_inv_def demo_mk_def shards_inv_def s nth_Cons')
  have e: "mk_map cfg ?city demo_mk = Map.empty" using d by (simp add: mk_map_def demo_mk_def shards_abs_def s fun_eq_iff)
  have r: "kv_room cfg 9 (replicate 32000 7) demo_kv"
    using demo_New demo_kv_not_full
    by (auto simp: kv_room_def demo_kv_def kv_perfect_def ShmEpochRecycle_new_def EpochManager_new_def)
  then have "kv_room cfg 9 (replicate 32000 7) (mk_shm_kv demo_mk ! GetShard ?city (mk_shard_num demo_mk) 9)"
    by (simp add: demo_mk_def s)
  from PetMultiKV_refines_map [OF i this] obtain mk' where
    u: "PetMultiKV_Update cfg ?city 9 (replicate 32000 7) demo_mk = Returns (True, mk')"
      "mk_map cfg ?city mk' = (mk_map cfg ?city demo_mk)(9 \<mapsto> replicate 32000 7)"
      "\<forall>keys. \<exists>as. PetMultiKV_BatchGet cfg ?city mk' keys [] = Returns as \<and>
         map (array_bytes mk') as = map (\<lambda>k. batch_value (mk_pre_known demo_mk) (mk_map cfg ?city mk' k)) keys"
    by blast
  from spec [OF u(3), of "[8, 9]"] obtain as where "PetMultiKV_BatchGet cfg ?city mk' [8, 9] [] = Returns as"
    "map (array_bytes mk') as = [replicate 32000 0, replicate 32000 7]"
    unfolding u(2) e by (auto simp: batch_value_def demo_mk_def)
  with c u(1) show ?thesis by (intro exI [of _ cfg] exI [of _ mk'] exI [of _ as] conjI)
qed

end
