(* ===== verification/Kv_Engines.thy ===== *)
theory Kv_Engines
  imports Mem_Simple Shm_File Pet_MultiKV
begin

text \<open>
  The storage engines (\<open>src/src/kv_engine\<close>): engines that keep the offset of a value in an index and the
  value in the bump allocator (\<open>engine_map.h\<close>, \<open>engine_mappm.h\<close>, \<open>engine_multishard_map_pm.h\<close>,
  \<open>engine_f14.h\<close>, \<open>engine_dash.h\<close>, \<open>engine_hashapi.h\<close>), the engine without an index (\<open>engine_fake.h\<close>), and
  the engine over the sharded store (\<open>engine_pethash.h\<close>). \<open>std::unordered_map\<close> and \<open>F14FastMap\<close> are maps whose
  \<open>insert\<close> keeps an existing entry; the tables of Dash and of the hash interface are parameters.
\<close>

section \<open>Configuration and the value area\<close>

record BaseKVConfig =
  cf_value_size :: nat
  cf_hash_size :: nat
  cf_pool_size :: nat
  cf_num_threads :: nat
  cf_capacity :: nat
  cf_path :: string
  cf_library_file :: string
  cf_hash_name :: string

record 't engine =
  en_table :: 't
  en_malloc :: PersistSimpleMalloc
  en_bytes :: "nat \<Rightarrow> u8"
  en_value_size :: nat

text \<open>
  What every engine with an index does to store a value: allocate, pack the offset into a word that is
  0, copy the bytes.
\<close>

definition store_value :: "PetKVConfig \<Rightarrow> u8 list \<Rightarrow> 't engine \<Rightarrow> (u64 \<times> 't engine) run" where
  "store_value cfg value e =
     run_bind (SimpleMalloc_New (length value) (en_malloc e)) (\<lambda>(sync_data, m).
     run_bind (SimpleMalloc_GetMallocOffset (int (unat sync_data)) m) (\<lambda>off.
       Returns (SetShmMallocOffset cfg (of_int off) 0,
         e\<lparr>en_malloc := m, en_bytes := memcpy (unat sync_data) value (en_bytes e)\<rparr>)))"

text \<open>An array in the value area, as \<open>BatchGet\<close> returns it: the offset and the size read from the allocator.\<close>

definition value_array :: "PetKVConfig \<Rightarrow> u64 \<Rightarrow> 't engine \<Rightarrow> (nat \<times> int) run" where
  "value_array cfg data_value e =
     (let off = unat (shm_malloc_offset cfg data_value) in
      run_bind (SimpleMalloc_GetMallocSize off (en_malloc e)) (\<lambda>sz. Returns (off, sint (ucast sz :: 32 word))))"

definition load_value :: "PetKVConfig \<Rightarrow> u64 \<Rightarrow> 't engine \<Rightarrow> u8 list run" where
  "load_value cfg data_value e =
     run_bind (value_array cfg data_value e) (\<lambda>(off, sz).
       if sz < 0 then Aborts (Uncaught ''length_error'')
       else Returns (map (en_bytes e) [off..<off + nat sz]))"

text \<open>An item of \<open>BatchGet\<close>: an array of floats, or the empty array.\<close>

datatype batch_entry = Floats nat int | NoFloats

definition batch_floats :: "PetKVConfig \<Rightarrow> u64 option \<Rightarrow> 't engine \<Rightarrow> batch_entry run" where
  "batch_floats cfg r e =
     (case r of
        None \<Rightarrow> Returns NoFloats
      | Some v \<Rightarrow> run_bind (value_array cfg v e) (\<lambda>(off, sz). Returns (Floats off (sz div 4))))"

text \<open>The loop over the keys; \<open>get\<close> looks one of them up.\<close>

fun batch_loop :: "('k \<Rightarrow> 'v run) \<Rightarrow> 'k list \<Rightarrow> 'v list run" where
  "batch_loop get [] = Returns []"
| "batch_loop get (k # ks) = run_bind (get k) (\<lambda>v. run_bind (batch_loop get ks) (\<lambda>vs. Returns (v # vs)))"

text \<open>
  The file that marks the values as valid: if it cannot be opened with the right size it is deleted and
  created again, and the allocator starts from 0. What \<open>ShmFile::Initialize\<close> does is given as
  \<open>init\<close>, on the state of the file system.
\<close>

definition open_valid :: "('f \<Rightarrow> (bool \<times> 'f) run) \<Rightarrow> ('f \<Rightarrow> 'f run) \<Rightarrow> 't engine \<times> 'f \<Rightarrow> ('t engine \<times> 'f) run" where
  "open_valid init del = (\<lambda>(e, f).
     run_bind (init f) (\<lambda>(ok, f).
     if ok then Returns (e, f)
     else run_bind (del f) (\<lambda>f.
          run_bind (init f) (\<lambda>(ok, f).
          run_bind (run_check ok ''valid_shm_file_.Initialize'') (\<lambda>_.
            Returns (e\<lparr>en_malloc := SimpleMalloc_Initialize (en_malloc e)\<rparr>, f))))))"

definition engine_new :: "BaseKVConfig \<Rightarrow> u64 list \<Rightarrow> (nat \<Rightarrow> u8) \<Rightarrow> 't \<Rightarrow> 't engine run" where
  "engine_new config meta mem t =
     run_bind (SimpleMalloc_new meta (cf_capacity config * cf_value_size config) (cf_value_size config)) (\<lambda>m.
       Returns \<lparr>en_table = t, en_malloc = m, en_bytes = mem, en_value_size = cf_value_size config\<rparr>)"

section \<open>Engines over maps\<close>

type_synonym umap = "u64 \<rightharpoonup> u64"

text \<open>\<open>insert\<close> of a standard map: the flag tells whether the entry is new.\<close>

definition umap_insert :: "u64 \<Rightarrow> u64 \<Rightarrow> umap \<Rightarrow> bool \<times> umap" where
  "umap_insert k v t = (case t k of None \<Rightarrow> (True, t(k \<mapsto> v)) | Some _ \<Rightarrow> (False, t))"

definition KVEngineMap_new ::
  "('f \<Rightarrow> (bool \<times> 'f) run) \<Rightarrow> ('f \<Rightarrow> 'f run) \<Rightarrow> BaseKVConfig \<Rightarrow> u64 list \<Rightarrow> (nat \<Rightarrow> u8) \<Rightarrow> 'f \<Rightarrow> (umap engine \<times> 'f) run" where
  "KVEngineMap_new init del config meta mem f =
     run_bind (engine_new config meta mem Map.empty) (\<lambda>e. open_valid init del (e, f))"

definition KVEngineMap_Get :: "PetKVConfig \<Rightarrow> u64 \<Rightarrow> umap engine \<Rightarrow> u8 list run" where
  "KVEngineMap_Get cfg key e = (case en_table e key of None \<Rightarrow> Returns [] | Some v \<Rightarrow> load_value cfg v e)"

definition KVEngineMap_Put :: "PetKVConfig \<Rightarrow> u64 \<Rightarrow> u8 list \<Rightarrow> umap engine \<Rightarrow> umap engine run" where
  "KVEngineMap_Put cfg key value e =
     run_bind (store_value cfg value e) (\<lambda>(d, e).
       let (ok, t) = umap_insert key d (en_table e) in Returns (e\<lparr>en_table := t\<rparr>))"

definition KVEngineMap_BatchGet :: "PetKVConfig \<Rightarrow> u64 list \<Rightarrow> umap engine \<Rightarrow> batch_entry list run" where
  "KVEngineMap_BatchGet cfg keys e = batch_loop (\<lambda>k. batch_floats cfg (en_table e k) e) keys"

text \<open>
  \<open>KVEngineMapPM\<close>: the nodes of the map are allocated in a pool, which is deleted and created first.
  \<open>pool_init\<close> is that step on the file system.
\<close>

definition KVEngineMapPM_new ::
  "('f \<Rightarrow> 'f run) \<Rightarrow> ('f \<Rightarrow> (bool \<times> 'f) run) \<Rightarrow> ('f \<Rightarrow> 'f run) \<Rightarrow> BaseKVConfig \<Rightarrow> u64 list \<Rightarrow> (nat \<Rightarrow> u8) \<Rightarrow> 'f \<Rightarrow>
   (umap engine \<times> 'f) run" where
  "KVEngineMapPM_new pool_init init del config meta mem f =
     run_bind (engine_new config meta mem Map.empty) (\<lambda>e.
     run_bind (pool_init f) (\<lambda>f. open_valid init del (e, f)))"

definition KVEngineMapPM_Get :: "PetKVConfig \<Rightarrow> u64 \<Rightarrow> umap engine \<Rightarrow> u8 list run" where
  "KVEngineMapPM_Get cfg key e = (case en_table e key of None \<Rightarrow> Returns [] | Some v \<Rightarrow> load_value cfg v e)"

definition KVEngineMapPM_Put :: "PetKVConfig \<Rightarrow> u64 \<Rightarrow> u8 list \<Rightarrow> umap engine \<Rightarrow> umap engine run" where
  "KVEngineMapPM_Put cfg key value e =
     run_bind (store_value cfg value e) (\<lambda>(d, e). Returns (e\<lparr>en_table := snd (umap_insert key d (en_table e))\<rparr>))"

definition KVEngineMapPM_BatchGet :: "PetKVConfig \<Rightarrow> u64 list \<Rightarrow> umap engine \<Rightarrow> batch_entry list run" where
  "KVEngineMapPM_BatchGet cfg keys e = batch_loop (\<lambda>k. batch_floats cfg (en_table e k) e) keys"

text \<open>\<open>KVEngineMultiMapPM\<close>: 32 maps, selected by CityHash.\<close>

definition kShardNum :: nat where
  "kShardNum = 32"

definition map_shard :: "(u8 list \<Rightarrow> u64) \<Rightarrow> u64 \<Rightarrow> nat" where
  "map_shard city key = unat (GetHash city key mod of_nat kShardNum)"

definition KVEngineMultiMapPM_new ::
  "('f \<Rightarrow> 'f run) \<Rightarrow> ('f \<Rightarrow> (bool \<times> 'f) run) \<Rightarrow> ('f \<Rightarrow> 'f run) \<Rightarrow> BaseKVConfig \<Rightarrow> u64 list \<Rightarrow> (nat \<Rightarrow> u8) \<Rightarrow> 'f \<Rightarrow>
   (umap list engine \<times> 'f) run" where
  "KVEngineMultiMapPM_new pool_init init del config meta mem f =
     run_bind (engine_new config meta mem (replicate kShardNum Map.empty)) (\<lambda>e.
     run_bind (pool_init f) (\<lambda>f. open_valid init del (e, f)))"

definition KVEngineMultiMapPM_Get :: "PetKVConfig \<Rightarrow> (u8 list \<Rightarrow> u64) \<Rightarrow> u64 \<Rightarrow> umap list engine \<Rightarrow> u8 list run" where
  "KVEngineMultiMapPM_Get cfg city key e =
     (let shard = map_shard city key in
      case (en_table e ! shard) key of None \<Rightarrow> Returns [] | Some v \<Rightarrow> load_value cfg v e)"

definition KVEngineMultiMapPM_Put :: "PetKVConfig \<Rightarrow> (u8 list \<Rightarrow> u64) \<Rightarrow> u64 \<Rightarrow> u8 list \<Rightarrow> umap list engine \<Rightarrow> umap list engine run" where
  "KVEngineMultiMapPM_Put cfg city key value e =
     (let shard = map_shard city key in
      run_bind (store_value cfg value e) (\<lambda>(d, e).
        Returns (e\<lparr>en_table := (en_table e)[shard := snd (umap_insert key d (en_table e ! shard))]\<rparr>)))"

definition KVEngineMultiMapPM_BatchGet ::
  "PetKVConfig \<Rightarrow> (u8 list \<Rightarrow> u64) \<Rightarrow> u64 list \<Rightarrow> umap list engine \<Rightarrow> batch_entry list run" where
  "KVEngineMultiMapPM_BatchGet cfg city keys e =
     batch_loop (\<lambda>k. let shard = map_shard city k in batch_floats cfg ((en_table e ! shard) k) e) keys"

text \<open>\<open>KVEngineF14\<close>: without locks, and with an optional prefetch of the next key, which has no effect.\<close>

definition KVEngineF14_new ::
  "('f \<Rightarrow> 'f run) \<Rightarrow> ('f \<Rightarrow> (bool \<times> 'f) run) \<Rightarrow> ('f \<Rightarrow> 'f run) \<Rightarrow> BaseKVConfig \<Rightarrow> u64 list \<Rightarrow> (nat \<Rightarrow> u8) \<Rightarrow> 'f \<Rightarrow>
   (umap engine \<times> 'f) run" where
  "KVEngineF14_new pool_init init del config meta mem f =
     run_bind (engine_new config meta mem Map.empty) (\<lambda>e.
     run_bind (pool_init f) (\<lambda>f. open_valid init del (e, f)))"

definition KVEngineF14_Get :: "PetKVConfig \<Rightarrow> u64 \<Rightarrow> umap engine \<Rightarrow> u8 list run" where
  "KVEngineF14_Get cfg key e = (case en_table e key of None \<Rightarrow> Returns [] | Some v \<Rightarrow> load_value cfg v e)"

definition KVEngineF14_Put :: "PetKVConfig \<Rightarrow> u64 \<Rightarrow> u8 list \<Rightarrow> umap engine \<Rightarrow> umap engine run" where
  "KVEngineF14_Put cfg key value e =
     run_bind (store_value cfg value e) (\<lambda>(d, e). Returns (e\<lparr>en_table := snd (umap_insert key d (en_table e))\<rparr>))"

definition KVEngineF14_BatchGet :: "PetKVConfig \<Rightarrow> int \<Rightarrow> u64 list \<Rightarrow> umap engine \<Rightarrow> batch_entry list run" where
  "KVEngineF14_BatchGet cfg prefetch_method keys e =
     (if prefetch_method = 0 then batch_loop (\<lambda>k. batch_floats cfg (en_table e k) e) keys
      else batch_loop (\<lambda>i. batch_floats cfg (en_table e (keys ! i)) e) [0..<length keys])"

section \<open>Engines over third-party tables\<close>

text \<open>\<open>tbl_find\<close> and \<open>tbl_insert\<close> are the operations of the table; \<open>tbl_insert\<close> returns a status that is ignored.\<close>

definition KVEngineDash_Get :: "('t \<Rightarrow> u64 \<Rightarrow> u64 option) \<Rightarrow> PetKVConfig \<Rightarrow> u64 \<Rightarrow> 't engine \<Rightarrow> u8 list run" where
  "KVEngineDash_Get tbl_find cfg key e = (case tbl_find (en_table e) key of None \<Rightarrow> Returns [] | Some v \<Rightarrow> load_value cfg v e)"

definition KVEngineDash_Put ::
  "(u64 \<Rightarrow> u64 \<Rightarrow> 't \<Rightarrow> int \<times> 't) \<Rightarrow> PetKVConfig \<Rightarrow> u64 \<Rightarrow> u8 list \<Rightarrow> 't engine \<Rightarrow> 't engine run" where
  "KVEngineDash_Put tbl_insert cfg key value e =
     run_bind (store_value cfg value e) (\<lambda>(d, e). Returns (e\<lparr>en_table := snd (tbl_insert key d (en_table e))\<rparr>))"

definition KVEngineDash_BatchGet :: "('t \<Rightarrow> u64 \<Rightarrow> u64 option) \<Rightarrow> PetKVConfig \<Rightarrow> u64 list \<Rightarrow> 't engine \<Rightarrow> batch_entry list run" where
  "KVEngineDash_BatchGet tbl_find cfg keys e = batch_loop (\<lambda>k. batch_floats cfg (tbl_find (en_table e) k) e) keys"

text \<open>
  The pool for the index gets twice the memory of a \<open>PetHash\<close>. A new pool is given 64 segments, an old
  one is taken as it is; \<open>create\<close> and \<open>reopen\<close> are the two constructors of the table, \<open>exists\<close> whether the
  pool file is there.
\<close>

definition KVEngineDash_new ::
  "(nat \<Rightarrow> u64 \<Rightarrow> 't) \<Rightarrow> (u64 \<Rightarrow> 't) \<Rightarrow> (string \<Rightarrow> 'f \<Rightarrow> bool) \<Rightarrow> (string \<Rightarrow> 'f \<Rightarrow> 'f run) \<Rightarrow> ('f \<Rightarrow> (bool \<times> 'f) run) \<Rightarrow> ('f \<Rightarrow> 'f run) \<Rightarrow>
   BaseKVConfig \<Rightarrow> u64 list \<Rightarrow> (nat \<Rightarrow> u8) \<Rightarrow> 'f \<Rightarrow> ('t engine \<times> 'f) run" where
  "KVEngineDash_new create reopen file_exists mkdir init del config meta mem f =
     run_bind (SimpleMalloc_new meta (cf_capacity config * cf_value_size config) (cf_value_size config)) (\<lambda>m.
     run_bind (mkdir (cf_path config) f) (\<lambda>f.
     let dict_pool_name = cf_path config @ ''/dict'' in
     run_bind (MemorySize (of_nat (cf_capacity config)) True) (\<lambda>sz.
     let t = (if file_exists dict_pool_name f then reopen (2 * sz) else create 64 (2 * sz)) in
     open_valid init del
       (\<lparr>en_table = t, en_malloc = m, en_bytes = mem, en_value_size = cf_value_size config\<rparr>, f))))"

text \<open>The kinds of table behind the hash interface that the constructor accepts.\<close>

datatype hash_kind = CLHT | Level | Clevel | CCEHVM

definition select_hash :: "string \<Rightarrow> hash_kind run" where
  "select_hash hash_name =
     (if hash_name = ''clht'' then Returns CLHT
      else if hash_name = ''level'' then Returns Level
      else if hash_name = ''clevel'' then Returns Clevel
      else if hash_name = ''ccehvm'' then Returns CCEHVM
      else Aborts (LogFatal ''invalid config.hash_name''))"

definition HashAPI_new ::
  "(hash_kind \<Rightarrow> string \<Rightarrow> nat \<Rightarrow> nat \<Rightarrow> nat \<Rightarrow> 't) \<Rightarrow> (string \<Rightarrow> 'f \<Rightarrow> 'f run) \<Rightarrow> ('f \<Rightarrow> (bool \<times> 'f) run) \<Rightarrow> ('f \<Rightarrow> 'f run) \<Rightarrow>
   BaseKVConfig \<Rightarrow> u64 list \<Rightarrow> (nat \<Rightarrow> u8) \<Rightarrow> 'f \<Rightarrow> (('t \<times> nat) engine \<times> 'f) run" where
  "HashAPI_new create mkdir init del config meta mem f =
     run_bind (SimpleMalloc_new meta (cf_capacity config * cf_value_size config) (cf_value_size config)) (\<lambda>m.
     run_bind (mkdir (cf_path config) f) (\<lambda>f.
     let dict_pool_name = cf_path config @ ''/dict'' in
     run_bind (select_hash (cf_hash_name config)) (\<lambda>kind.
     run_bind (if kind = CCEHVM then mkdir dict_pool_name f else Returns f) (\<lambda>f.
     let t = (create kind dict_pool_name (cf_pool_size config) (cf_hash_size config) (cf_num_threads config), 0) in
     open_valid init del
       (\<lparr>en_table = t, en_malloc = m, en_bytes = mem, en_value_size = cf_value_size config\<rparr>, f)))))"

definition HashAPI_Get :: "('t \<Rightarrow> u8 list \<Rightarrow> u64 option) \<Rightarrow> PetKVConfig \<Rightarrow> u64 \<Rightarrow> ('t \<times> nat) engine \<Rightarrow> u8 list run" where
  "HashAPI_Get tbl_find cfg key e =
     (case tbl_find (fst (en_table e)) (key_bytes key) of None \<Rightarrow> Returns [] | Some v \<Rightarrow> load_value cfg v e)"

text \<open>The last argument of \<open>insert\<close> is a counter of the engine; it is part of the table here.\<close>

definition HashAPI_Put ::
  "(u8 list \<Rightarrow> u64 \<Rightarrow> nat \<Rightarrow> 't \<Rightarrow> bool \<times> 't) \<Rightarrow> PetKVConfig \<Rightarrow> u64 \<Rightarrow> u8 list \<Rightarrow> ('t \<times> nat) engine \<Rightarrow> ('t \<times> nat) engine run" where
  "HashAPI_Put tbl_insert cfg key value e =
     run_bind (store_value cfg value e) (\<lambda>(d, e).
       let (t, counter) = en_table e
       in Returns (e\<lparr>en_table := (snd (tbl_insert (key_bytes key) d counter t), counter + 1)\<rparr>))"

definition HashAPI_BatchGet :: "('t \<Rightarrow> u8 list \<Rightarrow> u64 option) \<Rightarrow> PetKVConfig \<Rightarrow> u64 list \<Rightarrow> ('t \<times> nat) engine \<Rightarrow> batch_entry list run" where
  "HashAPI_BatchGet tbl_find cfg keys e = batch_loop (\<lambda>k. batch_floats cfg (tbl_find (fst (en_table e)) (key_bytes k)) e) keys"

section \<open>The engine without an index\<close>

definition KVEngineFakeKV_new ::
  "(string \<Rightarrow> 'f \<Rightarrow> 'f run) \<Rightarrow> ('f \<Rightarrow> (bool \<times> 'f) run) \<Rightarrow> ('f \<Rightarrow> 'f run) \<Rightarrow> BaseKVConfig \<Rightarrow> u64 list \<Rightarrow> (nat \<Rightarrow> u8) \<Rightarrow> 'f \<Rightarrow>
   (unit engine \<times> 'f) run" where
  "KVEngineFakeKV_new mkdir init del config meta mem f =
     run_bind (engine_new config meta mem ()) (\<lambda>e.
     run_bind (mkdir (cf_path config) f) (\<lambda>f. open_valid init del (e, f)))"

definition KVEngineFakeKV_Get :: "u64 \<Rightarrow> unit engine \<Rightarrow> u8 list" where
  "KVEngineFakeKV_Get key e = map (en_bytes e) [unat key..<unat key + en_value_size e]"

definition KVEngineFakeKV_Put :: "u64 \<Rightarrow> u8 list \<Rightarrow> unit engine \<Rightarrow> unit engine" where
  "KVEngineFakeKV_Put key value e = e\<lparr>en_bytes := memcpy (unat key) value (en_bytes e)\<rparr>"

definition KVEngineFakeKV_BatchGet :: "u64 list \<Rightarrow> unit engine \<Rightarrow> batch_entry list" where
  "KVEngineFakeKV_BatchGet keys e =
     map (\<lambda>k. Floats (unat (k * of_nat (en_value_size e))) (int (en_value_size e) div 4)) keys"

definition KVEngineFakeKV_RegisterPMAddr :: "file_system \<Rightarrow> PMMmapRegisterCenter \<Rightarrow> u64 \<times> u64" where
  "KVEngineFakeKV_RegisterPMAddr fs c = (if \<not> fs_exists ''/dev/dax0.0'' fs then (0, 0) else ForRDMAMemoryRegion c)"

section \<open>The engine over the sharded store\<close>

text \<open>The arguments that the constructor passes on: directory, shards, bytes and keys per shard, no fixed value size.\<close>

definition KVEnginePetKV_args :: "BaseKVConfig \<Rightarrow> string \<times> nat \<times> nat \<times> nat \<times> nat" where
  "KVEnginePetKV_args config =
     (let shard_num = 16
      in (cf_path config @ ''/shm'', shard_num, cf_value_size config * cf_capacity config div shard_num,
          cf_capacity config div shard_num, 0))"

text \<open>\<open>Get\<close> leaves the string of the caller as it is when the key is not stored.\<close>

definition KVEnginePetKV_Get :: "PetKVConfig \<Rightarrow> city_hash \<Rightarrow> u64 \<Rightarrow> u8 list \<Rightarrow> PetMultiKV \<Rightarrow> u8 list run" where
  "KVEnginePetKV_Get cfg city key value mk =
     run_bind (PetMultiKV_Get cfg city key mk) (\<lambda>kv_data.
       case rd_data kv_data of
         None \<Rightarrow> Returns value
       | Some p \<Rightarrow> if rd_size kv_data < 0 then Aborts (Uncaught ''length_error'')
           else Returns (map (kv_bytes (mk_shm_kv mk ! GetShard city (mk_shard_num mk) key))
                  [unat p..<unat p + nat (rd_size kv_data)]))"

definition KVEnginePetKV_Put :: "PetKVConfig \<Rightarrow> city_hash \<Rightarrow> u64 \<Rightarrow> u8 list \<Rightarrow> PetMultiKV \<Rightarrow> PetMultiKV run" where
  "KVEnginePetKV_Put cfg city key value mk =
     run_bind (PetMultiKV_Update cfg city key value mk) (\<lambda>(ok, mk).
     run_bind (run_check ok ''shm_kv->Update'') (\<lambda>_. Returns mk))"

text \<open>Without prefetching, a key without a value gives a null pointer and size 0; other methods return nothing.\<close>

definition KVEnginePetKV_BatchGet ::
  "PetKVConfig \<Rightarrow> city_hash \<Rightarrow> int \<Rightarrow> u64 list \<Rightarrow> PetMultiKV \<Rightarrow> float_array option list run" where
  "KVEnginePetKV_BatchGet cfg city prefetch_method keys mk =
     (if prefetch_method = 0
      then batch_loop (\<lambda>k.
        run_bind (PetMultiKV_Get cfg city k mk) (\<lambda>kv_data.
          Returns (map_option (\<lambda>p. InShard (GetShard city (mk_shard_num mk) k) p (rd_size kv_data div 4)) (rd_data kv_data)))) keys
      else if prefetch_method = 1 then run_bind (PetMultiKV_BatchGet cfg city mk keys []) (\<lambda>vs. Returns (map Some vs))
      else Returns [])"

definition KVEnginePetKV_RegisterPMAddr :: "PMMmapRegisterCenter \<Rightarrow> u64 \<times> u64" where
  "KVEnginePetKV_RegisterPMAddr c = ForRDMAMemoryRegion c"

section \<open>What the engines over maps store\<close>

text \<open>A sequence of insertions.\<close>

fun puts_run :: "('k \<Rightarrow> 'v \<Rightarrow> 'e \<Rightarrow> 'e run) \<Rightarrow> ('k \<times> 'v) list \<Rightarrow> 'e \<Rightarrow> 'e run" where
  "puts_run put [] e = Returns e"
| "puts_run put ((k, v) # kvs) e = run_bind (put k v e) (\<lambda>e. puts_run put kvs e)"

lemma puts_run_append: "puts_run put (xs @ ys) e = run_bind (puts_run put xs e) (puts_run put ys)"
proof (induction xs arbitrary: e)
  case (Cons x xs)
  then show ?case by (cases x, cases "put (fst x) (snd x) e") auto
qed simp

text \<open>
  The state of the engine after the insertions \<open>kvs\<close>, none of which has wrapped around: the \<open>j\<close>-th value
  lies in the block that the allocator hands out in its \<open>j\<close>-th step.
\<close>

definition engine_holds :: "PetKVConfig \<Rightarrow> nat \<Rightarrow> nat \<Rightarrow> (u64 \<times> u8 list) list \<Rightarrow> umap engine \<Rightarrow> bool" where
  "engine_holds cfg m vs kvs e \<longleftrightarrow> simple_at (Suc (length kvs)) (en_malloc e) \<and> sm_memory_size (en_malloc e) = m \<and>
     sm_slab_size (en_malloc e) = vs \<and> dom (en_table e) = fst ` set kvs \<and>
     (\<forall>j < length kvs. let a = simple_addr m vs (Suc j) in
        en_table e (fst (kvs ! j)) = Some (SetShmMallocOffset cfg (of_nat a) 0) \<and>
        map (en_bytes e) [a..<a + vs] = snd (kvs ! j) \<and> sm_meta_data_block (en_malloc e) ! (a div vs) = of_nat vs)"

lemma addr_block:
  assumes "1 \<le> t" and "t \<le> simple_slots m vs" and "0 < vs"
  shows "simple_addr m vs t = (if t < simple_slots m vs then t else 0) * vs"
    "simple_addr m vs t div vs = (if t < simple_slots m vs then t else 0)"
  using assms by (simp_all add: simple_addr_def Let_def)

lemma block_apart:
  fixes i j vs :: nat
  assumes "i \<noteq> j" shows "i * vs + vs \<le> j * vs \<or> j * vs + vs \<le> i * vs"
proof -
  have "Suc i \<le> j \<or> Suc j \<le> i" using assms by linarith
  then have "Suc i * vs \<le> j * vs \<or> Suc j * vs \<le> i * vs" using mult_le_mono1 by blast
  then show ?thesis by (simp add: add.commute)
qed

lemma Put_step:
  assumes cfg: "PetKVConfig_new b = Returns cfg" and h: "engine_holds cfg m vs kvs e"
    and n: "length kvs < simple_slots m vs" and k: "k \<notin> fst ` set kvs" and v: "length v = vs"
  shows "\<exists>e'. KVEngineMap_Put cfg k v e = Returns e' \<and> engine_holds cfg m vs (kvs @ [(k, v)]) e'"
proof -
  let ?n = "Suc (length kvs)" and ?a = "simple_addr m vs (Suc (length kvs))"
  have H: "simple_at ?n (en_malloc e)" "sm_memory_size (en_malloc e) = m" "sm_slab_size (en_malloc e) = vs"
    "dom (en_table e) = fst ` set kvs"
    using h by (simp_all add: engine_holds_def)
  have S: "0 < vs" "vs < m" "m < 2 ^ 63" "length (sm_meta_data_block (en_malloc e)) = m div vs"
    using H by (simp_all add: simple_at_def)
  obtain s' where s: "SimpleMalloc_New vs (en_malloc e) = Returns (of_nat ?a, s')" "simple_at (Suc ?n) s'"
    "sm_memory_size s' = m" "sm_slab_size s' = vs" "sm_meta_data_block s' = (sm_meta_data_block (en_malloc e))[?a div vs := of_nat vs]"
    using SimpleMalloc_New_step [OF H(1)] H(2,3) by auto
  have a: "?a + vs < m" using simple_addr_range [OF S(1,2)] .
  then have u: "unat (of_nat ?a :: u64) = ?a" using S(3) by (intro unat_nat_u64) simp
  then have ui: "uint (of_nat ?a :: u64) = int ?a" by (simp only: uint_nat)
  define e' where "e' = e\<lparr>en_malloc := s', en_bytes := memcpy ?a v (en_bytes e),
      en_table := (en_table e)(k \<mapsto> SetShmMallocOffset cfg (of_nat ?a) 0)\<rparr>"
  have "SimpleMalloc_GetMallocOffset (int ?a) s' = Returns (int ?a)"
    using a s(3,4) by (simp add: SimpleMalloc_GetMallocOffset_def run_check_def)
  moreover have "en_table e k = None" using k H(4) by blast
  ultimately have put: "KVEngineMap_Put cfg k v e = Returns e'"
    using s(1) v u ui by (simp add: KVEngineMap_Put_def store_value_def umap_insert_def e'_def)
  have blk: "?a + vs \<le> simple_addr m vs (Suc j) \<or> simple_addr m vs (Suc j) + vs \<le> ?a"
    "simple_addr m vs (Suc j) div vs \<noteq> ?a div vs" if "j < length kvs" for j
  proof -
    let ?i = "if ?n < simple_slots m vs then ?n else 0" and ?j = "if Suc j < simple_slots m vs then Suc j else 0"
    have "?i \<noteq> ?j" using that n by auto
    moreover have "?a = ?i * vs" "?a div vs = ?i" "simple_addr m vs (Suc j) = ?j * vs" "simple_addr m vs (Suc j) div vs = ?j"
      using addr_block [of ?n m vs] addr_block [of "Suc j" m vs] that n S(1) by simp_all
    ultimately show "?a + vs \<le> simple_addr m vs (Suc j) \<or> simple_addr m vs (Suc j) + vs \<le> ?a"
      "simple_addr m vs (Suc j) div vs \<noteq> ?a div vs"
      using block_apart [of ?i ?j vs] by (simp_all only: not_False_eq_True)
  qed
  have "let a = simple_addr m vs (Suc j) in en_table e' (fst ((kvs @ [(k, v)]) ! j)) = Some (SetShmMallocOffset cfg (of_nat a) 0) \<and>
      map (en_bytes e') [a..<a + vs] = snd ((kvs @ [(k, v)]) ! j) \<and> sm_meta_data_block (en_malloc e') ! (a div vs) = of_nat vs"
    if j: "j < Suc (length kvs)" for j
  proof (cases "j = length kvs")
    case True
    have "?a div vs < m div vs" using div_le_mono [of "?a + vs" m vs] div_add_self2 [of vs ?a] a S(1) by simp
    then show ?thesis using True memcpy_new [of ?a v "en_bytes e"] v s(5) S(4) by (simp add: e'_def Let_def)
  next
    case False
    then have jl: "j < length kvs" using j by simp
    have old: "en_table e (fst (kvs ! j)) = Some (SetShmMallocOffset cfg (of_nat (simple_addr m vs (Suc j))) 0)"
      "map (en_bytes e) [simple_addr m vs (Suc j)..<simple_addr m vs (Suc j) + vs] = snd (kvs ! j)"
      "sm_meta_data_block (en_malloc e) ! (simple_addr m vs (Suc j) div vs) = of_nat vs"
      using h jl by (simp_all add: engine_holds_def Let_def)
    have "fst (kvs ! j) \<noteq> k" using k jl by (metis image_eqI nth_mem)
    moreover have "map (memcpy ?a v (en_bytes e)) [simple_addr m vs (Suc j)..<simple_addr m vs (Suc j) + vs] = snd (kvs ! j)"
    proof -
      have ap: "?a + length v \<le> simple_addr m vs (Suc j) \<or> simple_addr m vs (Suc j) + vs \<le> ?a" using blk(1) [OF jl] v by simp
      show ?thesis unfolding memcpy_other [OF ap] by (rule old(2))
    qed
    ultimately show ?thesis using old jl blk(2) [OF jl] s(5) by (simp add: e'_def Let_def nth_append)
  qed
  moreover have "dom (en_table e') = fst ` set (kvs @ [(k, v)])" using H(4) by (simp add: e'_def)
  moreover have "simple_at (Suc (length (kvs @ [(k, v)]))) (en_malloc e')" using s(2) by (simp add: e'_def)
  ultimately have "engine_holds cfg m vs (kvs @ [(k, v)]) e'"
    using s(3,4) unfolding engine_holds_def by (simp add: e'_def)
  with put show ?thesis by blast
qed

lemma puts_held:
  assumes cfg: "PetKVConfig_new b = Returns cfg" and h: "engine_holds cfg m vs [] e"
    and n: "length kvs \<le> simple_slots m vs" and d: "distinct (map fst kvs)" and v: "\<forall>(k, v) \<in> set kvs. length v = vs"
  shows "\<exists>e'. puts_run (KVEngineMap_Put cfg) kvs e = Returns e' \<and> engine_holds cfg m vs kvs e'"
  using n d v
proof (induction kvs rule: rev_induct)
  case Nil
  then show ?case using h by simp
next
  case (snoc kv kvs)
  obtain k v where kv: "kv = (k, v)" by (cases kv)
  obtain e1 where e1: "puts_run (KVEngineMap_Put cfg) kvs e = Returns e1" "engine_holds cfg m vs kvs e1"
    using snoc by auto
  obtain e' where "KVEngineMap_Put cfg k v e1 = Returns e'" "engine_holds cfg m vs (kvs @ [(k, v)]) e'"
    using Put_step [OF cfg e1(2), of k v] snoc.prems kv by auto
  then show ?case using e1(1) kv by (auto simp: puts_run_append)
qed

lemma holds_Get:
  assumes cfg: "PetKVConfig_new b = Returns cfg" and h: "engine_holds cfg m vs kvs e" and n: "length kvs \<le> simple_slots m vs"
    and vs: "8 dvd vs" "vs < 2 ^ 31" "m < 8 * (2 ^ b - 1)" and j: "j < length kvs"
  shows "KVEngineMap_Get cfg (fst (kvs ! j)) e = Returns (snd (kvs ! j))"
proof -
  let ?a = "simple_addr m vs (Suc j)"
  have H: "simple_at (Suc (length kvs)) (en_malloc e)" "sm_memory_size (en_malloc e) = m" "sm_slab_size (en_malloc e) = vs"
    and held: "en_table e (fst (kvs ! j)) = Some (SetShmMallocOffset cfg (of_nat ?a) 0)"
      "map (en_bytes e) [?a..<?a + vs] = snd (kvs ! j)" "sm_meta_data_block (en_malloc e) ! (?a div vs) = of_nat vs"
    using h j by (simp_all add: engine_holds_def Let_def)
  have S: "0 < vs" "vs < m" "m < 2 ^ 63" "length (sm_meta_data_block (en_malloc e)) = m div vs"
    using H by (simp_all add: simple_at_def)
  have a: "?a + vs < m" using simple_addr_range [OF S(1,2)] .
  have "8 dvd ?a" using vs(1) by (auto simp: simple_addr_def Let_def)
  then have off: "unat (shm_malloc_offset cfg (SetShmMallocOffset cfg (of_nat ?a) 0)) = ?a"
    using packed_addr(2) [OF cfg, of ?a 0] a S(3) vs(3) by (simp add: kv_addr_def)
  have "?a div vs < m div vs" using div_le_mono [of "?a + vs" m vs] div_add_self2 [of vs ?a] a S(1) by simp
  moreover have "sint (ucast (of_nat vs :: u64) :: 32 word) = int vs"
  proof -
    have "unat (of_nat vs :: u64) = vs" using vs(2) by (intro unat_nat_u64) simp
    then have u: "unat (ucast (of_nat vs :: u64) :: 32 word) = vs" using vs(2) by (simp add: unsigned_ucast_eq take_bit_nat_eq_self)
    then have "uint (ucast (of_nat vs :: u64) :: 32 word) = int vs" by (simp only: uint_nat)
    then show ?thesis using vs(2) by (simp add: sint_uint signed_take_bit_int_eq_self)
  qed
  ultimately show ?thesis
    using held off H(3) S(4) by (simp add: KVEngineMap_Get_def load_value_def value_array_def SimpleMalloc_GetMallocSize_def)
qed

text \<open>A new engine over a map is empty, and its allocator has room for \<open>capacity - 1\<close> values.\<close>

lemma map_slots:
  fixes cap vs :: nat
  assumes "2 \<le> cap" "0 < vs"
  shows "simple_slots (cap * vs) vs = cap - 1"
proof -
  have "cap * vs - 1 = (vs - 1) + vs * (cap - 1)" using assms by (cases cap) (auto simp: mult.commute)
  then have "simple_slots (cap * vs) vs = (vs - 1 + vs * (cap - 1)) div vs" by (simp only: simple_slots_def)
  also have "\<dots> = cap - 1" using assms(2) by (subst div_mult_self2) simp_all
  finally show ?thesis .
qed

lemma map_engine_new:
  assumes "2 \<le> cap" "0 < vs" "vs < 2 ^ 31" "cap * vs < 2 ^ 63" "cap \<le> length meta" "init f = Returns (True, f')"
  shows "\<exists>e. KVEngineMap_new init del \<lparr>cf_value_size = vs, cf_hash_size = hs, cf_pool_size = ps, cf_num_threads = nt,
      cf_capacity = cap, cf_path = p, cf_library_file = lf, cf_hash_name = hn\<rparr> meta mem f = Returns (e, f') \<and>
    engine_holds cfg (cap * vs) vs [] e"
proof -
  let ?s = "\<lparr>sm_allocated = of_nat vs, sm_nr_malloc = 0, sm_meta_data_block = take cap meta, sm_memory_size = cap * vs, sm_slab_size = vs\<rparr>"
  define e :: "umap engine" where "e = \<lparr>en_table = Map.empty, en_malloc = ?s, en_bytes = mem, en_value_size = vs\<rparr>"
  have n: "KVEngineMap_new init del \<lparr>cf_value_size = vs, cf_hash_size = hs, cf_pool_size = ps, cf_num_threads = nt,
        cf_capacity = cap, cf_path = p, cf_library_file = lf, cf_hash_name = hn\<rparr> meta mem f = Returns (e, f')"
    using assms(2,6) by (simp add: KVEngineMap_new_def engine_new_def SimpleMalloc_new_def open_valid_def e_def)
  have "1 mod cap = 1" using assms(1) by simp
  then have "simple_at 1 ?s"
    using assms map_slots [OF assms(1,2)] unat_nat_u64 [of vs] by (simp add: simple_at_def)
  then have "engine_holds cfg (cap * vs) vs [] e" by (simp add: engine_holds_def e_def)
  with n show ?thesis by blast
qed

section \<open>The sharded maps and the single map\<close>

definition same_store :: "(u8 list \<Rightarrow> u64) \<Rightarrow> umap list engine \<Rightarrow> umap engine \<Rightarrow> bool" where
  "same_store city e1 e2 \<longleftrightarrow> length (en_table e1) = kShardNum \<and> (\<forall>k. (en_table e1 ! map_shard city k) k = en_table e2 k) \<and>
     en_malloc e1 = en_malloc e2 \<and> en_bytes e1 = en_bytes e2"

lemma map_shard_less: "map_shard city k < kShardNum"
proof -
  have "unat (GetHash city k mod of_nat kShardNum) = unat (GetHash city k) mod 32"
    by (simp add: unat_mod_distrib kShardNum_def)
  then show ?thesis by (simp add: map_shard_def kShardNum_def)
qed

lemma store_value_same:
  assumes "same_store city e1 e2"
  shows "case store_value cfg v e1 of
      Returns (d, e1') \<Rightarrow> \<exists>e2'. store_value cfg v e2 = Returns (d, e2') \<and> same_store city e1' e2'
    | Aborts f \<Rightarrow> store_value cfg v e2 = Aborts f
    | Diverges \<Rightarrow> store_value cfg v e2 = Diverges"
proof (cases "SimpleMalloc_New (length v) (en_malloc e1)")
  case (Returns r)
  then show ?thesis
    using assms by (cases r; cases "SimpleMalloc_GetMallocOffset (int (unat (fst r))) (snd r)")
      (auto simp: store_value_def same_store_def)
qed (use assms in \<open>auto simp: store_value_def same_store_def\<close>)

lemma Put_same:
  assumes "same_store city e1 e2"
  shows "case KVEngineMultiMapPM_Put cfg city k v e1 of
      Returns e1' \<Rightarrow> \<exists>e2'. KVEngineMapPM_Put cfg k v e2 = Returns e2' \<and> same_store city e1' e2'
    | Aborts f \<Rightarrow> KVEngineMapPM_Put cfg k v e2 = Aborts f
    | Diverges \<Rightarrow> KVEngineMapPM_Put cfg k v e2 = Diverges"
proof (cases "store_value cfg v e1")
  case (Returns r)
  then obtain d e1' e2' where s: "store_value cfg v e1 = Returns (d, e1')" "store_value cfg v e2 = Returns (d, e2')" "same_store city e1' e2'"
    using store_value_same [OF assms, of cfg v] by (cases r) auto
  let ?i = "map_shard city k"
  have i: "?i < length (en_table e1')" using s(3) map_shard_less by (simp add: same_store_def)
  have "((en_table e1')[?i := snd (umap_insert k d (en_table e1' ! ?i))] ! map_shard city x) x =
      snd (umap_insert k d (en_table e2')) x" for x
  proof -
    have x: "(en_table e1' ! map_shard city x) x = en_table e2' x" "(en_table e1' ! ?i) k = en_table e2' k"
      using s(3) by (simp_all add: same_store_def)
    show ?thesis using x i by (cases "map_shard city x = ?i") (auto simp: umap_insert_def split: option.split)
  qed
  then have "same_store city (e1'\<lparr>en_table := (en_table e1')[?i := snd (umap_insert k d (en_table e1' ! ?i))]\<rparr>)
      (e2'\<lparr>en_table := snd (umap_insert k d (en_table e2'))\<rparr>)"
    using s(3) by (simp add: same_store_def)
  moreover have "KVEngineMapPM_Put cfg k v e2 = Returns (e2'\<lparr>en_table := snd (umap_insert k d (en_table e2'))\<rparr>)"
    using s(2) by (simp add: KVEngineMapPM_Put_def)
  ultimately show ?thesis using s(1) by (simp add: KVEngineMultiMapPM_Put_def Let_def)
qed (use store_value_same [OF assms, of cfg v] in \<open>simp_all add: KVEngineMultiMapPM_Put_def KVEngineMapPM_Put_def\<close>)

lemma puts_same:
  "same_store city e1 e2 \<Longrightarrow> case puts_run (KVEngineMultiMapPM_Put cfg city) kvs e1 of
      Returns e1' \<Rightarrow> \<exists>e2'. puts_run (KVEngineMapPM_Put cfg) kvs e2 = Returns e2' \<and> same_store city e1' e2'
    | Aborts f \<Rightarrow> puts_run (KVEngineMapPM_Put cfg) kvs e2 = Aborts f
    | Diverges \<Rightarrow> puts_run (KVEngineMapPM_Put cfg) kvs e2 = Diverges"
proof (induction kvs arbitrary: e1 e2)
  case (Cons kv kvs)
  obtain k v where kv: "kv = (k, v)" by (cases kv)
  show ?case
  proof (cases "KVEngineMultiMapPM_Put cfg city k v e1")
    case (Returns e1')
    then obtain e2' where "KVEngineMapPM_Put cfg k v e2 = Returns e2'" "same_store city e1' e2'"
      using Put_same [OF Cons.prems, of cfg k v] by auto
    then show ?thesis
      unfolding kv using Returns Cons.IH [of e1' e2'] by (cases "puts_run (KVEngineMultiMapPM_Put cfg city) kvs e1'") simp_all
  qed (unfold kv, use Put_same [OF Cons.prems, of cfg k v] in simp_all)
qed simp

lemma Get_same:
  assumes "same_store city e1 e2"
  shows "KVEngineMultiMapPM_Get cfg city k e1 = KVEngineMapPM_Get cfg k e2"
    "KVEngineMultiMapPM_BatchGet cfg city ks e1 = KVEngineMapPM_BatchGet cfg ks e2"
proof -
  have v: "value_array cfg d e1 = value_array cfg d e2" for d using assms by (simp add: value_array_def same_store_def)
  have b: "en_bytes e1 = en_bytes e2" using assms by (simp add: same_store_def)
  have "load_value cfg d e1 = load_value cfg d e2" for d unfolding load_value_def v b ..
  then show "KVEngineMultiMapPM_Get cfg city k e1 = KVEngineMapPM_Get cfg k e2"
    using assms by (cases "en_table e2 k") (simp_all add: KVEngineMultiMapPM_Get_def KVEngineMapPM_Get_def same_store_def Let_def)
  have "(\<lambda>k. let shard = map_shard city k in batch_floats cfg ((en_table e1 ! shard) k) e1) = (\<lambda>k. batch_floats cfg (en_table e2 k) e2)"
    using assms v by (simp add: batch_floats_def same_store_def Let_def fun_eq_iff cong: option.case_cong)
  then show "KVEngineMultiMapPM_BatchGet cfg city ks e1 = KVEngineMapPM_BatchGet cfg ks e2"
    by (simp only: KVEngineMultiMapPM_BatchGet_def KVEngineMapPM_BatchGet_def)
qed

lemma batch_loop_nth: "batch_loop (\<lambda>i. g (ks ! i)) [0..<length ks] = batch_loop g ks"
proof -
  have "batch_loop (\<lambda>i. g (f i)) is = batch_loop g (map f is)" for f and "is" :: "nat list" by (induction "is") simp_all
  from this [of "(!) ks" "[0..<length ks]"] show ?thesis by (simp add: map_nth)
qed

section \<open>Other engines\<close>

text \<open>A second insertion under a key does not change what the key maps to; the new block is lost.\<close>

lemma Put_keeps_old: "en_table e k = Some d \<Longrightarrow> KVEngineMap_Put cfg k v e = Returns e' \<Longrightarrow> en_table e' k = Some d"
  by (auto simp: KVEngineMap_Put_def store_value_def run_simps umap_insert_def)

text \<open>
  The engine without an index writes at the offset \<open>key\<close> and reads batches at the offset \<open>key * value_size\<close>:
  the two agree on key 0 only, while the product does not wrap.
\<close>

lemma FakeKV_offsets:
  assumes "unat k * en_value_size e < 2 ^ 64" and "1 < en_value_size e"
  shows "KVEngineFakeKV_BatchGet [k] e = [Floats (unat k) (int (en_value_size e) div 4)] \<longleftrightarrow> k = 0"
proof (cases "k = 0")
  case False
  then have k: "0 < unat k" by (simp add: unat_gt_0)
  have "en_value_size e \<le> unat k * en_value_size e" using k by simp
  then have "unat (of_nat (en_value_size e) :: u64) = en_value_size e" using assms(1) by (intro unat_nat_u64) linarith
  then have "unat (k * of_nat (en_value_size e)) = unat k * en_value_size e"
    using assms(1) by (simp add: unat_word_ariths)
  then show ?thesis using False k assms(2) by (simp add: KVEngineFakeKV_BatchGet_def)
qed (simp add: KVEngineFakeKV_BatchGet_def)

text \<open>The engine over the sharded store returns what was put last; for an unknown key the string of the caller stays.\<close>

lemma KVEnginePetKV_Get_value:
  assumes "mk_inv b cfg city mk"
  shows "KVEnginePetKV_Get cfg city key value mk = Returns (case mk_map cfg city mk key of None \<Rightarrow> value | Some v \<Rightarrow> v)"
proof -
  let ?kv = "mk_shm_kv mk ! GetShard city (mk_shard_num mk) key"
  have inv: "kv_inv b cfg ?kv" using assms shards_invD(1,2) by (fastforce simp: mk_inv_def)
  have m: "mk_map cfg city mk key = kv_map cfg ?kv key" by (simp add: mk_map_def shards_abs_def)
  show ?thesis
  proof (cases "kv_map cfg ?kv key")
    case None
    then show ?thesis using PetKV_Get_miss [OF inv None] m by (simp add: KVEnginePetKV_Get_def PetMultiKV_Get_def)
  next
    case (Some v)
    then obtain off e where "PetKV_Get cfg key ?kv = Returns \<lparr>rd_expire_timet = e, rd_data = Some off, rd_size = int (length v)\<rparr>"
      "map (kv_bytes ?kv) [unat off..<unat off + length v] = v"
      using PetKV_Get_hit [OF inv Some] by blast
    then show ?thesis using Some m by (simp add: KVEnginePetKV_Get_def PetMultiKV_Get_def)
  qed
qed

section \<open>Properties\<close>

text \<open>
  (C31) The engine over a map keeps what is put into it: a new engine whose value size is a multiple of 8
  returns after up to \<open>capacity - 1\<close> insertions with different keys every value under its key, and
  nothing for other keys.
\<close>

theorem KVEngineMap_stores:
  assumes "PetKVConfig_new b = Returns cfg" and "2 \<le> cap" and "8 dvd vs" and "0 < vs" and "vs < 2 ^ 31"
    and "cap * vs < 2 ^ 63" and "cap * vs < 8 * (2 ^ b - 1)" and "cap \<le> length meta"
    and "init f = Returns (True, f')" and "length kvs < cap" and "distinct (map fst kvs)" and "\<forall>(k, v) \<in> set kvs. length v = vs"
  shows "\<exists>e e'. KVEngineMap_new init del \<lparr>cf_value_size = vs, cf_hash_size = hs, cf_pool_size = ps, cf_num_threads = nt,
        cf_capacity = cap, cf_path = p, cf_library_file = lf, cf_hash_name = hn\<rparr> meta mem f = Returns (e, f') \<and>
    puts_run (KVEngineMap_Put cfg) kvs e = Returns e' \<and>
    (\<forall>k. KVEngineMap_Get cfg k e' = Returns (case map_of kvs k of None \<Rightarrow> [] | Some v \<Rightarrow> v))"
proof -
  let ?m = "cap * vs"
  note c = map_slots [OF assms(2,4)]
  obtain e where n: "KVEngineMap_new init del \<lparr>cf_value_size = vs, cf_hash_size = hs, cf_pool_size = ps, cf_num_threads = nt,
        cf_capacity = cap, cf_path = p, cf_library_file = lf, cf_hash_name = hn\<rparr> meta mem f = Returns (e, f')"
    and h: "engine_holds cfg ?m vs [] e"
    using map_engine_new [where init = init and f = f, OF assms(2,4,5,6,8,9)] by blast
  obtain e' where e': "puts_run (KVEngineMap_Put cfg) kvs e = Returns e'" "engine_holds cfg ?m vs kvs e'"
  proof -
    have "length kvs \<le> simple_slots ?m vs" using assms(10) unfolding c by linarith
    from puts_held [OF assms(1) h this assms(11,12)] show ?thesis using that by blast
  qed
  have "KVEngineMap_Get cfg k e' = Returns (case map_of kvs k of None \<Rightarrow> [] | Some v \<Rightarrow> v)" for k
  proof (cases "map_of kvs k")
    case None
    then have "en_table e' k = None" using e'(2) by (auto simp: engine_holds_def map_of_eq_None_iff)
    then show ?thesis using None by (simp add: KVEngineMap_Get_def)
  next
    case (Some v)
    then obtain j where "j < length kvs" "kvs ! j = (k, v)" by (metis in_set_conv_nth map_of_SomeD)
    then show ?thesis using Some holds_Get [OF assms(1) e'(2) _ assms(3,5,7), of j] assms(10) c by simp
  qed
  with n e'(1) show ?thesis by blast
qed

theorem KVEngineMap_stores_witness:
  "\<exists>cfg e e'. PetKVConfig_new 48 = Returns cfg \<and>
     KVEngineMap_new (\<lambda>f. Returns (True, f)) Returns \<lparr>cf_value_size = 8, cf_hash_size = 0, cf_pool_size = 0, cf_num_threads = 1,
        cf_capacity = 3, cf_path = ''/p'', cf_library_file = [], cf_hash_name = ''clht''\<rparr> [0, 0, 0] (\<lambda>a. 0) () = Returns (e, ()) \<and>
     puts_run (KVEngineMap_Put cfg) [(5, replicate 8 1), (6, replicate 8 2)] e = Returns e' \<and>
     KVEngineMap_Get cfg 5 e' = Returns (replicate 8 1) \<and> KVEngineMap_Get cfg 7 e' = Returns []"
proof -
  have "\<exists>cfg. PetKVConfig_new 48 = Returns cfg" by (simp add: PetKVConfig_new_def Let_def)
  then obtain cfg where c: "PetKVConfig_new 48 = Returns cfg" ..
  let ?kvs = "[(5, replicate 8 1), (6, replicate 8 2)]"
  obtain e e' where r: "KVEngineMap_new (\<lambda>f. Returns (True, f)) Returns \<lparr>cf_value_size = 8, cf_hash_size = 0, cf_pool_size = 0, cf_num_threads = 1,
        cf_capacity = 3, cf_path = ''/p'', cf_library_file = [], cf_hash_name = ''clht''\<rparr> [0, 0, 0] (\<lambda>a. 0) () = Returns (e, ())"
    "puts_run (KVEngineMap_Put cfg) ?kvs e = Returns e'"
    "\<forall>k. KVEngineMap_Get cfg k e' = Returns (case map_of ?kvs k of None \<Rightarrow> [] | Some v \<Rightarrow> v)"
    using KVEngineMap_stores [OF c, where cap = 3 and vs = 8 and meta = "[0, 0, 0]" and init = "\<lambda>f. Returns (True, f)" and f = "()"
        and f' = "()" and kvs = ?kvs and del = Returns and mem = "\<lambda>a. 0" and hs = 0 and ps = 0 and nt = 1 and p = "''/p''"
        and lf = "[]" and hn = "''clht''"] by auto
  have "KVEngineMap_Get cfg 5 e' = Returns (replicate 8 1)" "KVEngineMap_Get cfg 7 e' = Returns []" using r(3) by simp_all
  with c r(1,2) show ?thesis by blast
qed

text \<open>
  (C32) The engine with 32 maps is equivalent to the one with a single map, for every hash function: after
  the same insertions, duplicate keys included, either both fail in the same way or all lookups and all
  batches give the same results. The prefetching of the F14 engine has no effect on its results.
\<close>

theorem KVEngineMultiMapPM_equivalent:
  assumes "KVEngineMultiMapPM_new pool_init init del config meta mem f = Returns (e1, f1)"
    and "KVEngineMapPM_new pool_init init del config meta mem f = Returns (e2, f2)"
  shows "(case puts_run (KVEngineMultiMapPM_Put cfg city) kvs e1 of
      Returns e1' \<Rightarrow> \<exists>e2'. puts_run (KVEngineMapPM_Put cfg) kvs e2 = Returns e2' \<and>
        (\<forall>k. KVEngineMultiMapPM_Get cfg city k e1' = KVEngineMapPM_Get cfg k e2') \<and>
        (\<forall>ks. KVEngineMultiMapPM_BatchGet cfg city ks e1' = KVEngineMapPM_BatchGet cfg ks e2' \<and>
           (\<forall>m. KVEngineF14_BatchGet cfg m ks e2' = KVEngineMapPM_BatchGet cfg ks e2'))
    | Aborts x \<Rightarrow> puts_run (KVEngineMapPM_Put cfg) kvs e2 = Aborts x
    | Diverges \<Rightarrow> puts_run (KVEngineMapPM_Put cfg) kvs e2 = Diverges)"
proof -
  have "same_store city e1 e2"
    using assms by (auto simp: KVEngineMultiMapPM_new_def KVEngineMapPM_new_def engine_new_def run_simps open_valid_def
        same_store_def map_shard_less split: if_splits)
  from puts_same [OF this, of cfg kvs] have p: "case puts_run (KVEngineMultiMapPM_Put cfg city) kvs e1 of
      Returns e1' \<Rightarrow> \<exists>e2'. puts_run (KVEngineMapPM_Put cfg) kvs e2 = Returns e2' \<and> same_store city e1' e2'
    | Aborts x \<Rightarrow> puts_run (KVEngineMapPM_Put cfg) kvs e2 = Aborts x
    | Diverges \<Rightarrow> puts_run (KVEngineMapPM_Put cfg) kvs e2 = Diverges" .
  have "KVEngineF14_BatchGet cfg m ks e = KVEngineMapPM_BatchGet cfg ks e" for m ks e
    using batch_loop_nth [of "\<lambda>k. batch_floats cfg (en_table e k) e" ks]
    by (simp add: KVEngineF14_BatchGet_def KVEngineMapPM_BatchGet_def)
  then show ?thesis
    using p Get_same by (cases "puts_run (KVEngineMultiMapPM_Put cfg city) kvs e1") auto
qed

theorem KVEngineMultiMapPM_equivalent_witness:
  "\<exists>cfg e1 e2. PetKVConfig_new 48 = Returns cfg \<and>
     KVEngineMultiMapPM_new Returns (\<lambda>f. Returns (True, f)) Returns \<lparr>cf_value_size = 8, cf_hash_size = 0, cf_pool_size = 0,
        cf_num_threads = 1, cf_capacity = 3, cf_path = ''/p'', cf_library_file = [], cf_hash_name = ''clht''\<rparr> [0, 0, 0] (\<lambda>a. 0) () = Returns (e1, ()) \<and>
     (case puts_run (KVEngineMultiMapPM_Put cfg (\<lambda>bs. 77)) [(5, replicate 8 1), (5, replicate 8 2)] e1 of
        Returns e1' \<Rightarrow> \<exists>e2'. puts_run (KVEngineMapPM_Put cfg) [(5, replicate 8 1), (5, replicate 8 2)] e2 = Returns e2' \<and>
          KVEngineMultiMapPM_Get cfg (\<lambda>bs. 77) 5 e1' = KVEngineMapPM_Get cfg 5 e2'
      | Aborts x \<Rightarrow> puts_run (KVEngineMapPM_Put cfg) [(5, replicate 8 1), (5, replicate 8 2)] e2 = Aborts x
      | Diverges \<Rightarrow> puts_run (KVEngineMapPM_Put cfg) [(5, replicate 8 1), (5, replicate 8 2)] e2 = Diverges)"
proof -
  let ?c = "\<lparr>cf_value_size = 8, cf_hash_size = 0, cf_pool_size = 0,
        cf_num_threads = 1, cf_capacity = 3, cf_path = ''/p'', cf_library_file = [], cf_hash_name = ''clht''\<rparr>"
  have "\<exists>cfg. PetKVConfig_new 48 = Returns cfg" by (simp add: PetKVConfig_new_def Let_def)
  then obtain cfg where c: "PetKVConfig_new 48 = Returns cfg" ..
  have "\<exists>e1. KVEngineMultiMapPM_new Returns (\<lambda>f. Returns (True, f)) Returns ?c [0, 0, 0] (\<lambda>a. 0) () = Returns (e1, ())"
    by (simp add: KVEngineMultiMapPM_new_def engine_new_def SimpleMalloc_new_def open_valid_def)
  then obtain e1 where 1: "KVEngineMultiMapPM_new Returns (\<lambda>f. Returns (True, f)) Returns ?c [0, 0, 0] (\<lambda>a. 0) () = Returns (e1, ())" ..
  have "\<exists>e2. KVEngineMapPM_new Returns (\<lambda>f. Returns (True, f)) Returns ?c [0, 0, 0] (\<lambda>a. 0) () = Returns (e2, ())"
    by (simp add: KVEngineMapPM_new_def engine_new_def SimpleMalloc_new_def open_valid_def)
  then obtain e2 where 2: "KVEngineMapPM_new Returns (\<lambda>f. Returns (True, f)) Returns ?c [0, 0, 0] (\<lambda>a. 0) () = Returns (e2, ())" ..
  from KVEngineMultiMapPM_equivalent [OF 1 2, where cfg = cfg and city = "\<lambda>bs. 77" and kvs = "[(5, replicate 8 1), (5, replicate 8 2)]"]
  have "case puts_run (KVEngineMultiMapPM_Put cfg (\<lambda>bs. 77)) [(5, replicate 8 1), (5, replicate 8 2)] e1 of
        Returns e1' \<Rightarrow> \<exists>e2'. puts_run (KVEngineMapPM_Put cfg) [(5, replicate 8 1), (5, replicate 8 2)] e2 = Returns e2' \<and>
          KVEngineMultiMapPM_Get cfg (\<lambda>bs. 77) 5 e1' = KVEngineMapPM_Get cfg 5 e2'
      | Aborts x \<Rightarrow> puts_run (KVEngineMapPM_Put cfg) [(5, replicate 8 1), (5, replicate 8 2)] e2 = Aborts x
      | Diverges \<Rightarrow> puts_run (KVEngineMapPM_Put cfg) [(5, replicate 8 1), (5, replicate 8 2)] e2 = Diverges"
    by (cases "puts_run (KVEngineMultiMapPM_Put cfg (\<lambda>bs. 77)) [(5, replicate 8 1), (5, replicate 8 2)] e1") (auto simp del: puts_run.simps)
  with c 1 show ?thesis by blast
qed

end
