(* ===== verification/Ps_Message.thy ===== *)
theory Ps_Message
  imports Base_Array Kv_Engines "HOL-Library.Signed_Division"
begin

text \<open>
  What servers and clients of the parameter server share: the roles of the processes
  (\<open>src/src/ps/Postoffice.cc\<close>, \<open>Postoffice.h\<close>), the assignment of keys to servers (\<open>shard_manager.h\<close>), and the messages
  and remote writes of the network layer (\<open>src/third_party/Mayfly-main/include\<close>). The answers of memcached
  are given as a sequence. Assertions of the network layer are compiled out, as in a release build.
\<close>

section \<open>Roles\<close>

datatype actor = ACTOR_SERVER | ACTOR_CLIENT

text \<open>\<open>server_id_\<close> is not initialised in a client, nor \<open>client_id_\<close> in a server.\<close>

record XPostoffice =
  num_servers :: int
  num_clients :: int
  global_id :: int
  server_id :: "int option"
  client_id :: "int option"
  po_actor :: actor

text \<open>The constructor, up to the connection; \<open>init\<close> is the static flag.\<close>

definition XPostoffice_new :: "int \<Rightarrow> int \<Rightarrow> int \<Rightarrow> bool \<Rightarrow> (XPostoffice \<times> bool) run" where
  "XPostoffice_new num_server_processes num_client_processes g_id init =
     run_bind (run_check (\<not> init) ''init_ == false'') (\<lambda>_.
       if 0 \<le> g_id \<and> g_id < num_server_processes
       then Returns (\<lparr>num_servers = num_server_processes, num_clients = num_client_processes, global_id = g_id,
              server_id = Some g_id, client_id = None, po_actor = ACTOR_SERVER\<rparr>, True)
       else if num_server_processes \<le> g_id \<and> g_id < num_server_processes + num_client_processes
       then Returns (\<lparr>num_servers = num_server_processes, num_clients = num_client_processes, global_id = g_id,
              server_id = None, client_id = Some (g_id - num_server_processes), po_actor = ACTOR_CLIENT\<rparr>, True)
       else Aborts (LogFatal ''Invalid XPostoffice''))"

definition IsServer :: "XPostoffice \<Rightarrow> bool" where
  "IsServer po = (po_actor po = ACTOR_SERVER)"

definition IsClient :: "XPostoffice \<Rightarrow> bool" where
  "IsClient po = (po_actor po = ACTOR_CLIENT)"

text \<open>\<open>find_first_not_of\<close> and \<open>find_last_not_of\<close> for the blank; \<open>npos + 1\<close> is 0.\<close>

definition find_first_not_of :: "string \<Rightarrow> nat option" where
  "find_first_not_of s = find (\<lambda>i. s ! i \<noteq> CHR '' '') [0..<length s]"

definition find_last_not_of :: "string \<Rightarrow> nat option" where
  "find_last_not_of s = find (\<lambda>i. s ! i \<noteq> CHR '' '') (rev [0..<length s])"

definition trim :: "string \<Rightarrow> string" where
  "trim s =
     (if s = [] then s
      else let res = (case find_first_not_of s of None \<Rightarrow> [] | Some i \<Rightarrow> drop i s)
           in case find_last_not_of res of None \<Rightarrow> [] | Some i \<Rightarrow> take (i + 1) res)"

text \<open>\<open>std::stoi\<close>: white space, a sign, digits; the rest of the string is ignored.\<close>

definition digits_value :: "string \<Rightarrow> int" where
  "digits_value ds = foldl (\<lambda>n c. 10 * n + int (of_char c) - 48) 0 ds"

definition stoi :: "string \<Rightarrow> int run" where
  "stoi s =
     (let r = dropWhile (\<lambda>c. c \<in> {CHR '' '', CHR 0x09, CHR 0x0A, CHR 0x0B, CHR 0x0C, CHR 0x0D}) s;
          (neg, r) = (case r of [] \<Rightarrow> (False, []) | c # cs \<Rightarrow> if c = CHR ''-'' then (True, cs) else if c = CHR ''+'' then (False, cs) else (False, r));
          ds = takeWhile (\<lambda>c. 48 \<le> (of_char c :: nat) \<and> (of_char c :: nat) \<le> 57) r;
          n = (if neg then - digits_value ds else digits_value ds)
      in if ds = [] then Aborts (Uncaught ''invalid_argument'')
         else if - (2 ^ 31) \<le> n \<and> n < 2 ^ 31 then Returns n
         else Aborts (Uncaught ''out_of_range''))"

text \<open>The address and port that are handed to memcached, from the lines of the file (\<open>getline\<close> at the end of the file gives the empty string).\<close>

definition ConnectMemcached :: "string list option \<Rightarrow> (string \<times> int) run" where
  "ConnectMemcached conf =
     (case conf of
        None \<Rightarrow> Aborts (LogFatal ''can't open memcached.conf'')
      | Some ls \<Rightarrow>
          let addr = (if 0 < length ls then ls ! 0 else []);
              port = (if 1 < length ls then ls ! 1 else [])
          in run_bind (stoi (trim port)) (\<lambda>p. Returns (trim addr, p)))"

text \<open>The loop that asks memcached until it answers.\<close>

partial_function (option) memcached_loop :: "(nat \<Rightarrow> 'a option) \<Rightarrow> nat \<Rightarrow> 'a option" where
  "memcached_loop answer n = (case answer n of Some r \<Rightarrow> Some r | None \<Rightarrow> memcached_loop answer (Suc n))"

text \<open>The result is read as a string that ends with a zero byte.\<close>

definition MemCachedGet :: "(nat \<Rightarrow> u8 list option) \<Rightarrow> u8 list run" where
  "MemCachedGet answer = run_bind (run_of_option (memcached_loop answer 0)) (\<lambda>res. Returns (takeWhile (\<lambda>b. b \<noteq> 0) res))"

definition MemCachedSet :: "(nat \<Rightarrow> unit option) \<Rightarrow> unit run" where
  "MemCachedSet answer = run_of_option (memcached_loop answer 0)"

section \<open>The server of a key\<close>

text \<open>The number of servers is converted to the unsigned type of the hash; the result is an \<open>int\<close>.\<close>

definition KeyPartition :: "(u8 list \<Rightarrow> u64) \<Rightarrow> XPostoffice \<Rightarrow> u64 \<Rightarrow> int run" where
  "KeyPartition city po key =
     (let n = (of_int (num_servers po) :: u64)
      in if n = 0 then Aborts (Undefined ''division by zero'')
         else Returns (sint (ucast (GetHash city key mod n) :: 32 word)))"

section \<open>Messages and remote writes\<close>

datatype RpcType = GET | PUT | DEL | GET_SERVER_THREADIDS | RESP_GET_OK | RESP_GET_NOT_FOUND | RESP_PUT
  | RESP_DEL_OK | RESP_DEL_NOT_FOUND | RESP_GET_SERVER_THREADIDS

record GlobalAddress =
  nodeID :: "16 word"
  ga_offset :: "48 word"

record RawMessage =
  msg_type :: RpcType
  msg_node :: u8
  msg_thread :: u8
  receive_gaddr :: GlobalAddress
  msg_body :: "u8 list"

definition sizeof_RawMessage :: nat where
  "sizeof_RawMessage = 14"

definition MESSAGE_SIZE :: nat where
  "MESSAGE_SIZE = 4096"

definition add_string :: "u8 list \<Rightarrow> RawMessage \<Rightarrow> RawMessage" where
  "add_string s m = m\<lparr>msg_body := msg_body m @ le_bytes 4 (of_nat (length s) :: u32) @ s\<rparr>"

text \<open>A message without a string leaves the reader with what the buffer held before.\<close>

definition get_string :: "RawMessage \<Rightarrow> u8 list run" where
  "get_string m =
     (let k = unat (le_word (take 4 (msg_body m)) :: u32)
      in if length (msg_body m) < 4 + k then Aborts (Undefined ''get_string behind the message'')
         else Returns (take k (drop 4 (msg_body m))))"

text \<open>
  \<open>rpc_call\<close>: the message that reaches the other side. The size is checked before the string is added,
  in a slot of \<open>MESSAGE_SIZE\<close> bytes. A null pointer adds nothing.
\<close>

definition rpc_call :: "nat \<Rightarrow> nat \<Rightarrow> RawMessage \<Rightarrow> u8 list option \<Rightarrow> RawMessage run" where
  "rpc_call my_node my_thread m extra =
     (if MESSAGE_SIZE \<le> sizeof_RawMessage + length (msg_body m) + 40 then Aborts (LogFatal ''message size too large'')
      else let m = m\<lparr>msg_node := of_nat my_node, msg_thread := of_nat my_thread\<rparr>;
               m = (case extra of None \<Rightarrow> m | Some s \<Rightarrow> add_string s m)
           in if MESSAGE_SIZE < sizeof_RawMessage + length (msg_body m) then Aborts (Undefined ''message behind its slot'')
              else Returns m)"

text \<open>What a thread takes from its completion queue: a message, or the end of one of its own requests.\<close>

datatype cq_event = Recv RawMessage | Completion u64

text \<open>A remote write, and its effect on the memory of the node it is directed to, where the shared region starts at \<open>base\<close>.\<close>

record rdma_write =
  rw_gaddr :: GlobalAddress
  rw_bytes :: "u8 list"
  rw_id :: u64

definition deliver :: "nat \<Rightarrow> rdma_write \<Rightarrow> (nat \<Rightarrow> u8) \<Rightarrow> nat \<Rightarrow> u8" where
  "deliver base w mem = memcpy (base + unat (ga_offset (rw_gaddr w))) (rw_bytes w) mem"

definition deliver_all :: "nat \<Rightarrow> rdma_write list \<Rightarrow> (nat \<Rightarrow> u8) \<Rightarrow> nat \<Rightarrow> u8" where
  "deliver_all base ws mem = fold (deliver base) ws mem"

definition FINISH_MAGIC :: u32 where
  "FINISH_MAGIC = 123456789"

definition WR_ID_DEFAULT :: u64 where "WR_ID_DEFAULT = 0"
definition WR_ID_GET :: u64 where "WR_ID_GET = 1"
definition WR_ID_SG_GET :: u64 where "WR_ID_SG_GET = 2"
definition WR_ID_PUT :: u64 where "WR_ID_PUT = 3"

section \<open>Facts\<close>

lemma find_map: "find P (map f xs) = map_option f (find (\<lambda>x. P (f x)) xs)"
  by (induction xs) auto

lemma find_drop: "(case find (\<lambda>i. s ! i \<noteq> c) [0..<length s] of None \<Rightarrow> [] | Some i \<Rightarrow> drop i s) = dropWhile ((=) c) s"
proof (induction s)
  case (Cons x s)
  have "find (\<lambda>i. (x # s) ! i \<noteq> c) [1..<Suc (length s)] = map_option Suc (find (\<lambda>i. s ! i \<noteq> c) [0..<length s])"
    unfolding One_nat_def map_Suc_upt [symmetric] by (simp add: find_map)
  then show ?case using Cons by (auto simp: upt_rec [of 0] split: option.splits simp del: upt_Suc)
qed simp

lemma find_take:
  "(case find (\<lambda>i. s ! i \<noteq> c) (rev [0..<length s]) of None \<Rightarrow> [] | Some i \<Rightarrow> take (i + 1) s) = rev (dropWhile ((=) c) (rev s))"
proof -
  have r: "rev [0..<length s] = map (\<lambda>j. length s - 1 - j) [0..<length s]"
    by (rule nth_equalityI) (simp_all add: rev_nth)
  have f: "find (\<lambda>j. s ! (length s - 1 - j) \<noteq> c) [0..<length s] = find (\<lambda>j. rev s ! j \<noteq> c) [0..<length (rev s)]"
    by (rule find_cong) (simp_all add: rev_nth)
  show ?thesis
  proof (cases "find (\<lambda>j. rev s ! j \<noteq> c) [0..<length (rev s)]")
    case (Some j)
    then have "j < length s" by (auto simp: find_Some_iff)
    then have "take (length s - 1 - j + 1) s = rev (drop j (rev s))" by (simp add: rev_drop Suc_diff_Suc)
    then show ?thesis unfolding r find_map f find_drop [of "rev s" c, symmetric] unfolding Some by simp
  next
    case None
    show ?thesis unfolding r find_map f find_drop [of "rev s" c, symmetric] unfolding None by simp
  qed
qed

lemma trim_is_strip: "trim s = rev (dropWhile ((=) CHR '' '') (rev (dropWhile ((=) CHR '' '') s)))"
  by (simp add: trim_def find_first_not_of_def find_last_not_of_def find_drop find_take Let_def)

lemma memcached_loop_ends: "answer n = Some r \<Longrightarrow> (\<And>i. i < n \<Longrightarrow> answer i = None) \<Longrightarrow> memcached_loop answer 0 = Some r"
proof -
  assume a: "answer n = Some r" "\<And>i. i < n \<Longrightarrow> answer i = None"
  have "k \<le> n \<Longrightarrow> memcached_loop answer (n - k) = Some r" for k
  proof (induction k)
    case (Suc k)
    then have "Suc (n - Suc k) = n - k" "answer (n - Suc k) = None" using a(2) by auto
    then show ?case using Suc by (subst memcached_loop.simps) simp
  qed (subst memcached_loop.simps, simp add: a)
  from this [of n] show ?thesis by simp
qed

lemma KeyPartition_range:
  assumes "0 < num_servers po" "num_servers po < 2 ^ 31"
  shows "KeyPartition city po key = Returns (int (unat (GetHash city key) mod nat (num_servers po)))"
    and "int (unat (GetHash city key) mod nat (num_servers po)) < num_servers po"
proof -
  let ?n = "of_int (num_servers po) :: u64" and ?r = "unat (GetHash city key) mod nat (num_servers po)"
  have "take_bit 64 (num_servers po) = num_servers po" using assms by (simp add: take_bit_int_eq_self)
  then have n: "unat ?n = nat (num_servers po)" by (simp add: unsigned_of_int)
  then have "?n \<noteq> 0" using assms(1) by (metis unat_0 nat_0_iff not_less)
  moreover have u: "unat (GetHash city key mod ?n) = ?r" by (simp add: unat_mod_distrib n)
  moreover show lt: "int ?r < num_servers po" using assms(1) by (simp add: zmod_int)
  moreover have "(ucast (GetHash city key mod ?n) :: 32 word) = of_nat ?r" unfolding u [symmetric] by (simp add: unsigned_ucast_eq)
  moreover have "sint (of_nat ?r :: 32 word) = int ?r" using lt assms(2) by (intro sint_nat) simp
  ultimately show "KeyPartition city po key = Returns (int ?r)" by (simp add: KeyPartition_def Let_def)
qed

lemma get_add_string:
  assumes "msg_body m = []" and "length s < 2 ^ 32"
  shows "get_string (add_string s m) = Returns s"
proof -
  have "unat (le_word (le_bytes 4 (of_nat (length s) :: u32)) :: u32) = length s"
    using assms(2) by (simp add: le_word_bytes unsigned_of_nat take_bit_nat_eq_self)
  then show ?thesis by (simp add: get_string_def add_string_def assms(1))
qed

lemma rpc_call_get_string:
  assumes "msg_body m = []" and "length s \<le> 4078"
  shows "\<exists>m'. rpc_call my_node my_thread m (Some s) = Returns m' \<and> get_string m' = Returns s \<and>
    msg_type m' = msg_type m \<and> receive_gaddr m' = receive_gaddr m"
proof -
  let ?m = "m\<lparr>msg_node := of_nat my_node, msg_thread := of_nat my_thread\<rparr>"
  have "rpc_call my_node my_thread m (Some s) = Returns (add_string s ?m)"
    using assms by (simp add: rpc_call_def MESSAGE_SIZE_def sizeof_RawMessage_def add_string_def)
  moreover have "get_string (add_string s ?m) = Returns s" using assms by (intro get_add_string) simp_all
  ultimately show ?thesis by (simp add: add_string_def)
qed

end
