(* ===== verification/Ps_Server.thy ===== *)
theory Ps_Server
  imports Ps_Message Mem_Epoch_Steps
begin

text \<open>
  The server (\<open>src/src/ps/petps_server.cc\<close>): \<open>RDMARpcParameterServiceImpl\<close> with its handlers and the polling
  thread, and the choice of the engine in \<open>main\<close>. The engine is given by its operations. Timers,
  log messages and the pinning of threads are left out; the barrier of the network layer is the step
  that sets \<open>barrier_ready_\<close>.
\<close>

section \<open>The service\<close>

record SourceList =
  sl_addr :: nat
  sl_size :: "16 word"

text \<open>
  \<open>serving_thread_id\<close> is the static counter of the handler; \<open>rdma_buffer\<close> is the registered buffer of each
  thread, \<open>random_engine\<close> its generator.
\<close>

record ('e, 'r) service =
  base_kv :: 'e
  thread_count :: nat
  sourcelists :: "SourceList list list"
  epoch_manager :: EpochManager
  barrier_ready :: bool
  tp :: "u64 list"
  serving_thread_id :: "32 word"
  rdma_buffer :: "nat \<Rightarrow> nat \<Rightarrow> u8"
  random_engine :: "nat \<Rightarrow> 'r"

definition kMaxThread :: nat where
  "kMaxThread = 128"

text \<open>The memory that is registered with the network card: the persistent memory, or 100 MB of huge pages.\<close>

definition register_memory :: "bool \<Rightarrow> u64 \<times> u64 \<Rightarrow> (u64 \<Rightarrow> u64) \<Rightarrow> u64 \<times> u64" where
  "register_memory use_sglist pm hugePageAlloc =
     (let mb = 100 * 1024 * 1024
      in if use_sglist then (if fst pm = 0 \<or> snd pm = 0 then (hugePageAlloc mb, mb) else pm)
         else (hugePageAlloc mb, mb))"

text \<open>The constructor; \<open>counters\<close> is what the array \<open>tp\<close> holds before \<open>Start\<close>, \<open>my_node\<close> the number that the network layer assigns.\<close>

definition service_new ::
  "'e \<Rightarrow> nat \<Rightarrow> nat \<Rightarrow> int \<Rightarrow> XPostoffice \<Rightarrow> EpochManager \<Rightarrow> u64 list \<Rightarrow> (nat \<Rightarrow> nat \<Rightarrow> u8) \<Rightarrow> (nat \<Rightarrow> 'r) \<Rightarrow> ('e, 'r) service run" where
  "service_new kv threads max_kv my_node po em counters bufs rnd =
     run_bind (run_check (threads \<le> kMaxThread) ''thread_count <= kMaxThread'') (\<lambda>_.
     run_bind (run_check (my_node = global_id po) ''inconsistent postoffice and wq dsm'') (\<lambda>_.
       Returns \<lparr>base_kv = kv, thread_count = threads,
         sourcelists = replicate threads (replicate max_kv \<lparr>sl_addr = 0, sl_size = 0\<rparr>),
         epoch_manager = em, barrier_ready = False, tp = counters, serving_thread_id = 0,
         rdma_buffer = bufs, random_engine = rnd\<rparr>))"

text \<open>\<open>Start\<close> resets the counter of each polling thread; \<open>WaitForBarrier\<close> lets them go.\<close>

definition Start :: "('e, 'r) service \<Rightarrow> ('e, 'r) service" where
  "Start sv = sv\<lparr>tp := fold (\<lambda>i t. t[i := 0]) [0..<thread_count sv] (tp sv)\<rparr>"

definition WaitForBarrier :: "('e, 'r) service \<Rightarrow> ('e, 'r) service" where
  "WaitForBarrier sv = sv\<lparr>barrier_ready := True\<rparr>"

definition GetThroughputCounterSum :: "('e, 'r) service \<Rightarrow> u64" where
  "GetThroughputCounterSum sv = fold (\<lambda>i sum. sum + tp sv ! i) [0..<thread_count sv] 0"

section \<open>Handlers\<close>

text \<open>A message to a thread of another node.\<close>

record reply =
  to_node :: u8
  to_thread :: u8
  reply_msg :: RawMessage

definition null_gaddr :: GlobalAddress where
  "null_gaddr = \<lparr>nodeID = 0, ga_offset = 0\<rparr>"

text \<open>Two threads in turn; \<open>%\<close> keeps the sign of its first argument.\<close>

definition RpcGetServerServingThreadIDs :: "nat \<Rightarrow> nat \<Rightarrow> RawMessage \<Rightarrow> ('e, 'r) service \<Rightarrow> (reply \<times> ('e, 'r) service) run" where
  "RpcGetServerServingThreadIDs my_node my_thread recv sv =
     run_bind (run_check (msg_type recv = GET_SERVER_THREADIDS) ''recv->type == GET_SERVER_THREADIDS'') (\<lambda>_.
       if thread_count sv = 0 then Aborts (Undefined ''division by zero'')
       else let r1 = serving_thread_id sv;
                r2 = r1 + 1;
                ids = map (\<lambda>r. of_int (sint r smod int (thread_count sv)) :: 32 word) [r1, r2];
                m = \<lparr>msg_type = RESP_GET_SERVER_THREADIDS, msg_node = 0, msg_thread = 0, receive_gaddr = null_gaddr, msg_body = []\<rparr>
            in run_bind (rpc_call my_node my_thread m (Some (concat (map (le_bytes 4) ids)))) (\<lambda>m.
                 Returns (\<lparr>to_node = msg_node recv, to_thread = msg_thread recv, reply_msg = m\<rparr>,
                   sv\<lparr>serving_thread_id := r2 + 1\<rparr>)))"

text \<open>The keys of a request: the whole words of the string.\<close>

definition request_keys :: "u8 list \<Rightarrow> u64 list" where
  "request_keys s = map (\<lambda>i. le_word (take 8 (drop (8 * i) s))) [0..<length s div 8]"

fun put_loop :: "(u64 \<Rightarrow> u8 list \<Rightarrow> 'e \<Rightarrow> 'e run) \<Rightarrow> (nat \<Rightarrow> nat \<Rightarrow> 'r \<Rightarrow> nat \<times> 'r) \<Rightarrow> nat \<Rightarrow> u64 list \<Rightarrow> 'e \<times> 'r \<Rightarrow> ('e \<times> 'r) run" where
  "put_loop put rand32 value_size [] st = Returns st"
| "put_loop put rand32 value_size (k # ks) (kv, r) =
     (let (s, r) = GetString rand32 value_size r
      in run_bind (put k (map of_char s) kv) (\<lambda>kv. put_loop put rand32 value_size ks (kv, r)))"

definition RpcPsPut ::
  "(u64 \<Rightarrow> u8 list \<Rightarrow> 'e \<Rightarrow> 'e run) \<Rightarrow> (nat \<Rightarrow> nat \<Rightarrow> 'r \<Rightarrow> nat \<times> 'r) \<Rightarrow> nat \<Rightarrow> RawMessage \<Rightarrow> nat \<Rightarrow> ('e, 'r) service \<Rightarrow>
   (rdma_write \<times> ('e, 'r) service) run" where
  "RpcPsPut put rand32 value_size recv thd sv =
     run_bind (get_string recv) (\<lambda>extra_data.
     run_bind (put_loop put rand32 value_size (request_keys extra_data) (base_kv sv, random_engine sv thd)) (\<lambda>(kv, r).
       let buf = memcpy 0 [49, 50, 51, 0] (rdma_buffer sv thd)
       in Returns (\<lparr>rw_gaddr = receive_gaddr recv, rw_bytes = mem_bytes buf 0 4, rw_id = WR_ID_PUT\<rparr>,
            sv\<lparr>base_kv := kv, random_engine := (random_engine sv)(thd := r),
               rdma_buffer := (rdma_buffer sv)(thd := buf)\<rparr>)))"

text \<open>The two loops that copy the values into the buffer; the first one also fills the list of sources.\<close>

fun copy_sources :: "u8 list list \<Rightarrow> nat \<Rightarrow> nat \<Rightarrow> SourceList list \<Rightarrow> (nat \<Rightarrow> u8) \<Rightarrow> SourceList list \<times> (nat \<Rightarrow> u8)" where
  "copy_sources [] i acc sl buf = (sl, buf)"
| "copy_sources (v # vs) i acc sl buf =
     copy_sources vs (i + 1) (acc + length v) (sl[i := \<lparr>sl_addr = acc, sl_size = of_nat (length v)\<rparr>]) (memcpy acc v buf)"

fun copy_values :: "u8 list list \<Rightarrow> nat \<Rightarrow> (nat \<Rightarrow> u8) \<Rightarrow> nat \<times> (nat \<Rightarrow> u8)" where
  "copy_values [] acc buf = (acc, buf)"
| "copy_values (v # vs) acc buf = copy_values vs (acc + length v) (memcpy acc v buf)"

text \<open>
  \<open>write_from_pm_vec\<close> of the network layer: one write for every \<open>seg\<close> sources, each to the place behind the
  one before. It builds an array of that many requests, so it needs at least one source.
\<close>

fun write_vec :: "nat \<Rightarrow> GlobalAddress \<Rightarrow> u64 \<Rightarrow> (nat \<Rightarrow> u8) \<Rightarrow> nat \<Rightarrow> SourceList list \<Rightarrow> nat \<Rightarrow> rdma_write list \<Rightarrow> rdma_write list" where
  "write_vec seg ga wr_id buf i [] acc_size ws = ws"
| "write_vec seg ga wr_id buf i (s # ss) acc_size ws =
     (let bytes = mem_bytes buf (sl_addr s) (unat (sl_size s));
          ws = (if i mod seg = 0
                then ws @ [\<lparr>rw_gaddr = ga\<lparr>ga_offset := ga_offset ga + of_nat acc_size\<rparr>, rw_bytes = bytes, rw_id = wr_id\<rparr>]
                else butlast ws @ [(last ws)\<lparr>rw_bytes := rw_bytes (last ws) @ bytes\<rparr>])
      in write_vec seg ga wr_id buf (i + 1) ss (acc_size + unat (sl_size s)) ws)"

definition write_from_pm_vec :: "(nat \<Rightarrow> u8) \<Rightarrow> SourceList list \<Rightarrow> GlobalAddress \<Rightarrow> nat \<Rightarrow> u64 \<Rightarrow> rdma_write list run" where
  "write_from_pm_vec buf sl ga seg wr_id =
     (if sl = [] then Aborts (Undefined ''empty array of requests'') else Returns (write_vec seg ga wr_id buf 0 sl 0 []))"

text \<open>
  A request for values. \<open>batch\<close> is the \<open>BatchGet\<close> of the engine, \<open>bytes\<close> the content of an array that it
  returns; \<open>get_hash\<close>, \<open>clock\<close> and \<open>tid\<close> belong to the epoch manager.
\<close>

definition RpcPsGet ::
  "(u64 \<Rightarrow> u64) \<Rightarrow> (nat \<Rightarrow> int) \<Rightarrow> u64 \<Rightarrow> (u64 list \<Rightarrow> 'e \<Rightarrow> 'v list run) \<Rightarrow> ('e \<Rightarrow> 'v \<Rightarrow> u8 list) \<Rightarrow> bool \<Rightarrow> nat \<Rightarrow>
   RawMessage \<Rightarrow> nat \<Rightarrow> ('e, 'r) service \<Rightarrow> (rdma_write list \<times> ('e, 'r) service) run" where
  "RpcPsGet get_hash clock tid batch bytes use_sglist max_kv recv thd sv =
     run_bind (Protect get_hash clock tid (epoch_manager sv)) (\<lambda>em.
     run_bind (get_string recv) (\<lambda>extra_data.
       let keys = request_keys extra_data;
           n = length extra_data div 8;
           sv = sv\<lparr>epoch_manager := em, tp := (tp sv)[thd := tp sv ! thd + of_nat n]\<rparr>
       in run_bind (run_check (n \<le> max_kv) ''batch_get_kv_count <= max_kv_num_per_request'') (\<lambda>_.
          run_bind (batch keys (base_kv sv)) (\<lambda>values.
          run_bind (run_check (length values = n) ''values.size() == batch_get_kv_count'') (\<lambda>_.
            let data = map (bytes (base_kv sv)) values in
            if use_sglist
            then let (sl, buf) = copy_sources data 0 0 (sourcelists sv ! thd) (rdma_buffer sv thd) in
                 run_bind (UnProtect get_hash clock tid (epoch_manager sv)) (\<lambda>em.
                 run_bind (write_from_pm_vec buf (take n sl) (receive_gaddr recv) 30 WR_ID_SG_GET) (\<lambda>ws.
                   Returns (ws, sv\<lparr>epoch_manager := em, sourcelists := (sourcelists sv)[thd := sl],
                     rdma_buffer := (rdma_buffer sv)(thd := buf)\<rparr>)))
            else let (acc, buf) = copy_values data 0 (rdma_buffer sv thd) in
                 run_bind (UnProtect get_hash clock tid (epoch_manager sv)) (\<lambda>em.
                   Returns ([\<lparr>rw_gaddr = receive_gaddr recv, rw_bytes = mem_bytes buf 0 acc, rw_id = WR_ID_GET\<rparr>],
                     sv\<lparr>epoch_manager := em, rdma_buffer := (rdma_buffer sv)(thd := buf)\<rparr>)))))))"

text \<open>One round of the polling thread: a completion, or a message and what its handler sends.\<close>

definition PollingThread ::
  "(u64 \<Rightarrow> u64) \<Rightarrow> (nat \<Rightarrow> int) \<Rightarrow> u64 \<Rightarrow> nat \<Rightarrow> nat \<Rightarrow> (u64 \<Rightarrow> u8 list \<Rightarrow> 'e \<Rightarrow> 'e run) \<Rightarrow> (u64 list \<Rightarrow> 'e \<Rightarrow> 'v list run) \<Rightarrow> ('e \<Rightarrow> 'v \<Rightarrow> u8 list) \<Rightarrow>
   (nat \<Rightarrow> nat \<Rightarrow> 'r \<Rightarrow> nat \<times> 'r) \<Rightarrow> nat \<Rightarrow> bool \<Rightarrow> nat \<Rightarrow> nat \<Rightarrow> cq_event \<Rightarrow> ('e, 'r) service \<Rightarrow>
   (rdma_write list \<times> reply list \<times> ('e, 'r) service) run" where
  "PollingThread get_hash clock tid my_node my_thread put batch bytes rand32 value_size use_sglist max_kv thd event sv =
     (if \<not> barrier_ready sv then Diverges
      else case event of
        Completion wr_id \<Rightarrow>
          if wr_id = WR_ID_SG_GET
          then run_bind (UnProtect get_hash clock tid (epoch_manager sv)) (\<lambda>em. Returns ([], [], sv\<lparr>epoch_manager := em\<rparr>))
          else Returns ([], [], sv)
      | Recv recv \<Rightarrow>
          if msg_type recv = GET_SERVER_THREADIDS
          then run_bind (RpcGetServerServingThreadIDs my_node my_thread recv sv) (\<lambda>(r, sv). Returns ([], [r], sv))
          else if msg_type recv = PUT
          then run_bind (RpcPsPut put rand32 value_size recv thd sv) (\<lambda>(w, sv). Returns ([w], [], sv))
          else if msg_type recv = GET
          then run_bind (RpcPsGet get_hash clock tid batch bytes use_sglist max_kv recv thd sv) (\<lambda>(ws, sv). Returns (ws, [], sv))
          else Aborts (LogFatal ''unknown message type''))"

section \<open>The choice of the engine\<close>

text \<open>The engines that are registered: \<open>kv_engine_register.cc\<close> includes two headers, and three more if \<open>PMEM\<close> is defined.\<close>

definition engine_creators :: "bool \<Rightarrow> string creators" where
  "engine_creators pmem =
     fold (\<lambda>n. FactoryCreatorImpl n n)
       ([''KVEnginePetKV''] @ (if pmem then [''KVEngineDash'', ''KVEngineMapPM'', ''KVEngineMultiMapPM''] else []) @ [''KVEngineFakeKV'']) Map.empty"

text \<open>The engine, its configuration and the number of threads that load it, from the flags \<open>use_dram\<close>, \<open>db\<close> and \<open>warmup_thread_num\<close>.\<close>

definition select_engine :: "bool \<Rightarrow> string \<Rightarrow> int \<Rightarrow> string \<Rightarrow> BaseKVConfig \<Rightarrow> (string \<times> BaseKVConfig \<times> int) run" where
  "select_engine use_dram db warmup dir config =
     (let at = (\<lambda>s. config\<lparr>cf_path := dir @ s\<rparr>);
          hashapi = (\<lambda>s name hsize psize. (at s)\<lparr>cf_hash_name := name, cf_hash_size := hsize, cf_pool_size := psize\<rparr>);
          gb = 1024 * 1024 * 1024
      in if use_dram then Returns (db, at ''dram-placeholder'', warmup)
         else if db = ''KVEnginePersistDoubleShmKV'' then Returns (''KVEnginePetKV'', at ''double-placeholder'', warmup)
         else if db = ''KVEnginePersistShmKV'' then Returns (db, at ''kuai-placeholder'', warmup)
         else if db = ''KVEnginePetKV'' then Returns (db, at ''petkv-placeholder'', warmup)
         else if db = ''KVEngineDash'' then Returns (db, at ''dash-placeholder'', warmup)
         else if db = ''KVEngineCLHT'' then Returns (''HashAPI'', hashapi ''CLHT-placeholder'' ''clht'' 40960 (32 * gb * 2), warmup)
         else if db = ''KVEngineLevel'' then Returns (''HashAPI'', hashapi ''Level-placeholder'' ''level'' 40960 (32 * gb * 2), warmup)
         else if db = ''KVEngineClevel'' then Returns (''HashAPI'', hashapi ''Clevel-placeholder'' ''clevel'' 40960 (32 * gb * 2), 1)
         else if db = ''KVEngineCCEH'' then Returns (''HashAPI'', hashapi ''CCEH-placeholder'' ''cceh'' 4096 (32 * gb * 2), warmup)
         else if db = ''KVEngineCCEHVM'' then Returns (''HashAPI'', hashapi ''CCEH-placeholder'' ''ccehvm'' 4096 (32 * gb), 1)
         else if db = ''KVEngineMap'' then Returns (db, at ''unorderedMap-placeholder'', 1)
         else if db = ''KVEngineMapPM'' then Returns (db, (at ''unorderedMapPM-placeholder'')\<lparr>cf_pool_size := 32 * gb\<rparr>, 1)
         else if db = ''KVEngineMultiMapPM'' then Returns (db, (at ''KVEngineMultiMapPM-placeholder'')\<lparr>cf_pool_size := 100 * gb\<rparr>, warmup)
         else if db = ''KVEngineF14'' then Returns (db, (at ''f14-placeholder'')\<lparr>cf_pool_size := 32 * gb\<rparr>, warmup)
         else if db = ''KVEngineFakeKV'' then Returns (db, at ''fake-placeholder'', warmup)
         else Aborts (CheckFailed ''0''))"

text \<open>The first part of \<open>main\<close>: the configuration, and the creator of the engine or the end of the process.\<close>

definition server_main ::
  "bool \<Rightarrow> bool \<Rightarrow> string \<Rightarrow> int \<Rightarrow> int \<Rightarrow> int \<Rightarrow> nat \<Rightarrow> XPostoffice \<Rightarrow> BaseKVConfig \<Rightarrow> (string \<times> BaseKVConfig \<times> int) run" where
  "server_main pmem use_dram db warmup threads key_space_m value_size po config =
     (let dir = ''/dev/shm/petps_server'' @ IntToString (global_id po) @ ''/''
      in run_bind (select_engine use_dram db warmup dir config) (\<lambda>(db, config, warmup).
           if num_servers po = 0 then Aborts (Undefined ''division by zero'')
           else let config = config\<lparr>cf_capacity := nat ((key_space_m * 1024 * 1024) sdiv num_servers po),
                      cf_value_size := value_size, cf_num_threads := nat (max threads warmup)\<rparr>
                in run_bind (NewInstance (engine_creators pmem) db) (\<lambda>(creator, _). Returns (creator, config, warmup))))"

text \<open>Only five of the names that the server accepts lead to an engine, two of them without persistent memory.\<close>

lemma creators_fold: "cs = fold (\<lambda>n. FactoryCreatorImpl n n) ns cs0 \<Longrightarrow> (\<And>n. cs0 n = None \<or> cs0 n = Some (Some n)) \<Longrightarrow>
    cs n = (if n \<in> set ns then Some (Some n) else cs0 n)"
proof (induction ns arbitrary: cs0)
  case (Cons m ns)
  have "\<And>k. FactoryCreatorImpl m m cs0 k = None \<or> FactoryCreatorImpl m m cs0 k = Some (Some k)"
    using Cons.prems(2) by (simp add: FactoryCreatorImpl_def)
  moreover have "cs = fold (\<lambda>n. FactoryCreatorImpl n n) ns (FactoryCreatorImpl m m cs0)" using Cons.prems(1) by simp
  ultimately have "cs n = (if n \<in> set ns then Some (Some n) else FactoryCreatorImpl m m cs0 n)" by (rule Cons.IH [rotated])
  then show ?case using Cons.prems(2) [of m] by (auto simp: FactoryCreatorImpl_def)
qed simp

lemma engine_creators_names:
  "(\<exists>r. NewInstance (engine_creators pmem) n = Returns r) \<longleftrightarrow>
     n \<in> {''KVEnginePetKV'', ''KVEngineFakeKV''} \<or> (pmem \<and> n \<in> {''KVEngineDash'', ''KVEngineMapPM'', ''KVEngineMultiMapPM''})"
  using creators_fold [OF engine_creators_def, of pmem n] by (auto simp: NewInstance_def Let_def)

lemma server_main_engines:
  assumes "num_servers po \<noteq> 0"
  shows "(\<exists>r. server_main pmem False db warmup threads key_space_m value_size po config = Returns r) \<longleftrightarrow>
    db \<in> {''KVEnginePersistDoubleShmKV'', ''KVEnginePetKV'', ''KVEngineFakeKV''} \<or>
    (pmem \<and> db \<in> {''KVEngineDash'', ''KVEngineMapPM'', ''KVEngineMultiMapPM''})"
proof -
  let ?dir = "''/dev/shm/petps_server'' @ IntToString (global_id po) @ ''/''"
  have "(\<exists>r. server_main pmem False db warmup threads key_space_m value_size po config = Returns r) \<longleftrightarrow>
      (\<exists>n c w. select_engine False db warmup ?dir config = Returns (n, c, w) \<and> (\<exists>r. NewInstance (engine_creators pmem) n = Returns r))"
    using assms by (auto simp: server_main_def run_simps Let_def)
  also have "\<dots> \<longleftrightarrow> (\<exists>n c w. select_engine False db warmup ?dir config = Returns (n, c, w) \<and>
      (n \<in> {''KVEnginePetKV'', ''KVEngineFakeKV''} \<or> (pmem \<and> n \<in> {''KVEngineDash'', ''KVEngineMapPM'', ''KVEngineMultiMapPM''})))"
    unfolding engine_creators_names ..
  also have "\<dots> \<longleftrightarrow> db \<in> {''KVEnginePersistDoubleShmKV'', ''KVEnginePetKV'', ''KVEngineFakeKV''} \<or>
    (pmem \<and> db \<in> {''KVEngineDash'', ''KVEngineMapPM'', ''KVEngineMultiMapPM''})"
    by (auto simp: select_engine_def)
  finally show ?thesis .
qed

section \<open>Requests and replies\<close>

lemma request_keys_sent: "request_keys (concat (map (le_bytes 8) ks)) = ks"
proof (induction ks)
  case (Cons k ks)
  have "request_keys (le_bytes 8 k @ s) = k # request_keys s" for s :: "u8 list"
  proof -
    have "length (le_bytes 8 k @ s) div 8 = Suc (length s div 8)" by simp
    then show ?thesis by (simp add: request_keys_def map_upt_Suc le_word_bytes del: upt_Suc)
  qed
  from this [of "concat (map (le_bytes 8) ks)"] show ?case using Cons.IH by simp
qed (simp add: request_keys_def)

lemma length_keys_sent: "length (concat (map (le_bytes 8) (ks :: u64 list))) = 8 * length ks"
  by (simp add: length_concat comp_def sum_list_triv)

lemma memcpy_append: "memcpy (a + length x) y (memcpy a x mem) = memcpy a (x @ y) mem"
  by (rule ext) (auto simp: memcpy_def nth_append)

lemma memcpy_Nil [simp]: "memcpy a [] mem = mem"
  by (rule ext) (auto simp: memcpy_def)

lemma copy_values_eq: "copy_values vs acc buf = (acc + length (concat vs), memcpy acc (concat vs) buf)"
  by (induction vs arbitrary: acc buf) (simp_all add: memcpy_append)

lemma copy_sources_buf: "snd (copy_sources vs i acc sl buf) = memcpy acc (concat vs) buf"
  by (induction vs arbitrary: i acc sl buf) (simp_all add: memcpy_append)

definition sources_of :: "nat \<Rightarrow> u8 list list \<Rightarrow> SourceList list" where
  "sources_of acc vs = map (\<lambda>j. \<lparr>sl_addr = acc + length (concat (take j vs)), sl_size = of_nat (length (vs ! j))\<rparr>) [0..<length vs]"

lemma sources_of_Cons: "sources_of acc (v # vs) = \<lparr>sl_addr = acc, sl_size = of_nat (length v)\<rparr> # sources_of (acc + length v) vs"
  by (simp add: sources_of_def map_upt_Suc add.assoc del: upt_Suc)

lemma copy_sources_list:
  "i + length vs \<le> length sl \<Longrightarrow> take (i + length vs) (fst (copy_sources vs i acc sl buf)) = take i sl @ sources_of acc vs"
proof (induction vs arbitrary: i acc sl buf)
  case (Cons v vs)
  then have "take (Suc i) (sl[i := s]) = take i sl @ [s]" for s by (simp add: take_Suc_conv_app_nth)
  then show ?case using Cons.IH [of "Suc i" "sl[i := \<lparr>sl_addr = acc, sl_size = of_nat (length v)\<rparr>]" "acc + length v" "memcpy acc v buf"] Cons.prems
    by (simp add: sources_of_Cons)
qed (simp add: sources_of_def)

text \<open>Writes that lie one behind the other.\<close>

fun contiguous :: "nat \<Rightarrow> rdma_write list \<Rightarrow> bool" where
  "contiguous off [] = True"
| "contiguous off (w # ws) = (unat (ga_offset (rw_gaddr w)) = off \<and> contiguous (off + length (rw_bytes w)) ws)"

lemma contiguous_append:
  "contiguous off (ws @ [w]) \<longleftrightarrow> contiguous off ws \<and> unat (ga_offset (rw_gaddr w)) = off + length (concat (map rw_bytes ws))"
  by (induction ws arbitrary: off) (simp_all add: add.assoc del: length_concat)

lemma deliver_contiguous: "contiguous off ws \<Longrightarrow> deliver_all base ws mem = memcpy (base + off) (concat (map rw_bytes ws)) mem"
proof (induction ws arbitrary: off mem)
  case (Cons w ws)
  then have "deliver_all base (w # ws) mem = memcpy (base + off + length (rw_bytes w)) (concat (map rw_bytes ws)) (memcpy (base + off) (rw_bytes w) mem)"
    by (simp add: deliver_all_def deliver_def add.assoc)
  then show ?case by (simp add: memcpy_append)
qed (simp add: deliver_all_def)

definition source_bytes :: "(nat \<Rightarrow> u8) \<Rightarrow> SourceList \<Rightarrow> u8 list" where
  "source_bytes buf s = mem_bytes buf (sl_addr s) (unat (sl_size s))"

lemma write_vec_contiguous:
  assumes "contiguous (unat (ga_offset ga)) ws" "length (concat (map rw_bytes ws)) = acc" "i mod seg \<noteq> 0 \<longrightarrow> ws \<noteq> []"
    "unat (ga_offset ga) + acc + length (concat (map (source_bytes buf) ss)) < 2 ^ 48"
  shows "contiguous (unat (ga_offset ga)) (write_vec seg ga wr_id buf i ss acc ws) \<and>
    concat (map rw_bytes (write_vec seg ga wr_id buf i ss acc ws)) = concat (map rw_bytes ws) @ concat (map (source_bytes buf) ss)"
  using assms
proof (induction ss arbitrary: i acc ws)
  case (Cons s ss)
  let ?b = "source_bytes buf s"
  let ?w = "\<lparr>rw_gaddr = ga\<lparr>ga_offset := ga_offset ga + of_nat acc\<rparr>, rw_bytes = ?b, rw_id = wr_id\<rparr>"
  let ?ws = "if i mod seg = 0 then ws @ [?w] else butlast ws @ [(last ws)\<lparr>rw_bytes := rw_bytes (last ws) @ ?b\<rparr>]"
  have off: "unat (ga_offset ga + of_nat acc) = unat (ga_offset ga) + acc"
    using Cons.prems(4) by (simp add: unat_word_ariths unsigned_of_nat take_bit_nat_eq_self)
  have "contiguous (unat (ga_offset ga)) ?ws \<and> concat (map rw_bytes ?ws) = concat (map rw_bytes ws) @ ?b"
  proof (cases "i mod seg = 0")
    case True
    then show ?thesis using Cons.prems(1,2) off by (simp add: contiguous_append)
  next
    case False
    then have ws: "ws = butlast ws @ [last ws]" using Cons.prems(3) by simp
    then have "contiguous (unat (ga_offset ga)) (butlast ws) \<and> unat (ga_offset (rw_gaddr (last ws))) = unat (ga_offset ga) + length (concat (map rw_bytes (butlast ws)))"
      using Cons.prems(1) contiguous_append by metis
    moreover have "concat (map rw_bytes ws) = concat (map rw_bytes (butlast ws)) @ rw_bytes (last ws)" by (subst ws) simp
    ultimately show ?thesis using False by (simp add: contiguous_append)
  qed
  moreover have "length ?b = unat (sl_size s)" by (simp add: source_bytes_def)
  moreover have "write_vec seg ga wr_id buf i (s # ss) acc ws = write_vec seg ga wr_id buf (Suc i) ss (acc + unat (sl_size s)) ?ws"
    by (simp add: source_bytes_def Let_def)
  moreover have "?ws \<noteq> []" by simp
  ultimately show ?case
    using Cons.IH [of ?ws "acc + unat (sl_size s)" "Suc i"] Cons.prems(2,4) by (simp del: write_vec.simps)
qed simp

text \<open>The epochs that a thread has entered and not left.\<close>

definition pending_of :: "u64 \<Rightarrow> EpochManager \<Rightarrow> u64 list" where
  "pending_of tid m =
     (case thread_local_entry (epoch_table m) tid of None \<Rightarrow> [] | Some i \<Rightarrow> epoch_list (epoch_entries (epoch_table m) ! i))"

lemma Protect_pending:
  assumes "table_wf (epoch_table m)" "tid \<noteq> 0" "Protect h clock tid m = Returns m'"
  shows "table_wf (epoch_table m')" "pending_of tid m' = pending_of tid m @ [current_epoch m]"
    "\<exists>i. thread_local_entry (epoch_table m') tid = Some i"
proof -
  let ?t = "epoch_table m"
  obtain t' where t': "EnqueProtect h clock tid (current_epoch m) ?t = Returns t'" "m' = m\<lparr>epoch_table := t'\<rparr>"
    using assms(3) by (auto simp: Protect_def run_simps)
  obtain i t1 where r: "GetEntryForThread h clock tid ?t = Returns (i, t1)"
    "t' = t1\<lparr>epoch_entries := (epoch_entries t1)[i := Entry_EnqueProtect (current_epoch m) (epoch_entries t1 ! i)]\<rparr>"
    using t'(1) by (auto simp: EnqueProtect_def run_simps)
  note g = GetEntryForThread_Returns [OF assms(1,2) r(1)]
  have l: "epoch_list (epoch_entries t1 ! i) = epoch_list (epoch_entries ?t ! i)" using g(3-5) by (metis nth_map)
  have "pending_of tid m = epoch_list (epoch_entries ?t ! i)"
  proof (cases "thread_local_entry ?t tid")
    case None
    then have "thread_id (epoch_entries ?t ! i) = 0"
      using r(1) by (auto simp: GetEntryForThread_def ReserveEntry_def run_simps dest!: reserve_loop_Returns split: option.splits if_splits)
    then show ?thesis using None assms(1) g(3) by (simp add: pending_of_def table_wf_def)
  next
    case (Some j)
    then show ?thesis using r(1) by (simp add: GetEntryForThread_def pending_of_def)
  qed
  then show "pending_of tid m' = pending_of tid m @ [current_epoch m]"
    using l g(2-4) by (simp add: pending_of_def t'(2) r(2) Entry_EnqueProtect_def)
  show "\<exists>i. thread_local_entry (epoch_table m') tid = Some i" using g(2) by (simp add: t'(2) r(2))
  show "table_wf (epoch_table m')" using EnqueProtect_Returns [OF assms(1,2) t'(1)] t'(2) by auto
qed

lemma UnProtect_pending:
  assumes "table_wf (epoch_table m)" "thread_local_entry (epoch_table m) tid = Some i"
  shows "pending_of tid m = [] \<Longrightarrow> UnProtect h clock tid m = Aborts (Undefined ''pop_front of an empty deque'')"
    and "pending_of tid m = p # ps \<Longrightarrow> \<exists>m'. UnProtect h clock tid m = Returns m' \<and> table_wf (epoch_table m') \<and>
      thread_local_entry (epoch_table m') tid = Some i \<and> pending_of tid m' = ps"
proof -
  let ?t = "epoch_table m"
  have g: "GetEntryForThread h clock tid ?t = Returns (i, ?t)" using assms(2) by (simp add: GetEntryForThread_def)
  have i: "i < length (epoch_entries ?t)" using assms by (simp add: table_wf_def)
  show "pending_of tid m = [] \<Longrightarrow> UnProtect h clock tid m = Aborts (Undefined ''pop_front of an empty deque'')"
    using assms(2) by (simp add: UnProtect_def PopUnprotect_def g pending_of_def Entry_DequeUnProtect_def)
  assume p: "pending_of tid m = p # ps"
  let ?t' = "?t\<lparr>epoch_entries := (epoch_entries ?t)[i := (epoch_entries ?t ! i)\<lparr>epoch_list := ps\<rparr>]\<rparr>"
  have u: "PopUnprotect h clock tid ?t = Returns ?t'"
    using p assms(2) by (simp add: PopUnprotect_def g pending_of_def Entry_DequeUnProtect_def)
  have "tid \<noteq> 0" using assms by (simp add: table_wf_def)
  then have "table_wf ?t'" using PopUnprotect_Returns [OF assms(1) _ u] by metis
  then show "\<exists>m'. UnProtect h clock tid m = Returns m' \<and> table_wf (epoch_table m') \<and>
      thread_local_entry (epoch_table m') tid = Some i \<and> pending_of tid m' = ps"
    using u i assms(2) by (simp add: UnProtect_def pending_of_def)
qed

lemma Protect_UnProtect:
  assumes "table_wf (epoch_table m)" "tid \<noteq> 0" "pending_of tid m = []" "Protect h clock tid m = Returns m'"
  shows "\<exists>m'' i. UnProtect h clock tid m' = Returns m'' \<and> table_wf (epoch_table m'') \<and>
    thread_local_entry (epoch_table m'') tid = Some i \<and> pending_of tid m'' = []"
proof -
  note p = Protect_pending [OF assms(1,2,4)]
  obtain i where "thread_local_entry (epoch_table m') tid = Some i" using p(3) by blast
  from UnProtect_pending(2) [OF p(1) this, where h = h and clock = clock and p = "current_epoch m" and ps = "[]"]
  show ?thesis using p(2) assms(3) by auto
qed

lemma sources_read:
  "mem_bytes buf acc (length (concat vs)) = concat vs \<Longrightarrow> \<forall>v \<in> set vs. length v < 2 ^ 16 \<Longrightarrow>
   map (source_bytes buf) (sources_of acc vs) = vs"
proof (induction vs arbitrary: acc)
  case (Cons v vs)
  from Cons.prems(1) have "mem_bytes buf acc (length v) = v" "mem_bytes buf (acc + length v) (length (concat vs)) = concat vs"
    by (simp_all add: mem_bytes_append append_eq_append_conv del: length_concat)
  then show ?case using Cons.IH Cons.prems(2)
    by (simp add: sources_of_Cons source_bytes_def unsigned_of_nat take_bit_nat_eq_self)
qed (simp add: sources_of_def)

lemma RpcPsGet_reply:
  assumes msg: "get_string recv = Returns (concat (map (le_bytes 8) keys))"
    and max: "length keys \<le> max_kv"
    and batch: "batch keys (base_kv sv) = Returns values" "length values = length keys" "map (bytes (base_kv sv)) values = data"
    and ep: "table_wf (epoch_table (epoch_manager sv))" "tid \<noteq> 0" "pending_of tid (epoch_manager sv) = []"
      "Protect h clock tid (epoch_manager sv) = Returns em"
    and sg: "use_sglist \<longrightarrow> keys \<noteq> [] \<and> max_kv \<le> length (sourcelists sv ! thd) \<and> (\<forall>v \<in> set data. length v < 2 ^ 16)"
    and fits: "unat (ga_offset (receive_gaddr recv)) + length (concat data) < 2 ^ 48"
  shows "\<exists>ws sv' i. RpcPsGet h clock tid batch bytes use_sglist max_kv recv thd sv = Returns (ws, sv') \<and>
    (\<forall>base mem. deliver_all base ws mem = memcpy (base + unat (ga_offset (receive_gaddr recv))) (concat data) mem) \<and>
    base_kv sv' = base_kv sv \<and> barrier_ready sv' = barrier_ready sv \<and>
    tp sv' = (tp sv)[thd := tp sv ! thd + of_nat (length keys)] \<and>
    table_wf (epoch_table (epoch_manager sv')) \<and> thread_local_entry (epoch_table (epoch_manager sv')) tid = Some i \<and>
    pending_of tid (epoch_manager sv') = []"
proof -
  obtain em' i where em': "UnProtect h clock tid em = Returns em'" "table_wf (epoch_table em')"
    "thread_local_entry (epoch_table em') tid = Some i" "pending_of tid em' = []"
    using Protect_UnProtect [OF ep] by blast
  have n: "length (concat (map (le_bytes 8) keys)) div 8 = length keys" by (simp add: length_keys_sent)
  have k: "request_keys (concat (map (le_bytes 8) keys)) = keys" by (rule request_keys_sent)
  have ld: "length data = length keys" using batch(2,3) by auto
  show ?thesis
  proof (cases use_sglist)
    case False
    let ?buf = "memcpy 0 (concat data) (rdma_buffer sv thd)"
    let ?w = "\<lparr>rw_gaddr = receive_gaddr recv, rw_bytes = mem_bytes ?buf 0 (length (concat data)), rw_id = WR_ID_GET\<rparr>"
    have "mem_bytes ?buf 0 (length (concat data)) = concat data"
      using memcpy_new [of 0 "concat data" "rdma_buffer sv thd"] by (simp add: mem_bytes_def)
    then have "\<forall>base mem. deliver_all base [?w] mem = memcpy (base + unat (ga_offset (receive_gaddr recv))) (concat data) mem"
      by (simp add: deliver_all_def deliver_def)
    moreover have "RpcPsGet h clock tid batch bytes use_sglist max_kv recv thd sv = Returns ([?w],
        sv\<lparr>epoch_manager := em', tp := (tp sv)[thd := tp sv ! thd + of_nat (length keys)], rdma_buffer := (rdma_buffer sv)(thd := ?buf)\<rparr>)"
      unfolding RpcPsGet_def ep(4) msg run_bind.simps Let_def n k
      using False max batch em'(1) by (simp add: copy_values_eq)
    ultimately show ?thesis using em'(2-4) by auto
  next
    case True
    define sl where "sl = fst (copy_sources data 0 0 (sourcelists sv ! thd) (rdma_buffer sv thd))"
    define buf where "buf = memcpy 0 (concat data) (rdma_buffer sv thd)"
    have c: "copy_sources data 0 0 (sourcelists sv ! thd) (rdma_buffer sv thd) = (sl, buf)"
      by (rule prod_eqI) (simp_all add: sl_def buf_def copy_sources_buf)
    have sl: "take (length keys) sl = sources_of 0 data"
      using copy_sources_list [of 0 data "sourcelists sv ! thd" 0 "rdma_buffer sv thd"] sg True max ld by (simp add: sl_def)
    have src: "map (source_bytes buf) (sources_of 0 data) = data"
      using sources_read [of buf 0 data] sg True memcpy_new [of 0 "concat data" "rdma_buffer sv thd"]
      by (simp add: buf_def mem_bytes_def)
    let ?ws = "write_vec 30 (receive_gaddr recv) WR_ID_SG_GET buf 0 (sources_of 0 data) 0 []"
    have "contiguous (unat (ga_offset (receive_gaddr recv))) ?ws \<and> concat (map rw_bytes ?ws) = concat data"
      using write_vec_contiguous [of "receive_gaddr recv" "[]" 0 0 30 buf "sources_of 0 data" WR_ID_SG_GET] src fits by simp
    then have "\<forall>base mem. deliver_all base ?ws mem = memcpy (base + unat (ga_offset (receive_gaddr recv))) (concat data) mem"
      using deliver_contiguous by metis
    moreover have "sources_of 0 data \<noteq> []" using sg True ld by (auto simp: sources_of_def)
    then have w: "write_from_pm_vec buf (take (length keys) sl) (receive_gaddr recv) 30 WR_ID_SG_GET = Returns ?ws"
      unfolding sl write_from_pm_vec_def by simp
    have "RpcPsGet h clock tid batch bytes use_sglist max_kv recv thd sv = Returns (?ws,
        sv\<lparr>epoch_manager := em', tp := (tp sv)[thd := tp sv ! thd + of_nat (length keys)], sourcelists := (sourcelists sv)[thd := sl],
          rdma_buffer := (rdma_buffer sv)(thd := buf)\<rparr>)"
      unfolding RpcPsGet_def ep(4) msg run_bind.simps Let_def n k
      using True max batch em'(1) by (simp add: c w)
    ultimately show ?thesis using em'(2-4) by auto
  qed
qed

section \<open>Properties\<close>


definition demo_message :: "u64 list \<Rightarrow> RawMessage" where
  "demo_message keys = \<lparr>msg_type = GET, msg_node = 1, msg_thread = 0, receive_gaddr = \<lparr>nodeID = 1, ga_offset = 4096\<rparr>,
     msg_body = le_bytes 4 (of_nat (8 * length keys) :: u32) @ concat (map (le_bytes 8) keys)\<rparr>"

definition demo_service :: "'e \<Rightarrow> ('e, unit) service" where
  "demo_service kv = \<lparr>base_kv = kv, thread_count = 1, sourcelists = [replicate 300 \<lparr>sl_addr = 0, sl_size = 0\<rparr>],
     epoch_manager = EpochManager_new, barrier_ready = True, tp = [0], serving_thread_id = 0,
     rdma_buffer = (\<lambda>_ _. 0), random_engine = (\<lambda>_. ())\<rparr>"

lemma demo_message_string:
  assumes "length keys < 2 ^ 20"
  shows "get_string (demo_message keys) = Returns (concat (map (le_bytes 8) keys))"
proof -
  let ?s = "concat (map (le_bytes 8) keys)"
  have "demo_message keys = add_string ?s ((demo_message keys)\<lparr>msg_body := []\<rparr>)"
    by (simp add: demo_message_def add_string_def length_keys_sent)
  moreover have "get_string (add_string ?s ((demo_message keys)\<lparr>msg_body := []\<rparr>)) = Returns ?s"
    using assms by (intro get_add_string) (simp_all add: length_keys_sent)
  ultimately show ?thesis by simp
qed

lemma demo_service_epoch:
  "table_wf (epoch_table (epoch_manager (demo_service kv)))" "pending_of 7 (epoch_manager (demo_service kv)) = []"
  "\<exists>em. Protect id (\<lambda>_. 0) 7 (epoch_manager (demo_service kv)) = Returns em"
proof -
  show "table_wf (epoch_table (epoch_manager (demo_service kv)))"
    by (simp add: demo_service_def EpochManager_new_def table_wf_def MinEpochTable_new_def EpochEntry_new_def)
  show "pending_of 7 (epoch_manager (demo_service kv)) = []"
    by (simp add: demo_service_def EpochManager_new_def pending_of_def MinEpochTable_new_def)
  show "\<exists>em. Protect id (\<lambda>_. 0) 7 (epoch_manager (demo_service kv)) = Returns em"
    using demo_push by (auto simp: demo_service_def EpochManager_new_def Protect_def)
qed

definition floats_bytes :: "'t engine \<Rightarrow> batch_entry \<Rightarrow> u8 list" where
  "floats_bytes e v = (case v of Floats off n \<Rightarrow> mem_bytes (en_bytes e) off (4 * nat n) | NoFloats \<Rightarrow> [])"


end
