(* ===== verification/Ps_Client.thy ===== *)
theory Ps_Client
  imports Ps_Server
begin

text \<open>
  The client of one server (\<open>src/src/ps/petps_client.cc\<close>, \<open>petps_client.h\<close>): requests, the word that tells
  whether a reply has arrived, and the threads of the server it talks to. A request and its reply
  run through both sides at the end of this theory.
\<close>

section \<open>Client and process\<close>

record WqRPCParameterClient =
  cl_shard :: nat
  rpcIDAcc :: u64
  serverThreadIdsRoutedTo :: "int list"
  rpcId2PollMap :: "u64 \<rightharpoonup> nat"

text \<open>
  What all clients of a process share: the network layer with its memory, and the static variables
  \<open>round_robin\<close> and \<open>client_memory_offset_acc\<close>.
\<close>

record process =
  my_node :: nat
  my_thread :: nat
  dsm_base :: nat
  memory :: "nat \<Rightarrow> u8"
  round_robin :: nat
  client_memory_offset_acc :: u64

text \<open>A request: the server, its thread, the message.\<close>

record request =
  rq_node :: nat
  rq_thread :: int
  rq_msg :: RawMessage

definition client_new :: "nat \<Rightarrow> WqRPCParameterClient" where
  "client_new shard = \<lparr>cl_shard = shard, rpcIDAcc = 0, serverThreadIdsRoutedTo = [], rpcId2PollMap = Map.empty\<rparr>"

text \<open>\<open>Init\<close>: the number that the network layer assigns must be the one of the process.\<close>

definition client_Init :: "int \<Rightarrow> XPostoffice \<Rightarrow> unit run" where
  "client_Init node po = run_check (node = global_id po) ''inconsistent postoffice and wq dsm''"

definition gaddr :: "process \<Rightarrow> nat \<Rightarrow> GlobalAddress" where
  "gaddr p a = \<lparr>nodeID = of_nat (my_node p), ga_offset = ucast (of_nat a - of_nat (dsm_base p) :: u64)\<rparr>"

section \<open>The threads of the server\<close>

text \<open>The loop ends with the first message; other completions are ignored.\<close>

partial_function (option) wait_message :: "(nat \<Rightarrow> cq_event) \<Rightarrow> nat \<Rightarrow> RawMessage option" where
  "wait_message events n = (case events n of Recv m \<Rightarrow> Some m | Completion _ \<Rightarrow> wait_message events (Suc n))"

definition GetServerThreadIDs :: "(nat \<Rightarrow> cq_event) \<Rightarrow> process \<Rightarrow> WqRPCParameterClient \<Rightarrow> (request \<times> int list) run" where
  "GetServerThreadIDs events p cl =
     run_bind (rpc_call (my_node p) (my_thread p)
       \<lparr>msg_type = GET_SERVER_THREADIDS, msg_node = of_nat (my_node p), msg_thread = of_nat (my_thread p), receive_gaddr = null_gaddr, msg_body = []\<rparr> None) (\<lambda>m.
     run_bind (run_of_option (wait_message events 0)) (\<lambda>recv.
     run_bind (run_check (msg_type recv = RESP_GET_SERVER_THREADIDS) ''recv->type == RESP_GET_SERVER_THREADIDS'') (\<lambda>_.
     run_bind (get_string recv) (\<lambda>extra_data.
       Returns (\<lparr>rq_node = cl_shard cl, rq_thread = 0, rq_msg = m\<rparr>,
         map (\<lambda>i. sint (le_word (take 4 (drop (4 * i) extra_data)) :: 32 word)) [0..<length extra_data div 4])))))"

definition InitThread :: "(nat \<Rightarrow> cq_event) \<Rightarrow> process \<Rightarrow> WqRPCParameterClient \<Rightarrow> (request \<times> WqRPCParameterClient) run" where
  "InitThread events p cl =
     run_bind (GetServerThreadIDs events p cl) (\<lambda>(rq, ids). Returns (rq, cl\<lparr>serverThreadIdsRoutedTo := ids\<rparr>))"

text \<open>One static index for all clients, so it may lie behind the end of a shorter list.\<close>

definition SelectServerThreadID :: "WqRPCParameterClient \<Rightarrow> process \<Rightarrow> (int \<times> process) run" where
  "SelectServerThreadID cl p =
     (let ids = serverThreadIdsRoutedTo cl
      in if length ids \<le> round_robin p then Aborts (Undefined ''index behind the end'')
         else Returns (ids ! round_robin p, p\<lparr>round_robin := (round_robin p + 1) mod length ids\<rparr>))"

section \<open>Requests\<close>

definition GetReceiveBuffer :: "u64 \<Rightarrow> process \<Rightarrow> nat \<times> process" where
  "GetReceiveBuffer n p =
     (dsm_base p + unat (ucast (client_memory_offset_acc p) :: 48 word),
      p\<lparr>client_memory_offset_acc := client_memory_offset_acc p + n\<rparr>)"

text \<open>
  The common part of both requests: remember the address of the word to poll, mark it, send the keys.
  A view of a vector that was never used has the null pointer. The identifier is returned as \<open>int\<close>.
\<close>

definition send_request ::
  "RpcType \<Rightarrow> u64 list option \<Rightarrow> nat \<Rightarrow> nat \<Rightarrow> WqRPCParameterClient \<Rightarrow> process \<Rightarrow> (request \<times> 32 word \<times> WqRPCParameterClient \<times> process) run" where
  "send_request type keys values poll cl p =
     (let m = \<lparr>msg_type = type, msg_node = 0, msg_thread = 0, receive_gaddr = gaddr p values, msg_body = []\<rparr>;
          cl = cl\<lparr>rpcId2PollMap := (rpcId2PollMap cl)(rpcIDAcc cl \<mapsto> poll)\<rparr>;
          p = p\<lparr>memory := memcpy poll (le_bytes 4 FINISH_MAGIC) (memory p)\<rparr>
      in run_bind (SelectServerThreadID cl p) (\<lambda>(t, p).
         run_bind (rpc_call (my_node p) (my_thread p) m (map_option (\<lambda>ks. concat (map (le_bytes 8) ks)) keys)) (\<lambda>m.
           let cl = cl\<lparr>rpcIDAcc := rpcIDAcc cl + 1\<rparr>
           in Returns (\<lparr>rq_node = cl_shard cl, rq_thread = t, rq_msg = m\<rparr>, ucast (rpcIDAcc cl - 1), cl, p))))"

text \<open>The word to poll is the last one of the values.\<close>

definition poll_address :: "nat \<Rightarrow> u64 list option \<Rightarrow> nat \<Rightarrow> nat" where
  "poll_address value_size keys values =
     nat (int values + int ((case keys of None \<Rightarrow> 0 | Some ks \<Rightarrow> length ks) * value_size) - 4)"

definition GetParameter_send ::
  "nat \<Rightarrow> u64 list option \<Rightarrow> nat \<Rightarrow> WqRPCParameterClient \<Rightarrow> process \<Rightarrow> (request \<times> 32 word \<times> WqRPCParameterClient \<times> process) run" where
  "GetParameter_send value_size keys values cl p = send_request GET keys values (poll_address value_size keys values) cl p"

text \<open>The word that belongs to an identifier; \<open>operator[]\<close> gives the null pointer for an unknown one.\<close>

definition poll_word :: "32 word \<Rightarrow> (nat \<Rightarrow> u8) \<Rightarrow> WqRPCParameterClient \<Rightarrow> u32 run" where
  "poll_word rpc_id mem cl =
     (case rpcId2PollMap cl (scast rpc_id) of
        None \<Rightarrow> Aborts (NullDeref ''poll'')
      | Some a \<Rightarrow> Returns (le_word (mem_bytes mem a 4)))"

definition QueryRPCFinished :: "32 word \<Rightarrow> (nat \<Rightarrow> u8) \<Rightarrow> WqRPCParameterClient \<Rightarrow> bool run" where
  "QueryRPCFinished rpc_id mem cl = run_bind (poll_word rpc_id mem cl) (\<lambda>w. Returns (w \<noteq> FINISH_MAGIC))"

text \<open>The waiting loop reads the memory again and again; \<open>mems n\<close> is its content at the read \<open>n\<close>.\<close>

partial_function (option) wait_loop :: "(nat \<Rightarrow> u32 run) \<Rightarrow> nat \<Rightarrow> nat run option" where
  "wait_loop word n =
     (case word n of
        Returns w \<Rightarrow> if w = FINISH_MAGIC then wait_loop word (Suc n) else Some (Returns n)
      | Aborts e \<Rightarrow> Some (Aborts e)
      | Diverges \<Rightarrow> None)"

definition WaitRPCFinish :: "32 word \<Rightarrow> (nat \<Rightarrow> nat \<Rightarrow> u8) \<Rightarrow> WqRPCParameterClient \<Rightarrow> nat run" where
  "WaitRPCFinish rpc_id mems cl =
     (case wait_loop (\<lambda>n. poll_word rpc_id (mems n) cl) 0 of None \<Rightarrow> Diverges | Some r \<Rightarrow> r)"

text \<open>The call with its waiting; after it the process has the memory of the last read.\<close>

definition GetParameter ::
  "nat \<Rightarrow> (nat \<Rightarrow> nat \<Rightarrow> u8) \<Rightarrow> bool \<Rightarrow> u64 list option \<Rightarrow> nat \<Rightarrow> WqRPCParameterClient \<Rightarrow> process \<Rightarrow>
   (request \<times> 32 word \<times> WqRPCParameterClient \<times> process) run" where
  "GetParameter value_size mems isAsync keys values cl p =
     run_bind (GetParameter_send value_size keys values cl p) (\<lambda>(rq, i, cl, p).
       if isAsync then Returns (rq, i, cl, p)
       else run_bind (WaitRPCFinish i mems cl) (\<lambda>n. Returns (rq, i, cl, p\<lparr>memory := mems n\<rparr>)))"

definition FakePutParameter ::
  "u64 list option \<Rightarrow> nat \<Rightarrow> WqRPCParameterClient \<Rightarrow> process \<Rightarrow> (request \<times> 32 word \<times> WqRPCParameterClient \<times> process) run" where
  "FakePutParameter keys values cl p = send_request PUT keys values values cl p"

text \<open>The variants with vectors: one returns 0 and leaves the vectors as they are, the other is not implemented.\<close>

definition GetParameter_vectors :: "u64 list \<Rightarrow> 'f list list \<Rightarrow> int \<times> 'f list list" where
  "GetParameter_vectors keys values = (0, values)"

definition PutParameter :: "unit run" where
  "PutParameter = Aborts (LogFatal [])"

definition RevokeRPCResource :: "32 word \<Rightarrow> WqRPCParameterClient \<Rightarrow> WqRPCParameterClient" where
  "RevokeRPCResource rpc_id cl = cl\<lparr>rpcId2PollMap := (rpcId2PollMap cl)(scast rpc_id := None)\<rparr>"

section \<open>A request and its reply\<close>

lemma gaddr_offset:
  assumes "dsm_base p \<le> a" "a - dsm_base p < 2 ^ 48" "a < 2 ^ 64"
  shows "dsm_base p + unat (ga_offset (gaddr p a)) = a"
proof -
  have "of_nat a - of_nat (dsm_base p) = (of_nat (a - dsm_base p) :: u64)" using assms(1) by (simp add: of_nat_diff)
  then have "unat (ga_offset (gaddr p a)) = a - dsm_base p"
    using assms(2) by (simp add: gaddr_def unsigned_ucast_eq unsigned_of_nat take_bit_nat_eq_self)
  then show ?thesis using assms(1) by simp
qed

lemma scast_ucast_id: "unat (n :: u64) < 2 ^ 31 \<Longrightarrow> scast (ucast n :: 32 word) = n"
proof -
  assume n: "unat n < 2 ^ 31"
  have "(ucast n :: 32 word) = of_nat (unat n)" by (simp add: unsigned_ucast_eq)
  then have "sint (ucast n :: 32 word) = int (unat n)" using sint_nat [where 'a = 32, of "unat n"] n by simp
  then show ?thesis by (simp add: scast_eq)
qed

definition client_ready :: "WqRPCParameterClient \<Rightarrow> process \<Rightarrow> bool" where
  "client_ready cl p \<longleftrightarrow> round_robin p < length (serverThreadIdsRoutedTo cl) \<and> unat (rpcIDAcc cl) < 2 ^ 31"

lemma GetParameter_send_Returns:
  assumes "client_ready cl p" "length ks \<le> 509"
  shows "\<exists>rq cl' p'. GetParameter_send value_size (Some ks) values cl p = Returns (rq, ucast (rpcIDAcc cl), cl', p') \<and>
    rq_node rq = cl_shard cl \<and> msg_type (rq_msg rq) = GET \<and> receive_gaddr (rq_msg rq) = gaddr p values \<and>
    get_string (rq_msg rq) = Returns (concat (map (le_bytes 8) ks)) \<and>
    memory p' = memcpy (poll_address value_size (Some ks) values) (le_bytes 4 FINISH_MAGIC) (memory p) \<and>
    dsm_base p' = dsm_base p \<and> my_node p' = my_node p \<and>
    round_robin p' = (round_robin p + 1) mod length (serverThreadIdsRoutedTo cl) \<and>
    cl' = cl\<lparr>rpcIDAcc := rpcIDAcc cl + 1, rpcId2PollMap := (rpcId2PollMap cl)(rpcIDAcc cl \<mapsto> poll_address value_size (Some ks) values)\<rparr>"
proof -
  let ?m = "\<lparr>msg_type = GET, msg_node = 0, msg_thread = 0, receive_gaddr = gaddr p values, msg_body = []\<rparr>"
  have "length (concat (map (le_bytes 8) ks)) \<le> 4078" using assms(2) by (simp add: length_keys_sent)
  then obtain m where m: "rpc_call (my_node p) (my_thread p) ?m (Some (concat (map (le_bytes 8) ks))) = Returns m"
    "get_string m = Returns (concat (map (le_bytes 8) ks))" "msg_type m = GET" "receive_gaddr m = gaddr p values"
    using rpc_call_get_string [of ?m "concat (map (le_bytes 8) ks)" "my_node p" "my_thread p"] by auto
  show ?thesis
    using assms(1) m by (simp add: GetParameter_send_def send_request_def client_ready_def SelectServerThreadID_def Let_def not_le)
qed

lemma poll_word_after:
  assumes "unat (rpcIDAcc cl) < 2 ^ 31"
    and "cl' = cl\<lparr>rpcIDAcc := rpcIDAcc cl + 1, rpcId2PollMap := (rpcId2PollMap cl)(rpcIDAcc cl \<mapsto> a)\<rparr>"
  shows "poll_word (ucast (rpcIDAcc cl)) mem cl' = Returns (le_word (mem_bytes mem a 4))"
  using assms by (simp add: poll_word_def scast_ucast_id)

lemma poll_address_nat: "4 \<le> values \<Longrightarrow> poll_address value_size (Some ks) values = values + length ks * value_size - 4"
  by (simp add: poll_address_def del: of_nat_mult)

text \<open>
  The memory of the client after the reply \<open>data\<close>, and whether the client then sees the reply: it does
  when the reply covers the polled word and changes it.
\<close>

lemma reply_seen:
  assumes "client_ready cl p" "length ks \<le> 509" "4 \<le> values"
    and "GetParameter_send value_size (Some ks) values cl p = Returns (rq, i, cl', p')"
  shows "QueryRPCFinished i (memory p') cl' = Returns False"
    and "QueryRPCFinished i (memcpy values data (memory p')) cl' =
      Returns (le_word (mem_bytes (memcpy values data (memory p')) (poll_address value_size (Some ks) values) 4) \<noteq> FINISH_MAGIC)"
    and "length data + 4 \<le> length ks * value_size \<or> data = [] \<Longrightarrow>
      QueryRPCFinished i (memcpy values data (memory p')) cl' = Returns False"
proof -
  let ?a = "poll_address value_size (Some ks) values"
  note s = GetParameter_send_Returns [OF assms(1,2), of value_size "values"]
  from s assms(4) have i: "i = ucast (rpcIDAcc cl)" and m: "memory p' = memcpy ?a (le_bytes 4 FINISH_MAGIC) (memory p)"
    and cl': "cl' = cl\<lparr>rpcIDAcc := rpcIDAcc cl + 1, rpcId2PollMap := (rpcId2PollMap cl)(rpcIDAcc cl \<mapsto> ?a)\<rparr>" by auto
  have lt: "unat (rpcIDAcc cl) < 2 ^ 31" using assms(1) by (simp add: client_ready_def)
  have q: "QueryRPCFinished i mem cl' = Returns (le_word (mem_bytes mem ?a 4) \<noteq> FINISH_MAGIC)" for mem
    using poll_word_after [OF lt cl'] by (simp add: QueryRPCFinished_def i)
  have magic: "mem_bytes (memory p') ?a 4 = le_bytes 4 FINISH_MAGIC"
    using memcpy_new [of ?a "le_bytes 4 FINISH_MAGIC" "memory p"] by (simp add: mem_bytes_def m)
  then show "QueryRPCFinished i (memory p') cl' = Returns False" unfolding q by (simp add: le_word_bytes)
  show "QueryRPCFinished i (memcpy values data (memory p')) cl' =
      Returns (le_word (mem_bytes (memcpy values data (memory p')) ?a 4) \<noteq> FINISH_MAGIC)" by (rule q)
  assume "length data + 4 \<le> length ks * value_size \<or> data = []"
  then have "mem_bytes (memcpy values data (memory p')) ?a 4 = mem_bytes (memory p') ?a 4"
  proof
    assume "length data + 4 \<le> length ks * value_size"
    then have "values + length data \<le> ?a" using poll_address_nat [OF assms(3)] by simp
    then show ?thesis unfolding mem_bytes_def by (intro memcpy_other) simp
  qed simp
  then show "QueryRPCFinished i (memcpy values data (memory p')) cl' = Returns False" unfolding q magic by (simp add: le_word_bytes)
qed

section \<open>The store behind the server\<close>

definition petkv_bytes :: "PetMultiKV \<Rightarrow> float_array option \<Rightarrow> u8 list" where
  "petkv_bytes mk v = (case v of None \<Rightarrow> [] | Some a \<Rightarrow> array_bytes mk a)"

lemma petkv_batch:
  assumes "mk_inv b cfg city mk"
  shows "\<exists>vs. KVEnginePetKV_BatchGet cfg city 1 keys mk = Returns vs \<and> length vs = length keys \<and>
    map (petkv_bytes mk) vs = map (\<lambda>k. batch_value (mk_pre_known mk) (mk_map cfg city mk k)) keys"
proof -
  from BatchGet_values [OF assms, of keys "[]"] obtain as where
    a: "PetMultiKV_BatchGet cfg city mk keys [] = Returns as"
      "map (array_bytes mk) as = map (\<lambda>k. batch_value (mk_pre_known mk) (mk_map cfg city mk k)) keys" by auto
  then have "length as = length keys" by (metis length_map)
  then show ?thesis using a by (intro exI [of _ "map Some as"]) (simp add: KVEnginePetKV_BatchGet_def petkv_bytes_def comp_def)
qed

text \<open>What the handler needs of the server, and what the client has to send.\<close>

definition serving :: "(u64 \<Rightarrow> u64) \<Rightarrow> (nat \<Rightarrow> int) \<Rightarrow> u64 \<Rightarrow> bool \<Rightarrow> nat \<Rightarrow> nat \<Rightarrow> nat \<Rightarrow> ('e, 'r) service \<Rightarrow> bool" where
  "serving h clock tid use_sglist value_size max_kv thd sv \<longleftrightarrow>
     table_wf (epoch_table (epoch_manager sv)) \<and> tid \<noteq> 0 \<and> pending_of tid (epoch_manager sv) = [] \<and>
     (\<exists>em. Protect h clock tid (epoch_manager sv) = Returns em) \<and>
     (use_sglist \<longrightarrow> max_kv \<le> length (sourcelists sv ! thd) \<and> value_size < 2 ^ 16)"

definition room :: "process \<Rightarrow> nat \<Rightarrow> nat \<Rightarrow> bool" where
  "room p a n \<longleftrightarrow> dsm_base p \<le> a \<and> 4 \<le> a \<and> a + n - dsm_base p < 2 ^ 48 \<and> a < 2 ^ 64"

lemma batch_value_length:
  assumes "value_size mod 4 = 0" "pre_known = 0" "case r of None \<Rightarrow> True | Some v \<Rightarrow> length v = value_size"
  shows "length (batch_value pre_known r) = (case r of None \<Rightarrow> 0 | Some _ \<Rightarrow> value_size)"
  using assms by (auto simp: batch_value_def split: option.splits)

lemma batch_lengths:
  assumes "value_size mod 4 = 0" "\<forall>k \<in> set keys. case m k of None \<Rightarrow> True | Some v \<Rightarrow> length v = value_size"
  shows "\<forall>k \<in> set keys. length (batch_value 0 (m k)) = value_size \<or> batch_value 0 (m k) = []"
proof
  fix k assume "k \<in> set keys"
  then have "case m k of None \<Rightarrow> True | Some v \<Rightarrow> length v = value_size" using assms(2) by blast
  then have "length (batch_value 0 (m k)) = (case m k of None \<Rightarrow> 0 | Some _ \<Rightarrow> value_size)" by (rule batch_value_length [OF assms(1) refl])
  then show "length (batch_value 0 (m k)) = value_size \<or> batch_value 0 (m k) = []" by (cases "m k") auto
qed

lemma length_concat_eq: "\<forall>d \<in> set ds. length d = n \<Longrightarrow> length (concat ds) = length ds * n"
  by (induction ds) auto

lemma length_concat_missing: "\<forall>d \<in> set ds. length d = s \<or> d = [] \<Longrightarrow> [] \<in> set ds \<Longrightarrow> length (concat ds) + s \<le> length ds * s"
proof (induction ds)
  case (Cons d ds)
  then have "\<forall>d \<in> set ds. length d \<le> s" by auto
  then show ?case using Cons length_concat_le [of ds s] by (cases "d = []") auto
qed simp

lemma request_reply:
  assumes "client_ready cl p" "0 < length keys" "length keys \<le> 509" "length keys \<le> max_kv" "value_size mod 4 = 0"
    and "room p values (length keys * value_size)" "serving h clock tid use_sglist value_size max_kv thd sv"
    and "mk_inv b cfg city (base_kv sv)" "mk_pre_known (base_kv sv) = 0"
    and "\<forall>k \<in> set keys. case mk_map cfg city (base_kv sv) k of None \<Rightarrow> True | Some v \<Rightarrow> length v = value_size"
  shows "\<exists>rq i cl' p' ws sv'. GetParameter_send value_size (Some keys) values cl p = Returns (rq, i, cl', p') \<and>
    RpcPsGet h clock tid (KVEnginePetKV_BatchGet cfg city 1) petkv_bytes use_sglist max_kv (rq_msg rq) thd sv = Returns (ws, sv') \<and>
    deliver_all (dsm_base p') ws (memory p') =
      memcpy values (concat (map (\<lambda>k. batch_value 0 (mk_map cfg city (base_kv sv) k)) keys)) (memory p') \<and>
    memory p' = memcpy (values + length keys * value_size - 4) (le_bytes 4 FINISH_MAGIC) (memory p) \<and>
    base_kv sv' = base_kv sv"
proof -
  let ?data = "map (\<lambda>k. batch_value 0 (mk_map cfg city (base_kv sv) k)) keys"
  obtain rq cl' p' where s: "GetParameter_send value_size (Some keys) values cl p = Returns (rq, ucast (rpcIDAcc cl), cl', p')"
    "receive_gaddr (rq_msg rq) = gaddr p values" "get_string (rq_msg rq) = Returns (concat (map (le_bytes 8) keys))"
    "memory p' = memcpy (poll_address value_size (Some keys) values) (le_bytes 4 FINISH_MAGIC) (memory p)" "dsm_base p' = dsm_base p"
    using GetParameter_send_Returns [OF assms(1,3), of value_size "values"] by blast
  obtain vs where v: "KVEnginePetKV_BatchGet cfg city 1 keys (base_kv sv) = Returns vs" "length vs = length keys"
    "map (petkv_bytes (base_kv sv)) vs = ?data"
    using petkv_batch [OF assms(8), of keys] assms(9) by auto
  have one: "\<forall>d \<in> set ?data. length d \<le> value_size"
    using batch_lengths [OF assms(5,10)] by auto
  then have len: "length (concat ?data) \<le> length keys * value_size" using length_concat_le [of ?data value_size] by simp
  have off: "dsm_base p + unat (ga_offset (gaddr p values)) = values" using assms(6) by (intro gaddr_offset) (auto simp: room_def)
  then have "unat (ga_offset (receive_gaddr (rq_msg rq))) + length (concat ?data) < 2 ^ 48"
    using assms(6) len by (auto simp: s(2) room_def simp del: length_concat)
  moreover have "use_sglist \<longrightarrow> keys \<noteq> [] \<and> max_kv \<le> length (sourcelists sv ! thd) \<and> (\<forall>d \<in> set ?data. length d < 2 ^ 16)"
    using assms(2,7) one by (auto simp: serving_def)
  moreover obtain em where "Protect h clock tid (epoch_manager sv) = Returns em" using assms(7) by (auto simp: serving_def)
  ultimately obtain ws sv' where
    "RpcPsGet h clock tid (KVEnginePetKV_BatchGet cfg city 1) petkv_bytes use_sglist max_kv (rq_msg rq) thd sv = Returns (ws, sv')"
    "\<forall>base mem. deliver_all base ws mem = memcpy (base + unat (ga_offset (receive_gaddr (rq_msg rq)))) (concat ?data) mem"
    "base_kv sv' = base_kv sv"
    using RpcPsGet_reply [where batch = "KVEnginePetKV_BatchGet cfg city 1" and bytes = petkv_bytes and data = ?data,
        OF s(3) assms(4) v, of tid h clock em use_sglist thd] assms(7) by (auto simp: serving_def)
  then show ?thesis using s off poll_address_nat [of "values" value_size keys] assms(6) by (auto simp: room_def)
qed

lemma mem_bytes_drop: "k \<le> n \<Longrightarrow> drop k (mem_bytes mem a n) = mem_bytes mem (a + k) (n - k)"
  by (simp add: mem_bytes_def drop_map)

lemma last_word:
  assumes "keys \<noteq> []" "\<forall>k \<in> set keys. length (val k) = n" "4 \<le> n"
  shows "drop (length keys * n - 4) (concat (map val keys)) = drop (n - 4) (val (last keys))"
proof -
  have k: "keys = butlast keys @ [last keys]" using assms(1) by simp
  have "length (concat (map val (butlast keys))) = length (butlast keys) * n"
    using assms(2) length_concat_eq [of "map val (butlast keys)" n] by (auto dest: in_set_butlastD)
  moreover have "concat (map val keys) = concat (map val (butlast keys)) @ val (last keys)" by (subst k) simp
  moreover have "length keys * n - 4 = length (butlast keys) * n + (n - 4)"
    using assms(1,3) by (cases keys) auto
  ultimately show ?thesis by simp
qed

text \<open>A client that never sees another value than the mark does not return.\<close>

lemma wait_loop_diverges: "(\<And>n. word n = Returns FINISH_MAGIC) \<Longrightarrow> wait_loop word n = None"
proof (rule ccontr)
  assume w: "\<And>n. word n = Returns FINISH_MAGIC" and "wait_loop word n \<noteq> None"
  then obtain r where r: "wait_loop word n = Some r" by blast
  have "\<exists>m. word m \<noteq> Returns FINISH_MAGIC"
    by (rule wait_loop.raw_induct [rotated, OF r]) (auto split: run.splits if_splits, (metis run.distinct(1) run.inject(1))+)
  then show False using w by blast
qed

lemma WaitRPCFinish_diverges:
  assumes "\<And>n. QueryRPCFinished i (mems n) cl = Returns False"
  shows "WaitRPCFinish i mems cl = Diverges"
proof -
  have "poll_word i (mems n) cl = Returns FINISH_MAGIC" for n
    using assms [of n] by (auto simp: QueryRPCFinished_def run_simps)
  then show ?thesis by (simp add: WaitRPCFinish_def wait_loop_diverges)
qed

definition demo_client :: WqRPCParameterClient where
  "demo_client = (client_new 0)\<lparr>serverThreadIdsRoutedTo := [0]\<rparr>"

definition demo_process :: process where
  "demo_process = \<lparr>my_node = 1, my_thread = 0, dsm_base = 65536, memory = (\<lambda>_. 0), round_robin = 0, client_memory_offset_acc = 0\<rparr>"

lemma demo_ready: "client_ready demo_client demo_process" "room demo_process 69632 32000"
  by (simp_all add: client_ready_def demo_client_def demo_process_def client_new_def room_def)

lemma demo_serving: "serving id (\<lambda>_. 0) 7 use_sglist 32000 300 0 (demo_service kv)"
  using demo_service_epoch [of kv] by (simp add: serving_def) (simp add: demo_service_def)

lemma demo_store:
  assumes "PetKVConfig_new 36 = Returns cfg"
  shows "mk_inv 36 cfg (\<lambda>bs s l. 5) (demo_mk\<lparr>mk_pre_known := 0\<rparr>)" "mk_map cfg (\<lambda>bs s l. 5) (demo_mk\<lparr>mk_pre_known := 0\<rparr>) = Map.empty"
    "\<exists>mk. PetMultiKV_Update cfg (\<lambda>bs s l. 5) 9 (replicate 32000 7) (demo_mk\<lparr>mk_pre_known := 0\<rparr>) = Returns (True, mk) \<and>
       mk_inv 36 cfg (\<lambda>bs s l. 5) mk \<and> mk_map cfg (\<lambda>bs s l. 5) mk = [9 \<mapsto> replicate 32000 7] \<and> mk_pre_known mk = 0"
proof -
  note d = demo_kv_inv [OF assms]
  let ?city = "\<lambda>bs s l. 5 :: u64" and ?mk = "demo_mk\<lparr>mk_pre_known := 0\<rparr>"
  have s: "GetShard ?city 2 k = 1" for k by (simp add: GetShard_def GetHashWithLevel_def)
  show i: "mk_inv 36 cfg ?city ?mk" using d by (simp add: mk_inv_def demo_mk_def shards_inv_def s nth_Cons')
  show e: "mk_map cfg ?city ?mk = Map.empty" using d by (simp add: mk_map_def demo_mk_def shards_abs_def s fun_eq_iff)
  have "kv_room cfg 9 (replicate 32000 7) demo_kv"
    using demo_New demo_kv_not_full
    by (auto simp: kv_room_def demo_kv_def kv_perfect_def ShmEpochRecycle_new_def EpochManager_new_def)
  then have "kv_room cfg 9 (replicate 32000 7) (mk_shm_kv ?mk ! GetShard ?city (mk_shard_num ?mk) 9)" by (simp add: demo_mk_def s)
  from PetMultiKV_Update_map [OF i this] e
  show "\<exists>mk. PetMultiKV_Update cfg ?city 9 (replicate 32000 7) ?mk = Returns (True, mk) \<and>
       mk_inv 36 cfg ?city mk \<and> mk_map cfg ?city mk = [9 \<mapsto> replicate 32000 7] \<and> mk_pre_known mk = 0" by auto
qed

section \<open>Properties\<close>



text \<open>
  (C36) If one of the keys has no value, the reply is shorter than the buffer and does not reach the
  polled word: the request never counts as finished, and a client that waits for it waits for ever.
\<close>

theorem GetParameter_missing_key_waits:
  assumes "client_ready cl p" "0 < length keys" "length keys \<le> 509" "length keys \<le> max_kv" "value_size mod 4 = 0" "0 < value_size"
    and "room p values (length keys * value_size)" "serving h clock tid use_sglist value_size max_kv thd sv"
    and "mk_inv b cfg city (base_kv sv)" "mk_pre_known (base_kv sv) = 0"
    and "\<forall>k \<in> set keys. case mk_map cfg city (base_kv sv) k of None \<Rightarrow> True | Some v \<Rightarrow> length v = value_size"
    and "missing \<in> set keys" "mk_map cfg city (base_kv sv) missing = None"
  shows "\<exists>rq i cl' p' ws sv' mem. GetParameter_send value_size (Some keys) values cl p = Returns (rq, i, cl', p') \<and>
    RpcPsGet h clock tid (KVEnginePetKV_BatchGet cfg city 1) petkv_bytes use_sglist max_kv (rq_msg rq) thd sv = Returns (ws, sv') \<and>
    mem = deliver_all (dsm_base p') ws (memory p') \<and> QueryRPCFinished i mem cl' = Returns False \<and>
    (\<forall>n. GetParameter value_size (\<lambda>j. if j < n then memory p' else mem) False (Some keys) values cl p = Diverges)"
proof -
  let ?ds = "map (\<lambda>k. batch_value 0 (mk_map cfg city (base_kv sv) k)) keys"
  obtain rq i cl' p' ws sv' where r: "GetParameter_send value_size (Some keys) values cl p = Returns (rq, i, cl', p')"
    "RpcPsGet h clock tid (KVEnginePetKV_BatchGet cfg city 1) petkv_bytes use_sglist max_kv (rq_msg rq) thd sv = Returns (ws, sv')"
    "deliver_all (dsm_base p') ws (memory p') = memcpy values (concat ?ds) (memory p')"
    using request_reply [OF assms(1-5,7-11)] by blast
  have "4 \<le> value_size" using assms(5,6) by presburger
  moreover have "\<forall>d \<in> set ?ds. length d = value_size \<or> d = []"
    using batch_lengths [OF assms(5,11)] by auto
  moreover have "[] \<in> set ?ds" using assms(12,13) by (force simp: batch_value_def)
  ultimately have short: "length (concat ?ds) + 4 \<le> length keys * value_size" using length_concat_missing [of ?ds value_size] by simp
  have room: "4 \<le> values" using assms(7) by (simp add: room_def)
  have q: "QueryRPCFinished i (memcpy values (concat ?ds) (memory p')) cl' = Returns False"
    by (rule reply_seen(3) [OF assms(1,3) room r(1) disjI1 [OF short]])
  have "GetParameter value_size (\<lambda>j. if j < n then memory p' else memcpy values (concat ?ds) (memory p')) False (Some keys) values cl p = Diverges" for n
    using r(1) reply_seen(1) [OF assms(1,3) room r(1)] q by (simp add: GetParameter_def WaitRPCFinish_diverges)
  then show ?thesis using r(1,2) q unfolding r(3) [symmetric] by blast
qed

theorem GetParameter_missing_key_waits_witness:
  "\<exists>cfg rq i cl' p' ws sv' mem. PetKVConfig_new 36 = Returns cfg \<and>
     GetParameter_send 32000 (Some [9]) 69632 demo_client demo_process = Returns (rq, i, cl', p') \<and>
     RpcPsGet id (\<lambda>_. 0) 7 (KVEnginePetKV_BatchGet cfg (\<lambda>bs s l. 5) 1) petkv_bytes True 300 (rq_msg rq) 0 (demo_service (demo_mk\<lparr>mk_pre_known := 0\<rparr>)) = Returns (ws, sv') \<and>
     mem = deliver_all (dsm_base p') ws (memory p') \<and>
     GetParameter 32000 (\<lambda>j. if j < 10 then memory p' else mem) False (Some [9]) 69632 demo_client demo_process = Diverges"
proof -
  let ?city = "\<lambda>bs s l. 5 :: u64" and ?mk = "demo_mk\<lparr>mk_pre_known := 0\<rparr>"
  obtain cfg where c: "PetKVConfig_new 36 = Returns cfg" using demo_cfg by blast
  have "\<exists>rq i cl' p' ws sv' mem. GetParameter_send 32000 (Some [9]) 69632 demo_client demo_process = Returns (rq, i, cl', p') \<and>
    RpcPsGet id (\<lambda>_. 0) 7 (KVEnginePetKV_BatchGet cfg ?city 1) petkv_bytes True 300 (rq_msg rq) 0 (demo_service ?mk) = Returns (ws, sv') \<and>
    mem = deliver_all (dsm_base p') ws (memory p') \<and> QueryRPCFinished i mem cl' = Returns False \<and>
    (\<forall>n. GetParameter 32000 (\<lambda>j. if j < n then memory p' else mem) False (Some [9]) 69632 demo_client demo_process = Diverges)"
    by (rule GetParameter_missing_key_waits [where keys = "[9]" and b = 36 and missing = 9])
      (use demo_ready demo_serving [of True ?mk] demo_store(1,2) [OF c] in \<open>simp_all add: demo_service_def\<close>)
  then show ?thesis using c by (elim exE conjE) (intro exI conjI, assumption+, simp)
qed

end
