(* ===== verification/Ps_Shards.thy ===== *)
theory Ps_Shards
  imports Ps_Client
begin

text \<open>
  The client of all servers (\<open>src/src/ps/allshards_ps_client.h\<close>): it splits a request by the server of each key,
  passes the parts to one client per server, and, when \<open>RPC_DEBUG\<close> is defined, puts the replies back
  into the order of the keys.
\<close>

section \<open>State\<close>

text \<open>
  What a callback has captured. A key buffer is \<open>None\<close> as long as its vector has never held a key (its
  data pointer is null), and \<open>partitioned_recv_buffer\<close> holds the buffers of each shard by request number.
\<close>

record callback =
  cb_keys :: "u64 list"
  cb_values :: nat
  cb_req :: nat

record AllShardsParameterClientWrapper =
  clients :: "WqRPCParameterClient list"
  num_shards :: nat
  batchRpcId2RpcListMap :: "u64 \<rightharpoonup> 32 word list"
  batchRpcId2CbMap :: "u64 \<rightharpoonup> callback"
  batchRpcIDAcc :: u64
  partitioned_key_buffer :: "u64 list option list"
  partitioned_recv_buffer :: "nat list list"

definition AllShards_new :: "WqRPCParameterClient list \<Rightarrow> nat \<Rightarrow> AllShardsParameterClientWrapper" where
  "AllShards_new cls n = \<lparr>clients = cls, num_shards = n, batchRpcId2RpcListMap = Map.empty, batchRpcId2CbMap = Map.empty,
     batchRpcIDAcc = 0, partitioned_key_buffer = replicate n None, partitioned_recv_buffer = replicate n []\<rparr>"

fun init_loop :: "(nat \<Rightarrow> nat \<Rightarrow> cq_event) \<Rightarrow> process \<Rightarrow> nat list \<Rightarrow> AllShardsParameterClientWrapper \<Rightarrow> AllShardsParameterClientWrapper run" where
  "init_loop events p [] st = Returns st"
| "init_loop events p (i # is) st =
     run_bind (InitThread (events i) p (clients st ! i)) (\<lambda>(rq, cl). init_loop events p is (st\<lparr>clients := (clients st)[i := cl]\<rparr>))"

definition AllShards_InitThread :: "(nat \<Rightarrow> nat \<Rightarrow> cq_event) \<Rightarrow> process \<Rightarrow> AllShardsParameterClientWrapper \<Rightarrow> AllShardsParameterClientWrapper run" where
  "AllShards_InitThread events p st = init_loop events p [0..<num_shards st] st"

text \<open>One more buffer for every shard; the result is memory from \<open>new\<close>, here at \<open>fresh\<close>.\<close>

fun recv_loop :: "u64 \<Rightarrow> nat list \<Rightarrow> nat list list \<Rightarrow> process \<Rightarrow> nat list list \<times> process" where
  "recv_loop n [] bufs p = (bufs, p)"
| "recv_loop n (i # is) bufs p = (let (a, p) = GetReceiveBuffer n p in recv_loop n is (bufs[i := bufs ! i @ [a]]) p)"

definition AllShards_GetReceiveBuffer ::
  "nat \<Rightarrow> nat \<Rightarrow> nat \<Rightarrow> AllShardsParameterClientWrapper \<Rightarrow> process \<Rightarrow> nat \<times> AllShardsParameterClientWrapper \<times> process" where
  "AllShards_GetReceiveBuffer max_kv value_size fresh st p =
     (let (bufs, p) = recv_loop (of_nat (max_kv * value_size)) [0..<num_shards st] (partitioned_recv_buffer st) p
      in (fresh, st\<lparr>partitioned_recv_buffer := bufs\<rparr>, p))"

section \<open>Requests\<close>

fun push_keys :: "(u64 \<Rightarrow> int run) \<Rightarrow> u64 list \<Rightarrow> u64 list option list \<Rightarrow> u64 list option list run" where
  "push_keys part [] bufs = Returns bufs"
| "push_keys part (k # ks) bufs =
     run_bind (part k) (\<lambda>shard.
       if shard < 0 \<or> int (length bufs) \<le> shard then Aborts (Undefined ''key buffer out of range'')
       else let b = (case bufs ! nat shard of None \<Rightarrow> [] | Some b \<Rightarrow> b)
            in push_keys part ks (bufs[nat shard := Some (b @ [k])]))"

text \<open>The loop over the clients; it collects the requests and their identifiers.\<close>

fun shard_calls ::
  "nat \<Rightarrow> (nat \<Rightarrow> nat \<Rightarrow> nat \<Rightarrow> u8) \<Rightarrow> bool \<Rightarrow> nat \<Rightarrow> u64 list option list \<Rightarrow> nat list list \<Rightarrow> nat list \<Rightarrow>
   request list \<times> 32 word list \<times> WqRPCParameterClient list \<times> process \<Rightarrow>
   (request list \<times> 32 word list \<times> WqRPCParameterClient list \<times> process) run" where
  "shard_calls value_size mems isAsync req bufs recv [] st = Returns st"
| "shard_calls value_size mems isAsync req bufs recv (i # is) (rqs, ids, cls, p) =
     run_bind (run_check ((case bufs ! i of None \<Rightarrow> 0 | Some ks \<Rightarrow> length ks) \<le> 500) ''size <= 500'') (\<lambda>_.
       if length (recv ! i) \<le> req then Aborts (Undefined ''receive buffer out of range'')
       else run_bind (GetParameter value_size (mems i) isAsync (bufs ! i) (recv ! i ! req) (cls ! i) p) (\<lambda>(rq, id, cl, p).
         shard_calls value_size mems isAsync req bufs recv is (rqs @ [rq], ids @ [id], cls[i := cl], p)))"

definition AllShards_GetParameter ::
  "(u8 list \<Rightarrow> u64) \<Rightarrow> XPostoffice \<Rightarrow> nat \<Rightarrow> (nat \<Rightarrow> nat \<Rightarrow> nat \<Rightarrow> u8) \<Rightarrow> bool \<Rightarrow> nat \<Rightarrow> u64 list \<Rightarrow> nat \<Rightarrow>
   AllShardsParameterClientWrapper \<Rightarrow> process \<Rightarrow> (request list \<times> 32 word \<times> AllShardsParameterClientWrapper \<times> process) run" where
  "AllShards_GetParameter city po value_size mems isAsync req keys values st p =
     run_bind (push_keys (KeyPartition city po) keys (map (map_option (\<lambda>_. [])) (partitioned_key_buffer st))) (\<lambda>bufs.
       let bufs = map (map_option (take 500)) bufs in
       run_bind (shard_calls value_size mems isAsync req bufs (partitioned_recv_buffer st) [0..<num_shards st] ([], [], clients st, p)) (\<lambda>(rqs, ids, cls, p).
         let old = batchRpcIDAcc st in
         Returns (rqs, ucast old,
           st\<lparr>clients := cls, partitioned_key_buffer := bufs, batchRpcIDAcc := old + 1,
              batchRpcId2CbMap := (batchRpcId2CbMap st)(old \<mapsto> \<lparr>cb_keys = keys, cb_values = values, cb_req = req\<rparr>),
              batchRpcId2RpcListMap := (batchRpcId2RpcListMap st)(old \<mapsto> ids)\<rparr>, p)))"

section \<open>Replies\<close>

text \<open>The callback: with \<open>RPC_DEBUG\<close> it copies each value from the reply of its shard; otherwise it is empty.\<close>

fun merge_loop :: "(u64 \<Rightarrow> int run) \<Rightarrow> nat \<Rightarrow> nat \<Rightarrow> nat list list \<Rightarrow> nat \<Rightarrow> u64 list \<Rightarrow> nat list \<Rightarrow> nat \<Rightarrow> (nat \<Rightarrow> u8) \<Rightarrow> (nat \<times> (nat \<Rightarrow> u8)) run" where
  "merge_loop part value_size req recv values [] offs acc mem = Returns (acc, mem)"
| "merge_loop part value_size req recv values (k # ks) offs acc mem =
     run_bind (part k) (\<lambda>shard.
       if shard < 0 \<or> int (length offs) \<le> shard \<or> length (recv ! nat shard) \<le> req then Aborts (Undefined ''receive buffer out of range'')
       else let s = nat shard;
                mem = memcpy (values + 4 * (acc div 4)) (mem_bytes mem (recv ! s ! req + offs ! s) value_size) mem
            in merge_loop part value_size req recv values ks (offs[s := offs ! s + value_size]) (acc + value_size) mem)"

definition run_callback ::
  "bool \<Rightarrow> (u8 list \<Rightarrow> u64) \<Rightarrow> XPostoffice \<Rightarrow> nat \<Rightarrow> AllShardsParameterClientWrapper \<Rightarrow> callback \<Rightarrow> process \<Rightarrow> process run" where
  "run_callback rpc_debug city po value_size st cb p =
     (if \<not> rpc_debug then Returns p
      else run_bind (merge_loop (KeyPartition city po) value_size (cb_req cb) (partitioned_recv_buffer st) (cb_values cb) (cb_keys cb)
             (replicate (num_shards st) 0) 0 (memory p)) (\<lambda>(acc, mem).
           run_bind (run_check (acc = length (cb_keys cb) * value_size) ''acc == keys.Size() * FLAGS_value_size'') (\<lambda>_.
             Returns (p\<lparr>memory := mem\<rparr>))))"

text \<open>The identifiers of a request; an unknown one gives an empty vector.\<close>

definition shard_ids :: "32 word \<Rightarrow> AllShardsParameterClientWrapper \<Rightarrow> 32 word list" where
  "shard_ids rpc_id st = (case batchRpcId2RpcListMap st (scast rpc_id) of None \<Rightarrow> [] | Some ids \<Rightarrow> ids)"

definition MAGIC_RPC_ID_FOR_EMPTY_REQUEST :: u64 where
  "MAGIC_RPC_ID_FOR_EMPTY_REQUEST = -1"

fun query_loop ::
  "(process \<Rightarrow> process run) \<Rightarrow> 32 word list \<Rightarrow> WqRPCParameterClient list \<Rightarrow> nat list \<Rightarrow> process \<Rightarrow> (bool \<times> process) run" where
  "query_loop cb ids cls [] p = Returns (True, p)"
| "query_loop cb ids cls (i # is) p =
     (if length ids \<le> i then Aborts (Undefined ''index behind the end'')
      else if scast (ids ! i) = MAGIC_RPC_ID_FOR_EMPTY_REQUEST then query_loop cb ids cls is p
      else run_bind (QueryRPCFinished (ids ! i) (memory p) (cls ! i)) (\<lambda>done.
        if \<not> done then Returns (False, p) else run_bind (cb p) (query_loop cb ids cls is)))"

definition AllShards_QueryRPCFinished ::
  "bool \<Rightarrow> (u8 list \<Rightarrow> u64) \<Rightarrow> XPostoffice \<Rightarrow> nat \<Rightarrow> 32 word \<Rightarrow> AllShardsParameterClientWrapper \<Rightarrow> process \<Rightarrow> (bool \<times> process) run" where
  "AllShards_QueryRPCFinished rpc_debug city po value_size rpc_id st p =
     query_loop (\<lambda>p. case batchRpcId2CbMap st (scast rpc_id) of
         None \<Rightarrow> Aborts (Uncaught ''bad_function_call'')
       | Some cb \<Rightarrow> run_callback rpc_debug city po value_size st cb p)
       (shard_ids rpc_id st) (clients st) [0..<num_shards st] p"

text \<open>The waiting loop; \<open>mems i n\<close> is the memory at the read \<open>n\<close> while the client \<open>i\<close> waits. The callback is not run.\<close>

fun wait_all :: "(nat \<Rightarrow> nat \<Rightarrow> nat \<Rightarrow> u8) \<Rightarrow> 32 word list \<Rightarrow> WqRPCParameterClient list \<Rightarrow> nat list \<Rightarrow> unit run" where
  "wait_all mems ids cls [] = Returns ()"
| "wait_all mems ids cls (i # is) =
     (if length ids \<le> i then Aborts (Undefined ''index behind the end'')
      else if scast (ids ! i) = MAGIC_RPC_ID_FOR_EMPTY_REQUEST then wait_all mems ids cls is
      else run_bind (WaitRPCFinish (ids ! i) (mems i) (cls ! i)) (\<lambda>_. wait_all mems ids cls is))"

definition AllShards_WaitRPCFinish :: "(nat \<Rightarrow> nat \<Rightarrow> nat \<Rightarrow> u8) \<Rightarrow> 32 word \<Rightarrow> AllShardsParameterClientWrapper \<Rightarrow> unit run" where
  "AllShards_WaitRPCFinish mems rpc_id st = wait_all mems (shard_ids rpc_id st) (clients st) [0..<num_shards st]"

fun revoke_all :: "32 word list \<Rightarrow> nat list \<Rightarrow> WqRPCParameterClient list \<Rightarrow> WqRPCParameterClient list run" where
  "revoke_all ids [] cls = Returns cls"
| "revoke_all ids (i # is) cls =
     (if length ids \<le> i then Aborts (Undefined ''index behind the end'')
      else if scast (ids ! i) = MAGIC_RPC_ID_FOR_EMPTY_REQUEST then revoke_all ids is cls
      else revoke_all ids is (cls[i := RevokeRPCResource (ids ! i) (cls ! i)]))"

definition AllShards_RevokeRPCResource :: "32 word \<Rightarrow> AllShardsParameterClientWrapper \<Rightarrow> AllShardsParameterClientWrapper run" where
  "AllShards_RevokeRPCResource rpc_id st =
     run_bind (revoke_all (shard_ids rpc_id st) [0..<num_shards st] (clients st)) (\<lambda>cls.
       Returns (st\<lparr>clients := cls, batchRpcId2RpcListMap := (batchRpcId2RpcListMap st)(scast rpc_id := None),
         batchRpcId2CbMap := (batchRpcId2CbMap st)(scast rpc_id := None)\<rparr>))"

text \<open>The variants with vectors are not implemented.\<close>

definition AllShards_GetParameter_vectors :: "int run" where
  "AllShards_GetParameter_vectors = Aborts (CheckFailed ''0'')"

definition AllShards_PutParameter :: "int run" where
  "AllShards_PutParameter = Aborts (LogFatal ''TODO'')"

section \<open>Splitting\<close>

text \<open>A partition into \<open>n\<close> shards, and the keys of a shard in the order of the request.\<close>

definition splits :: "(u64 \<Rightarrow> int run) \<Rightarrow> nat \<Rightarrow> (u64 \<Rightarrow> nat) \<Rightarrow> bool" where
  "splits part n f \<longleftrightarrow> (\<forall>k. part k = Returns (int (f k)) \<and> f k < n)"

definition keys_of :: "(u64 \<Rightarrow> nat) \<Rightarrow> u64 list \<Rightarrow> nat \<Rightarrow> u64 list" where
  "keys_of f keys i = filter (\<lambda>k. f k = i) keys"

lemma push_keys_Returns:
  assumes "splits part n f"
  shows "length bufs = n \<Longrightarrow> \<exists>bufs'. push_keys part keys bufs = Returns bufs' \<and> length bufs' = n \<and>
    (\<forall>i < n. bufs' ! i = (if keys_of f keys i = [] then bufs ! i else Some ((case bufs ! i of None \<Rightarrow> [] | Some b \<Rightarrow> b) @ keys_of f keys i)))"
proof (induction keys arbitrary: bufs)
  case (Cons k keys)
  let ?b = "bufs[f k := Some ((case bufs ! f k of None \<Rightarrow> [] | Some b \<Rightarrow> b) @ [k])]"
  from assms have k: "part k = Returns (int (f k))" "f k < n" by (auto simp: splits_def)
  obtain bufs' where b: "push_keys part keys ?b = Returns bufs'" "length bufs' = n"
    "\<forall>i < n. bufs' ! i = (if keys_of f keys i = [] then ?b ! i else Some ((case ?b ! i of None \<Rightarrow> [] | Some b \<Rightarrow> b) @ keys_of f keys i))"
    using Cons.IH [of ?b] Cons.prems by auto
  have "push_keys part (k # keys) bufs = Returns bufs'" using k b(1) Cons.prems by (simp add: Let_def)
  moreover have "bufs' ! i = (if keys_of f (k # keys) i = [] then bufs ! i else Some ((case bufs ! i of None \<Rightarrow> [] | Some b \<Rightarrow> b) @ keys_of f (k # keys) i))"
    if "i < n" for i
    using b(3) that Cons.prems by (cases "f k = i") (auto simp: keys_of_def)
  ultimately show ?case using b(2) by blast
qed (simp add: keys_of_def)

lemma push_keys_all:
  assumes "splits part n f" "length bufs = n" "\<forall>i < n. keys_of f keys i \<noteq> []" "\<forall>i < n. length (keys_of f keys i) \<le> 500"
  shows "\<exists>bufs'. push_keys part keys (map (map_option (\<lambda>_. [])) bufs) = Returns bufs' \<and>
    map (map_option (take 500)) bufs' = map (\<lambda>i. Some (keys_of f keys i)) [0..<n]"
proof -
  obtain bufs' where b: "push_keys part keys (map (map_option (\<lambda>_. [])) bufs) = Returns bufs'" "length bufs' = n"
    "\<forall>i < n. bufs' ! i = Some ((case map (map_option (\<lambda>_. [])) bufs ! i of None \<Rightarrow> [] | Some b \<Rightarrow> b) @ keys_of f keys i)"
    using push_keys_Returns [OF assms(1), of "map (map_option (\<lambda>_. [])) bufs" keys] assms(2,3) by auto
  have "bufs' ! i = Some (keys_of f keys i)" if "i < n" for i
    using b(3) that assms(2) by (auto split: option.splits)
  then have "map (map_option (take 500)) bufs' = map (\<lambda>i. Some (keys_of f keys i)) [0..<n]"
    using b(2) assms(4) by (intro nth_equalityI) auto
  then show ?thesis using b(1) by blast
qed

section \<open>Merging\<close>

lemma filter_split: "keys_of f (xs @ k # ys) (f k) = keys_of f xs (f k) @ k # keys_of f ys (f k)"
  by (simp add: keys_of_def)

text \<open>The next value of a shard lies behind those of the keys before.\<close>

lemma shard_value:
  assumes "mem_bytes mem r (length (keys_of f (xs @ k # ys) (f k)) * n) = concat (map val (keys_of f (xs @ k # ys) (f k)))"
    and "\<forall>x \<in> set (xs @ k # ys). length (val x) = n"
  shows "mem_bytes mem (r + n * length (keys_of f xs (f k))) n = val k"
proof -
  let ?a = "keys_of f xs (f k)" and ?b = "keys_of f ys (f k)"
  have la: "length (concat (map val ?a)) = n * length ?a"
    using assms(2) length_concat_eq [of "map val ?a" n] by (auto simp: keys_of_def mult.commute)
  have "mem_bytes mem r (n * length ?a + (n + n * length ?b)) = concat (map val ?a) @ val k @ concat (map val ?b)"
    using assms(1) unfolding filter_split by (simp add: algebra_simps)
  then have "mem_bytes mem (r + n * length ?a) (n + n * length ?b) = val k @ concat (map val ?b)"
    unfolding mem_bytes_append [of mem r] using la by (simp add: append_eq_append_conv del: length_concat)
  then show ?thesis
    unfolding mem_bytes_append [of mem "r + n * length ?a"] using assms(2) by (simp add: append_eq_append_conv)
qed

text \<open>Two areas of memory that do not meet.\<close>

definition apart :: "nat \<Rightarrow> nat \<Rightarrow> nat \<Rightarrow> nat \<Rightarrow> bool" where
  "apart a m b n \<longleftrightarrow> a + m \<le> b \<or> b + n \<le> a"

lemma memcpy_apart: "apart a (length bs) b n \<Longrightarrow> mem_bytes (memcpy a bs mem) b n = mem_bytes mem b n"
  unfolding apart_def mem_bytes_def by (rule memcpy_other)

lemma merge_loop_Returns:
  assumes sp: "splits part n f" and len: "\<forall>k \<in> set (xs @ ys). length (val k) = vs" and vs: "vs mod 4 = 0"
    and recv: "\<forall>i < n. req < length (recv ! i) \<and> apart values (length (xs @ ys) * vs) (recv ! i ! req) (length (keys_of f (xs @ ys) i) * vs) \<and>
      mem_bytes mem (recv ! i ! req) (length (keys_of f (xs @ ys) i) * vs) = concat (map val (keys_of f (xs @ ys) i))"
  shows "merge_loop part vs req recv values ys (map (\<lambda>i. vs * length (keys_of f xs i)) [0..<n]) (vs * length xs) mem =
    Returns (vs * length (xs @ ys), memcpy (values + vs * length xs) (concat (map val ys)) mem)"
  using len recv
proof (induction ys arbitrary: xs mem)
  case (Cons k ys)
  let ?offs = "\<lambda>xs. map (\<lambda>i. vs * length (keys_of f xs i)) [0..<n]"
  let ?mem = "memcpy (values + vs * length xs) (val k) mem"
  from sp have k: "part k = Returns (int (f k))" "f k < n" by (auto simp: splits_def)
  have v: "mem_bytes mem (recv ! f k ! req + vs * length (keys_of f xs (f k))) vs = val k"
    using Cons.prems k(2) by (intro shard_value) auto
  have o: "(?offs xs)[f k := vs * length (keys_of f xs (f k)) + vs] = ?offs (xs @ [k])"
    using k(2) by (intro nth_equalityI) (auto simp: keys_of_def nth_list_update)
  have d: "4 * (vs * length xs div 4) = vs * length xs" using vs by (metis dvd_mult_div_cancel dvd_mult2 mod_0_imp_dvd)
  have lk: "length (val k) = vs" using Cons.prems(1) by simp
  have "mem_bytes ?mem (recv ! i ! req) (length (keys_of f (xs @ k # ys) i) * vs) = mem_bytes mem (recv ! i ! req) (length (keys_of f (xs @ k # ys) i) * vs)"
    if "i < n" for i
  proof (rule memcpy_apart)
    have "apart values (length (xs @ k # ys) * vs) (recv ! i ! req) (length (keys_of f (xs @ k # ys) i) * vs)" using Cons.prems(2) that by blast
    moreover have "vs * length xs + vs \<le> length (xs @ k # ys) * vs" by (simp add: algebra_simps)
    ultimately show "apart (values + vs * length xs) (length (val k)) (recv ! i ! req) (length (keys_of f (xs @ k # ys) i) * vs)"
      unfolding apart_def lk by linarith
  qed
  then have "merge_loop part vs req recv values ys (?offs (xs @ [k])) (vs * length (xs @ [k])) ?mem =
      Returns (vs * length ((xs @ [k]) @ ys), memcpy (values + vs * length (xs @ [k])) (concat (map val ys)) ?mem)"
    using Cons.prems by (intro Cons.IH) simp_all
  moreover have "memcpy (values + vs * length (xs @ [k])) (concat (map val ys)) ?mem = memcpy (values + vs * length xs) (concat (map val (k # ys))) mem"
    using memcpy_append [of "values + vs * length xs" "val k" "concat (map val ys)" mem] lk by (simp add: algebra_simps)
  moreover have "merge_loop part vs req recv values (k # ys) (?offs xs) (vs * length xs) mem =
      merge_loop part vs req recv values ys (?offs (xs @ [k])) (vs * length (xs @ [k])) ?mem"
  proof -
    have "\<not> length (recv ! f k) \<le> req" using k(2) Cons.prems(2) by (simp add: not_le)
    then show ?thesis using k v o d by (simp add: Let_def algebra_simps)
  qed
  ultimately show ?case by simp
qed simp

lemma merge_all:
  assumes "splits (KeyPartition city po) (num_shards st) f" "\<forall>k \<in> set keys. length (val k) = vs" "vs mod 4 = 0"
    and "\<forall>i < num_shards st. req < length (partitioned_recv_buffer st ! i) \<and>
      apart values (length keys * vs) (partitioned_recv_buffer st ! i ! req) (length (keys_of f keys i) * vs) \<and>
      mem_bytes (memory p) (partitioned_recv_buffer st ! i ! req) (length (keys_of f keys i) * vs) = concat (map val (keys_of f keys i))"
  shows "run_callback True city po vs st \<lparr>cb_keys = keys, cb_values = values, cb_req = req\<rparr> p =
    Returns (p\<lparr>memory := memcpy values (concat (map val keys)) (memory p)\<rparr>)"
proof -
  have "merge_loop (KeyPartition city po) vs req (partitioned_recv_buffer st) values keys (map (\<lambda>i. vs * length (keys_of f [] i)) [0..<num_shards st]) (vs * length ([] :: u64 list)) (memory p) =
      Returns (vs * length ([] @ keys), memcpy (values + vs * length ([] :: u64 list)) (concat (map val keys)) (memory p))"
    by (rule merge_loop_Returns) (use assms in simp_all)
  moreover have "map (\<lambda>i. vs * length (keys_of f [] i)) [0..<num_shards st] = replicate (num_shards st) 0"
    by (simp add: keys_of_def map_replicate_const)
  ultimately show ?thesis by (simp add: run_callback_def mult.commute)
qed

section \<open>A request to all servers\<close>

text \<open>All clients can send, and know as many threads of their servers.\<close>

definition clients_ready :: "nat \<Rightarrow> WqRPCParameterClient list \<Rightarrow> process \<Rightarrow> bool" where
  "clients_ready L cls p \<longleftrightarrow> round_robin p < L \<and>
     (\<forall>cl \<in> set cls. length (serverThreadIdsRoutedTo cl) = L \<and> unat (rpcIDAcc cl) < 2 ^ 31)"

definition sent_client :: "nat \<Rightarrow> u64 list \<Rightarrow> nat \<Rightarrow> WqRPCParameterClient \<Rightarrow> WqRPCParameterClient" where
  "sent_client vs ks a cl =
     cl\<lparr>rpcIDAcc := rpcIDAcc cl + 1, rpcId2PollMap := (rpcId2PollMap cl)(rpcIDAcc cl \<mapsto> poll_address vs (Some ks) a)\<rparr>"

lemma shard_calls_Returns:
  assumes "distinct is" "\<forall>i \<in> set is. i < length cls \<and> bufs ! i = Some (kf i) \<and> length (kf i) \<le> 500 \<and> req < length (recv ! i) \<and>
      length (serverThreadIdsRoutedTo (cls ! i)) = L \<and> unat (rpcIDAcc (cls ! i)) < 2 ^ 31" "round_robin p < L"
  shows "\<exists>rqs' cls' p'. shard_calls vs mems True req bufs recv is (rqs, ids, cls, p) =
      Returns (rqs @ rqs', ids @ map (\<lambda>i. ucast (rpcIDAcc (cls ! i))) is, cls', p') \<and>
    list_all2 (\<lambda>i rq. rq_node rq = cl_shard (cls ! i) \<and> get_string (rq_msg rq) = Returns (concat (map (le_bytes 8) (kf i)))) is rqs' \<and>
    length cls' = length cls \<and>
    (\<forall>i < length cls. cls' ! i = (if i \<in> set is then sent_client vs (kf i) (recv ! i ! req) (cls ! i) else cls ! i))"
  using assms
proof (induction "is" arbitrary: rqs ids cls p)
  case (Cons i "is")
  from Cons.prems(2) have i: "i < length cls" "bufs ! i = Some (kf i)" "length (kf i) \<le> 500" "req < length (recv ! i)"
    "length (serverThreadIdsRoutedTo (cls ! i)) = L" "unat (rpcIDAcc (cls ! i)) < 2 ^ 31" by auto
  have "client_ready (cls ! i) p" using i(5,6) Cons.prems(3) by (simp add: client_ready_def)
  moreover have "length (kf i) \<le> 509" using i(3) by simp
  ultimately obtain rq p1 where s: "GetParameter_send vs (Some (kf i)) (recv ! i ! req) (cls ! i) p =
      Returns (rq, ucast (rpcIDAcc (cls ! i)), sent_client vs (kf i) (recv ! i ! req) (cls ! i), p1)"
    "rq_node rq = cl_shard (cls ! i)" "get_string (rq_msg rq) = Returns (concat (map (le_bytes 8) (kf i)))"
    "round_robin p1 = (round_robin p + 1) mod L"
    using GetParameter_send_Returns [of "cls ! i" p "kf i" vs "recv ! i ! req"] i(5) unfolding sent_client_def by blast
  let ?cls = "cls[i := sent_client vs (kf i) (recv ! i ! req) (cls ! i)]"
  have same: "?cls ! j = cls ! j" if "j \<in> set is" for j
  proof -
    have "i \<noteq> j" using Cons.prems(1) that by auto
    then show ?thesis by simp
  qed
  have "\<exists>rqs' cls' p'. shard_calls vs mems True req bufs recv is (rqs @ [rq], ids @ [ucast (rpcIDAcc (cls ! i))], ?cls, p1) =
      Returns ((rqs @ [rq]) @ rqs', (ids @ [ucast (rpcIDAcc (cls ! i))]) @ map (\<lambda>i. ucast (rpcIDAcc (?cls ! i))) is, cls', p') \<and>
    list_all2 (\<lambda>i rq. rq_node rq = cl_shard (?cls ! i) \<and> get_string (rq_msg rq) = Returns (concat (map (le_bytes 8) (kf i)))) is rqs' \<and>
    length cls' = length ?cls \<and>
    (\<forall>i < length ?cls. cls' ! i = (if i \<in> set is then sent_client vs (kf i) (recv ! i ! req) (?cls ! i) else ?cls ! i))"
    using Cons.prems same s(4) by (intro Cons.IH) auto
  then obtain rqs' cls' p' where r: "shard_calls vs mems True req bufs recv is (rqs @ [rq], ids @ [ucast (rpcIDAcc (cls ! i))], ?cls, p1) =
      Returns ((rqs @ [rq]) @ rqs', (ids @ [ucast (rpcIDAcc (cls ! i))]) @ map (\<lambda>i. ucast (rpcIDAcc (?cls ! i))) is, cls', p')"
    "list_all2 (\<lambda>i rq. rq_node rq = cl_shard (?cls ! i) \<and> get_string (rq_msg rq) = Returns (concat (map (le_bytes 8) (kf i)))) is rqs'"
    "length cls' = length cls"
    "\<forall>j < length cls. cls' ! j = (if j \<in> set is then sent_client vs (kf j) (recv ! j ! req) (?cls ! j) else ?cls ! j)" by auto
  have m: "map (\<lambda>i. ucast (rpcIDAcc (?cls ! i)) :: 32 word) is = map (\<lambda>i. ucast (rpcIDAcc (cls ! i))) is" using same by simp
  have "shard_calls vs mems True req bufs recv (i # is) (rqs, ids, cls, p) =
      Returns (rqs @ rq # rqs', ids @ map (\<lambda>i. ucast (rpcIDAcc (cls ! i))) (i # is), cls', p')"
    using i s(1) r(1) m by (simp add: GetParameter_def not_le)
  moreover have "list_all2 (\<lambda>i rq. rq_node rq = cl_shard (cls ! i) \<and> get_string (rq_msg rq) = Returns (concat (map (le_bytes 8) (kf i)))) (i # is) (rq # rqs')"
    using r(2) s(2,3) same by (auto elim: list.rel_mono_strong)
  moreover have "cls' ! j = (if j \<in> set (i # is) then sent_client vs (kf j) (recv ! j ! req) (cls ! j) else cls ! j)" if "j < length cls" for j
    using r(4) that same Cons.prems(1) i(1) by (cases "j = i") auto
  ultimately show ?case using r(3) by blast
qed simp

text \<open>The word that a client polls is the last one of its last value.\<close>

lemma sent_client_finished:
  assumes "unat (rpcIDAcc cl) < 2 ^ 31" "4 \<le> a" "ks \<noteq> []" "\<forall>k \<in> set ks. length (val k) = vs" "4 \<le> vs"
    and "mem_bytes mem a (length ks * vs) = concat (map val ks)"
  shows "QueryRPCFinished (ucast (rpcIDAcc cl)) mem (sent_client vs ks a cl) = Returns (le_word (drop (vs - 4) (val (last ks))) \<noteq> FINISH_MAGIC)"
proof -
  have "4 \<le> length ks * vs" using assms(3,5) by (cases ks) auto
  then have "mem_bytes mem (a + length ks * vs - 4) 4 = drop (vs - 4) (val (last ks))"
    using last_word [OF assms(3-5)] mem_bytes_drop [of "length ks * vs - 4" "length ks * vs" mem a] unfolding assms(6) by simp
  then show ?thesis
    using poll_word_after [OF assms(1) refl, of mem "poll_address vs (Some ks) a"]
    unfolding QueryRPCFinished_def sent_client_def poll_address_nat [OF assms(2)] by simp
qed

lemma query_loop_all:
  assumes "\<forall>m \<in> M. cb (p\<lparr>memory := m\<rparr>) = Returns (p\<lparr>memory := g m\<rparr>) \<and> g m \<in> M"
    and "\<forall>i \<in> set is. i < length ids \<and> (scast (ids ! i) :: u64) \<noteq> MAGIC_RPC_ID_FOR_EMPTY_REQUEST \<and>
      (\<forall>m \<in> M. QueryRPCFinished (ids ! i) m (cls ! i) = Returns True)"
    and "m \<in> M"
  shows "query_loop cb ids cls is (p\<lparr>memory := m\<rparr>) = Returns (True, p\<lparr>memory := (g ^^ length is) m\<rparr>)"
  using assms(2,3)
proof (induction "is" arbitrary: m)
  case (Cons i "is")
  then have "query_loop cb ids cls (i # is) (p\<lparr>memory := m\<rparr>) = query_loop cb ids cls is (p\<lparr>memory := g m\<rparr>)"
    using assms(1) by (simp add: not_le)
  also have "\<dots> = Returns (True, p\<lparr>memory := (g ^^ length is) (g m)\<rparr>)" using Cons assms(1) by auto
  finally show ?case by (simp add: funpow_swap1)
qed simp

text \<open>
  A server that is asked for nothing: the polled word lies in front of the buffer, where it overwrites
  what is there, and an empty reply does not change it.
\<close>

lemma empty_part_never_finishes:
  assumes "client_ready cl p" "4 \<le> a" "GetParameter_send vs (Some []) a cl p = Returns (rq, i, cl', p')"
  shows "mem_bytes (memory p') (a - 4) 4 = le_bytes 4 FINISH_MAGIC"
    and "QueryRPCFinished i (memcpy a [] (memory p')) cl' = Returns False"
proof -
  have "memory p' = memcpy (a - 4) (le_bytes 4 FINISH_MAGIC) (memory p)"
    using GetParameter_send_Returns [OF assms(1), of "[]" vs a] assms(3) poll_address_nat [OF assms(2), of vs "[]"] by auto
  then show "mem_bytes (memory p') (a - 4) 4 = le_bytes 4 FINISH_MAGIC"
    using memcpy_new [of "a - 4" "le_bytes 4 FINISH_MAGIC" "memory p"] by (simp add: mem_bytes_def)
  show "QueryRPCFinished i (memcpy a [] (memory p')) cl' = Returns False"
    by (rule reply_seen(3) [OF assms(1) _ assms(2,3)]) simp_all
qed

definition server_of :: "(u8 list \<Rightarrow> u64) \<Rightarrow> XPostoffice \<Rightarrow> u64 \<Rightarrow> nat" where
  "server_of city po k = unat (GetHash city k) mod nat (num_servers po)"

lemma KeyPartition_splits:
  assumes "0 < num_servers po" "num_servers po < 2 ^ 31"
  shows "splits (KeyPartition city po) (nat (num_servers po)) (server_of city po)"
  using KeyPartition_range [OF assms, of city] assms(1) by (simp add: splits_def server_of_def)

text \<open>The state in which a request of the keys can be sent to all servers and its reply stored at \<open>values\<close>.\<close>

definition can_request :: "(u8 list \<Rightarrow> u64) \<Rightarrow> XPostoffice \<Rightarrow> nat \<Rightarrow> nat \<Rightarrow> u64 list \<Rightarrow> nat \<Rightarrow> AllShardsParameterClientWrapper \<Rightarrow> process \<Rightarrow> bool" where
  "can_request city po vs req keys values st p \<longleftrightarrow>
     0 < num_servers po \<and> num_servers po < 2 ^ 31 \<and> num_shards st = nat (num_servers po) \<and>
     length (clients st) = num_shards st \<and> length (partitioned_key_buffer st) = num_shards st \<and>
     (\<exists>L. clients_ready L (clients st) p) \<and> unat (batchRpcIDAcc st) < 2 ^ 31 \<and>
     (\<forall>i < num_shards st. keys_of (server_of city po) keys i \<noteq> [] \<and> length (keys_of (server_of city po) keys i) \<le> 500 \<and>
        req < length (partitioned_recv_buffer st ! i) \<and> 4 \<le> partitioned_recv_buffer st ! i ! req \<and>
        apart values (length keys * vs) (partitioned_recv_buffer st ! i ! req) (length (keys_of (server_of city po) keys i) * vs))"

text \<open>The replies of all servers have arrived in their buffers, each with the values of its keys.\<close>

definition replies_arrived :: "(u8 list \<Rightarrow> u64) \<Rightarrow> XPostoffice \<Rightarrow> nat \<Rightarrow> nat \<Rightarrow> u64 list \<Rightarrow> (u64 \<Rightarrow> u8 list) \<Rightarrow> AllShardsParameterClientWrapper \<Rightarrow> (nat \<Rightarrow> u8) \<Rightarrow> bool" where
  "replies_arrived city po vs req keys val st mem \<longleftrightarrow>
     (\<forall>i < num_shards st.
        mem_bytes mem (partitioned_recv_buffer st ! i ! req) (length (keys_of (server_of city po) keys i) * vs) =
          concat (map val (keys_of (server_of city po) keys i)))"

lemma query_all:
  assumes c: "can_request city po vs req keys values st p" and v: "\<forall>k \<in> set keys. length (val k) = vs" "vs mod 4 = 0" "0 < vs"
    and a: "replies_arrived city po vs req keys val st mem"
    and w: "\<forall>k \<in> set keys. le_word (drop (vs - 4) (val k)) \<noteq> FINISH_MAGIC"
    and st': "st' = st\<lparr>clients := cls', partitioned_key_buffer := bufs, batchRpcIDAcc := batchRpcIDAcc st + 1,
        batchRpcId2CbMap := (batchRpcId2CbMap st)(batchRpcIDAcc st \<mapsto> \<lparr>cb_keys = keys, cb_values = values, cb_req = req\<rparr>),
        batchRpcId2RpcListMap := (batchRpcId2RpcListMap st)(batchRpcIDAcc st \<mapsto> map (\<lambda>i. ucast (rpcIDAcc (clients st ! i))) [0..<num_shards st])\<rparr>"
    and cls': "\<forall>i < num_shards st. cls' ! i = sent_client vs (keys_of (server_of city po) keys i) (partitioned_recv_buffer st ! i ! req) (clients st ! i)"
  shows "AllShards_QueryRPCFinished dbg city po vs (ucast (batchRpcIDAcc st)) st' (p'\<lparr>memory := mem\<rparr>) =
    Returns (True, p'\<lparr>memory := if dbg then memcpy values (concat (map val keys)) mem else mem\<rparr>)"
proof -
  let ?f = "server_of city po" and ?n = "num_shards st" and ?D = "concat (map val keys)"
  let ?g = "\<lambda>m. if dbg then memcpy values ?D m else m" and ?M = "{mem, memcpy values ?D mem}"
  let ?ids = "map (\<lambda>i. ucast (rpcIDAcc (clients st ! i)) :: 32 word) [0..<?n]"
  have four: "4 \<le> vs" using v(2,3) by presburger
  have lenD: "length ?D = length keys * vs" using v(1) length_concat_eq [of "map val keys" vs] by auto
  have id: "scast (ucast (batchRpcIDAcc st) :: 32 word) = batchRpcIDAcc st" using c by (intro scast_ucast_id) (simp add: can_request_def)
  have arr: "mem_bytes m (partitioned_recv_buffer st ! i ! req) (length (keys_of ?f keys i) * vs) = concat (map val (keys_of ?f keys i))"
    if "m \<in> ?M" "i < ?n" for m i
    using a that c memcpy_apart [of "values" ?D] unfolding lenD by (auto simp: replies_arrived_def can_request_def)
  have cb: "(case batchRpcId2CbMap st' (scast (ucast (batchRpcIDAcc st) :: 32 word)) of None \<Rightarrow> Aborts (Uncaught ''bad_function_call'')
      | Some cb \<Rightarrow> run_callback dbg city po vs st' cb (p'\<lparr>memory := m\<rparr>)) = Returns (p'\<lparr>memory := ?g m\<rparr>)" if "m \<in> ?M" for m
  proof (cases dbg)
    case True
    have "run_callback True city po vs st' \<lparr>cb_keys = keys, cb_values = values, cb_req = req\<rparr> (p'\<lparr>memory := m\<rparr>) =
      Returns ((p'\<lparr>memory := m\<rparr>)\<lparr>memory := memcpy values ?D (memory (p'\<lparr>memory := m\<rparr>))\<rparr>)"
      using c v(1,2) arr [OF that] KeyPartition_splits [of po city] by (intro merge_all) (auto simp: st' can_request_def)
    then show ?thesis using True by (simp add: id) (simp add: st')
  qed (simp add: id, simp add: st' run_callback_def)
  have twice: "?g (?g mem) = ?g mem" by (auto simp: memcpy_def)
  have M: "?g m \<in> ?M" if "m \<in> ?M" for m using that by (auto simp: memcpy_def)
  have q: "QueryRPCFinished (?ids ! i) m (cls' ! i) = Returns True" "(scast (?ids ! i) :: u64) \<noteq> MAGIC_RPC_ID_FOR_EMPTY_REQUEST"
    if "i < ?n" "m \<in> ?M" for i m
  proof -
    have i: "unat (rpcIDAcc (clients st ! i)) < 2 ^ 31" using c that(1) by (auto simp: can_request_def clients_ready_def)
    have ne: "keys_of ?f keys i \<noteq> []" using c that(1) by (simp add: can_request_def)
    then have "last (keys_of ?f keys i) \<in> set keys" using last_in_set [OF ne] by (simp add: keys_of_def)
    moreover have "QueryRPCFinished (ucast (rpcIDAcc (clients st ! i))) m (sent_client vs (keys_of ?f keys i) (partitioned_recv_buffer st ! i ! req) (clients st ! i)) =
        Returns (le_word (drop (vs - 4) (val (last (keys_of ?f keys i)))) \<noteq> FINISH_MAGIC)"
      using c that v(1) ne four arr [OF that(2,1)] by (intro sent_client_finished [OF i]) (auto simp: can_request_def keys_of_def)
    ultimately show "QueryRPCFinished (?ids ! i) m (cls' ! i) = Returns True" using w cls' that(1) by simp
    have "(scast (?ids ! i) :: u64) = rpcIDAcc (clients st ! i)" using that(1) scast_ucast_id [OF i] by simp
    then show "(scast (?ids ! i) :: u64) \<noteq> MAGIC_RPC_ID_FOR_EMPTY_REQUEST" using i by (auto simp: MAGIC_RPC_ID_FOR_EMPTY_REQUEST_def unsigned_minus_1_eq_mask mask_eq_exp_minus_1)
  qed
  have q2: "(scast (?ids ! i) :: u64) \<noteq> MAGIC_RPC_ID_FOR_EMPTY_REQUEST" if "i < ?n" for i using q(2) [OF that, of mem] by simp
  have "AllShards_QueryRPCFinished dbg city po vs (ucast (batchRpcIDAcc st)) st' (p'\<lparr>memory := mem\<rparr>) =
      Returns (True, p'\<lparr>memory := (?g ^^ length [0..<?n]) mem\<rparr>)"
  proof -
    have ids: "shard_ids (ucast (batchRpcIDAcc st)) st' = ?ids" by (simp add: shard_ids_def id) (simp add: st')
    have n: "num_shards st' = ?n" "clients st' = cls'" by (simp_all add: st')
    show ?thesis unfolding AllShards_QueryRPCFinished_def ids n
      by (rule query_loop_all [where M = ?M]) (use cb M q(1) q2 in auto)
  qed
  moreover have "0 < ?n" using c by (simp add: can_request_def)
  then obtain n where "?n = Suc n" by (cases ?n) auto
  moreover have "(?g ^^ Suc n) mem = ?g mem" for n using twice by (induction n) auto
  ultimately show ?thesis by simp
qed

section \<open>Properties\<close>

text \<open>
  (C37) A request whose keys are spread over all servers is split so that each server is asked for its own
  keys, in their order. When all replies have arrived the request counts as finished; with \<open>RPC_DEBUG\<close>
  the values then lie in the buffer of the caller in the order of the keys, for every hash function,
  and without it the buffer is never written.
\<close>

theorem AllShards_in_order:
  assumes "can_request city po vs req keys values st p" and "\<forall>k \<in> set keys. length (val k) = vs" "vs mod 4 = 0" "0 < vs"
    and "\<forall>k \<in> set keys. le_word (drop (vs - 4) (val k)) \<noteq> FINISH_MAGIC"
  shows "\<exists>rqs rpc_id st' p'. AllShards_GetParameter city po vs mems True req keys values st p = Returns (rqs, rpc_id, st', p') \<and>
    list_all2 (\<lambda>i rq. rq_node rq = cl_shard (clients st ! i) \<and>
      get_string (rq_msg rq) = Returns (concat (map (le_bytes 8) (filter (\<lambda>k. server_of city po k = i) keys)))) [0..<num_shards st] rqs \<and>
    (\<forall>mem. replies_arrived city po vs req keys val st mem \<longrightarrow>
       AllShards_QueryRPCFinished True city po vs rpc_id st' (p'\<lparr>memory := mem\<rparr>) =
         Returns (True, p'\<lparr>memory := memcpy values (concat (map val keys)) mem\<rparr>) \<and>
       AllShards_QueryRPCFinished False city po vs rpc_id st' (p'\<lparr>memory := mem\<rparr>) = Returns (True, p'\<lparr>memory := mem\<rparr>))"
proof -
  let ?f = "server_of city po" and ?n = "num_shards st"
  let ?bufs = "map (\<lambda>i. Some (keys_of ?f keys i)) [0..<?n]"
  have n: "0 < num_servers po" "num_servers po < 2 ^ 31" "?n = nat (num_servers po)" "length (clients st) = ?n"
    "length (partitioned_key_buffer st) = ?n" using assms(1) by (simp_all add: can_request_def)
  obtain L where L: "clients_ready L (clients st) p" using assms(1) by (auto simp: can_request_def)
  have sh: "\<forall>i < ?n. keys_of ?f keys i \<noteq> [] \<and> length (keys_of ?f keys i) \<le> 500 \<and> req < length (partitioned_recv_buffer st ! i)"
    using assms(1) by (simp add: can_request_def)
  obtain bufs where b: "push_keys (KeyPartition city po) keys (map (map_option (\<lambda>_. [])) (partitioned_key_buffer st)) = Returns bufs"
    "map (map_option (take 500)) bufs = ?bufs"
    using push_keys_all [OF KeyPartition_splits [OF n(1,2), of city], of "partitioned_key_buffer st" keys] n sh by auto
  have "\<exists>rqs' cls' p'. shard_calls vs mems True req ?bufs (partitioned_recv_buffer st) [0..<?n] ([], [], clients st, p) =
      Returns ([] @ rqs', [] @ map (\<lambda>i. ucast (rpcIDAcc (clients st ! i))) [0..<?n], cls', p') \<and>
    list_all2 (\<lambda>i rq. rq_node rq = cl_shard (clients st ! i) \<and> get_string (rq_msg rq) = Returns (concat (map (le_bytes 8) (keys_of ?f keys i)))) [0..<?n] rqs' \<and>
    length cls' = length (clients st) \<and>
    (\<forall>i < length (clients st). cls' ! i = (if i \<in> set [0..<?n] then sent_client vs (keys_of ?f keys i) (partitioned_recv_buffer st ! i ! req) (clients st ! i) else clients st ! i))"
    using L sh n(4) by (intro shard_calls_Returns [where L = L]) (auto simp: clients_ready_def)
  then obtain rqs cls' p' where s: "shard_calls vs mems True req ?bufs (partitioned_recv_buffer st) [0..<?n] ([], [], clients st, p) =
      Returns (rqs, map (\<lambda>i. ucast (rpcIDAcc (clients st ! i))) [0..<?n], cls', p')"
    "list_all2 (\<lambda>i rq. rq_node rq = cl_shard (clients st ! i) \<and> get_string (rq_msg rq) = Returns (concat (map (le_bytes 8) (keys_of ?f keys i)))) [0..<?n] rqs"
    "\<forall>i < ?n. cls' ! i = sent_client vs (keys_of ?f keys i) (partitioned_recv_buffer st ! i ! req) (clients st ! i)" using n(4) by auto
  let ?st = "st\<lparr>clients := cls', partitioned_key_buffer := ?bufs, batchRpcIDAcc := batchRpcIDAcc st + 1,
      batchRpcId2CbMap := (batchRpcId2CbMap st)(batchRpcIDAcc st \<mapsto> \<lparr>cb_keys = keys, cb_values = values, cb_req = req\<rparr>),
      batchRpcId2RpcListMap := (batchRpcId2RpcListMap st)(batchRpcIDAcc st \<mapsto> map (\<lambda>i. ucast (rpcIDAcc (clients st ! i))) [0..<?n])\<rparr>"
  have g: "AllShards_GetParameter city po vs mems True req keys values st p = Returns (rqs, ucast (batchRpcIDAcc st), ?st, p')"
    unfolding AllShards_GetParameter_def b(1) run_bind.simps b(2) Let_def s(1) by simp
  have q: "AllShards_QueryRPCFinished dbg city po vs (ucast (batchRpcIDAcc st)) ?st (p'\<lparr>memory := mem\<rparr>) =
      Returns (True, p'\<lparr>memory := if dbg then memcpy values (concat (map val keys)) mem else mem\<rparr>)"
    if "replies_arrived city po vs req keys val st mem" for mem dbg
    by (rule query_all [OF assms(1-4) that assms(5) refl s(3)])
  have "\<forall>mem. replies_arrived city po vs req keys val st mem \<longrightarrow>
       AllShards_QueryRPCFinished True city po vs (ucast (batchRpcIDAcc st)) ?st (p'\<lparr>memory := mem\<rparr>) =
         Returns (True, p'\<lparr>memory := memcpy values (concat (map val keys)) mem\<rparr>) \<and>
       AllShards_QueryRPCFinished False city po vs (ucast (batchRpcIDAcc st)) ?st (p'\<lparr>memory := mem\<rparr>) = Returns (True, p'\<lparr>memory := mem\<rparr>)"
    using q [of _ True] q [of _ False] by simp
  with g s(2) show ?thesis unfolding keys_of_def by blast
qed

definition demo_po :: XPostoffice where
  "demo_po = \<lparr>num_servers = 2, num_clients = 1, global_id = 2, server_id = None, client_id = Some 0, po_actor = ACTOR_CLIENT\<rparr>"

definition demo_shards :: AllShardsParameterClientWrapper where
  "demo_shards = (AllShards_new [demo_client, demo_client\<lparr>cl_shard := 1\<rparr>] 2)\<lparr>partitioned_recv_buffer := [[1000], [2000]]\<rparr>"

theorem AllShards_in_order_witness:
  "\<exists>rqs rpc_id st' p'. AllShards_GetParameter (\<lambda>bs. ucast (hd bs)) demo_po 4 (\<lambda>_ _ _. 0) True 0 [4, 5, 6] 5000 demo_shards demo_process =
       Returns (rqs, rpc_id, st', p') \<and>
     AllShards_QueryRPCFinished True (\<lambda>bs. ucast (hd bs)) demo_po 4 rpc_id st' (p'\<lparr>memory := (\<lambda>a. 7)\<rparr>) =
       Returns (True, p'\<lparr>memory := memcpy 5000 (concat (map (\<lambda>k. [7, 7, 7, 7]) [4 :: u64, 5, 6])) (\<lambda>a. 7)\<rparr>)"
proof -
  let ?city = "\<lambda>bs :: u8 list. ucast (hd bs) :: u64"
  have s: "server_of ?city demo_po 4 = 0" "server_of ?city demo_po 5 = 1" "server_of ?city demo_po 6 = 0"
    by (simp_all add: server_of_def demo_po_def GetHash_def key_bytes_def upt_rec)
  have "i < 2 \<Longrightarrow> i = 0 \<or> i = 1" for i :: nat by linarith
  then have c: "can_request ?city demo_po 4 0 [4, 5, 6] 5000 demo_shards demo_process"
    by (auto simp: can_request_def demo_shards_def AllShards_new_def keys_of_def s apart_def demo_client_def client_new_def demo_process_def
        clients_ready_def) (auto simp: demo_po_def)
  have "replies_arrived ?city demo_po 4 0 [4, 5, 6] (\<lambda>k. [7, 7, 7, 7]) demo_shards (\<lambda>a. 7)"
    by (auto simp: replies_arrived_def demo_shards_def AllShards_new_def keys_of_def s mem_bytes_def less_2_cases_iff numeral_eq_Suc)
  moreover have "\<exists>rqs rpc_id st' p'. AllShards_GetParameter ?city demo_po 4 (\<lambda>_ _ _. 0) True 0 [4, 5, 6] 5000 demo_shards demo_process = Returns (rqs, rpc_id, st', p') \<and>
    list_all2 (\<lambda>i rq. rq_node rq = cl_shard (clients demo_shards ! i) \<and>
      get_string (rq_msg rq) = Returns (concat (map (le_bytes 8) (filter (\<lambda>k. server_of ?city demo_po k = i) [4, 5, 6])))) [0..<num_shards demo_shards] rqs \<and>
    (\<forall>mem. replies_arrived ?city demo_po 4 0 [4, 5, 6] (\<lambda>k. [7, 7, 7, 7]) demo_shards mem \<longrightarrow>
       AllShards_QueryRPCFinished True ?city demo_po 4 rpc_id st' (p'\<lparr>memory := mem\<rparr>) =
         Returns (True, p'\<lparr>memory := memcpy 5000 (concat (map (\<lambda>k. [7, 7, 7, 7]) [4 :: u64, 5, 6])) mem\<rparr>) \<and>
       AllShards_QueryRPCFinished False ?city demo_po 4 rpc_id st' (p'\<lparr>memory := mem\<rparr>) = Returns (True, p'\<lparr>memory := mem\<rparr>))"
    by (rule AllShards_in_order [OF c]) (simp_all add: le_word_def FINISH_MAGIC_def)
  ultimately show ?thesis by blast
qed

end
