(* ===== verification/Ps_Load.thy ===== *)
theory Ps_Load
  imports Ps_Shards Base_Float "HOL-Library.Multiset"
begin

text \<open>
  Filling the store of a server before it serves requests (\<open>src/src/ps/load_db.h\<close>: \<open>LoadDBHelper\<close>):
  \<open>PreLoadDB\<close> stores for every key of this server an embedding whose elements are the key, on several
  threads, and \<open>CheckDBLoad\<close> reads the embeddings back. The engine is given by its operations; a
  \<open>Put\<close> is one step, and the order of the steps of different threads is a parameter. The value size is not
  negative. Log messages about the progress are left out.
\<close>

section \<open>The helper\<close>

record LoadDBHelper =
  ld_server_id :: int
  ld_warm_thread_count :: int
  ld_warmup_kv_count :: u64
  ld_warm_capacity :: int

text \<open>The argument \<open>server_id\<close> is not used; the counter is not initialised and starts with \<open>junk\<close>.\<close>

definition LoadDBHelper_new :: "XPostoffice \<Rightarrow> int \<Rightarrow> int \<Rightarrow> u64 \<Rightarrow> LoadDBHelper run" where
  "LoadDBHelper_new po warm_thread_count all_ps_warm_capacity junk =
     run_bind (run_check (IsServer po) ''only server construct this class'') (\<lambda>_.
       case server_id po of
         None \<Rightarrow> Aborts (Undefined ''server_id_ not initialised'')
       | Some s \<Rightarrow> Returns \<lparr>ld_server_id = s, ld_warm_thread_count = warm_thread_count, ld_warmup_kv_count = junk,
           ld_warm_capacity = all_ps_warm_capacity\<rparr>)"

section \<open>Ranges of keys\<close>

definition int64_add :: "int \<Rightarrow> int \<Rightarrow> int run" where
  "int64_add a b = (if - (2 ^ 63) \<le> a + b \<and> a + b < 2 ^ 63 then Returns (a + b) else Aborts (Undefined ''signed overflow''))"

text \<open>The number of keys per thread, and the key behind the last one.\<close>

definition key_range :: "int \<Rightarrow> int \<Rightarrow> (u64 \<times> u64) run" where
  "key_range cap n =
     run_bind (int64_add cap n) (\<lambda>s.
     run_bind (int64_add s (- 1)) (\<lambda>s.
       if n = 0 \<or> n = - 1 \<and> s = - (2 ^ 63) then Aborts (Undefined ''division'')
       else run_bind (int64_add cap 1) (\<lambda>e. Returns (of_int (s sdiv n), of_int e))))"

text \<open>First key of a thread and the bound of its loop.\<close>

definition thread_start :: "u64 \<Rightarrow> nat \<Rightarrow> u64" where
  "thread_start per i = 1 + of_nat i * per"

definition thread_bound :: "u64 \<Rightarrow> u64 \<Rightarrow> nat \<Rightarrow> u64" where
  "thread_bound per e i = min e (1 + of_nat (i + 1) * per)"

text \<open>
  The keys of this server met by a loop of an \<open>int64_t\<close> \<open>j\<close> up to an unsigned bound; the comparison converts
  \<open>j\<close> to \<open>uint64_t\<close>.
\<close>

function own_keys :: "(u64 \<Rightarrow> int run) \<Rightarrow> int \<Rightarrow> u64 \<Rightarrow> int \<Rightarrow> u64 list run" where
  "own_keys part sid bound j =
     (if \<not> (of_int j :: u64) < bound then Returns []
      else run_bind (part (of_int j)) (\<lambda>s.
        if 2 ^ 63 - 1 \<le> j then Aborts (Undefined ''signed overflow'')
        else run_bind (own_keys part sid bound (j + 1)) (\<lambda>ks. Returns (if s = sid then of_int j # ks else ks))))"
  by pat_completeness auto
termination by (relation "measure (\<lambda>(part, sid, bound, j). nat (2 ^ 63 - j))") auto

declare own_keys.simps [simp del]

section \<open>Loading\<close>

text \<open>
  The pool of a thread has 32 KB, filled with \<open>'e'\<close>; the elements of the embedding are the key as a \<open>float\<close>, and
  bytes behind the last element keep their \<open>'e'\<close>.
\<close>

definition warm_value :: "nat \<Rightarrow> u64 \<Rightarrow> u8 list run" where
  "warm_value value_size key =
     (if 32 * 1024 < value_size then Aborts (Undefined ''write behind the pool'')
      else Returns (concat (replicate (value_size div 4) (le_bytes 4 (f32_of_u64 key))) @ replicate (value_size mod 4) 101))"

definition warm_puts :: "nat \<Rightarrow> u64 list \<Rightarrow> (u64 \<times> u8 list) list run" where
  "warm_puts value_size ks = batch_loop (\<lambda>k. run_bind (warm_value value_size k) (\<lambda>v. Returns (k, v))) ks"

text \<open>What one thread puts into the store, in its order.\<close>

definition load_thread :: "(u64 \<Rightarrow> int run) \<Rightarrow> int \<Rightarrow> nat \<Rightarrow> u64 \<Rightarrow> u64 \<Rightarrow> nat \<Rightarrow> (u64 \<times> u8 list) list run" where
  "load_thread part sid value_size per e i =
     run_bind (own_keys part sid (thread_bound per e i) (sint (thread_start per i))) (warm_puts value_size)"

text \<open>The steps of the threads are taken in the order of a schedule (\<open>interleave\<close> of \<open>Pet_Recovery\<close>).\<close>

definition PreLoadDB ::
  "(u64 \<Rightarrow> int run) \<Rightarrow> nat \<Rightarrow> (u64 \<Rightarrow> u8 list \<Rightarrow> 'e \<Rightarrow> 'e run) \<Rightarrow> nat list \<Rightarrow> bool \<Rightarrow> LoadDBHelper \<Rightarrow> 'e \<Rightarrow> (LoadDBHelper \<times> 'e) run" where
  "PreLoadDB part value_size put sched shuffle_load h e =
     (let n = ld_warm_thread_count h; sid = ld_server_id h in
      run_bind (key_range (ld_warm_capacity h) n) (\<lambda>(per, stop).
      run_bind (own_keys part sid stop 1) (\<lambda>mine.
        let h = h\<lparr>ld_warmup_kv_count := of_nat (length mine)\<rparr> in
        if \<not> shuffle_load then
          (if n < 0 then Aborts (Uncaught ''length_error'')
           else run_bind (batch_loop (load_thread part sid value_size per stop) [0..<nat n]) (\<lambda>qs.
             run_bind (puts_run put (interleave sched qs) e) (\<lambda>e. Returns (h, e))))
        else run_bind (run_check (n = 1) ''1 == warm_thread_count_'') (\<lambda>_.
             run_bind (own_keys part sid stop 1) (\<lambda>to_insert_keys.
             run_bind (warm_puts value_size to_insert_keys) (\<lambda>kvs.
             run_bind (puts_run put kvs e) (\<lambda>e. Returns (h, e))))))))"

section \<open>Checking\<close>

text \<open>Whether every element is the key, up to \<open>1e-6\<close>.\<close>

definition value_right :: "nat \<Rightarrow> u64 \<Rightarrow> u8 list \<Rightarrow> bool run" where
  "value_right value_size key v =
     (if length v < 4 * (value_size div 4) then Aborts (Undefined ''read behind the value'')
      else Returns (list_all (\<lambda>k. abs_less_tolerance (emb_diff (le_word (take 4 (drop (4 * k) v))) key)) [0..<value_size div 4]))"

text \<open>What one key adds to the counters \<open>right\<close> and \<open>missing\<close>.\<close>

definition check_key :: "(u64 \<Rightarrow> int run) \<Rightarrow> int \<Rightarrow> nat \<Rightarrow> (u64 \<Rightarrow> 'e \<Rightarrow> u8 list run) \<Rightarrow> 'e \<Rightarrow> u64 \<Rightarrow> (nat \<times> nat) run" where
  "check_key part sid value_size get e key =
     run_bind (part key) (\<lambda>s.
       if s \<noteq> sid then Returns (0, 0)
       else run_bind (get key e) (\<lambda>v.
         if v = [] then Returns (0, 1)
         else run_bind (value_right value_size key v) (\<lambda>subright. Returns (of_bool subright, 0))))"

text \<open>The loop of a thread; \<open>j\<close> is an \<open>int\<close>, which the comparison extends to \<open>uint64_t\<close>.\<close>

function check_loop ::
  "(u64 \<Rightarrow> int run) \<Rightarrow> int \<Rightarrow> nat \<Rightarrow> (u64 \<Rightarrow> 'e \<Rightarrow> u8 list run) \<Rightarrow> 'e \<Rightarrow> u64 \<Rightarrow> int \<Rightarrow> (nat \<times> nat) run" where
  "check_loop part sid value_size get e bound j =
     (if \<not> (of_int j :: u64) < bound then Returns (0, 0)
      else run_bind (check_key part sid value_size get e (of_int j)) (\<lambda>(r, m).
        if 2 ^ 31 - 1 \<le> j then Aborts (Undefined ''signed overflow'')
        else run_bind (check_loop part sid value_size get e bound (j + 1)) (\<lambda>(rs, ms). Returns (r + rs, m + ms))))"
  by pat_completeness auto
termination by (relation "measure (\<lambda>(part, sid, vs, get, e, bound, j). nat (2 ^ 31 - j))") auto

declare check_loop.simps [simp del]

definition check_thread ::
  "(u64 \<Rightarrow> int run) \<Rightarrow> int \<Rightarrow> nat \<Rightarrow> (u64 \<Rightarrow> 'e \<Rightarrow> u8 list run) \<Rightarrow> 'e \<Rightarrow> u64 \<Rightarrow> u64 \<Rightarrow> nat \<Rightarrow> (nat \<times> nat) run" where
  "check_thread part sid value_size get e per stop i =
     check_loop part sid value_size get e (thread_bound per stop i) (sint (ucast (thread_start per i) :: 32 word))"

text \<open>The messages at the end; the percentage is computed only when some are missing.\<close>

datatype load_report = AllInserted | OnlyInserted u64 u64 u64 u64

definition CheckDBLoad ::
  "(u64 \<Rightarrow> int run) \<Rightarrow> nat \<Rightarrow> (u64 \<Rightarrow> 'e \<Rightarrow> u8 list run) \<Rightarrow> LoadDBHelper \<Rightarrow> 'e \<Rightarrow> load_report run" where
  "CheckDBLoad part value_size get h e =
     run_bind (key_range (ld_warm_capacity h) 36) (\<lambda>(per, stop).
     run_bind (batch_loop (check_thread part (ld_server_id h) value_size get e per stop) [0..<36]) (\<lambda>counts.
       let inserted = of_nat (sum_list (map fst counts)); missing = of_nat (sum_list (map snd counts)); total = ld_warmup_kv_count h in
       if inserted = total then Returns AllInserted
       else if total = 0 then Aborts (Undefined ''division by zero'')
       else Returns (OnlyInserted inserted total (inserted * 100 div total) missing)))"

section \<open>Loading in the server\<close>

text \<open>
  What \<open>main\<close> of the server does with the helper (\<open>petps_server.cc\<close>): the reports it prints, whether it
  ends before serving, and the engine. The warm capacity is given; the code computes it in \<open>double\<close>.
\<close>

definition server_preload ::
  "(u64 \<Rightarrow> int run) \<Rightarrow> nat \<Rightarrow> (u64 \<Rightarrow> u8 list \<Rightarrow> 'e \<Rightarrow> 'e run) \<Rightarrow> (u64 \<Rightarrow> 'e \<Rightarrow> u8 list run) \<Rightarrow> nat list \<Rightarrow> XPostoffice \<Rightarrow> int \<Rightarrow> int \<Rightarrow> u64 \<Rightarrow>
   bool \<Rightarrow> bool \<Rightarrow> bool \<Rightarrow> 'e \<Rightarrow> (load_report list \<times> bool \<times> 'e) run" where
  "server_preload part value_size put get sched po warmup_thread_num warm_capacity junk preload exit_flag check_all_inserted e =
     run_bind (if IsServer po then run_bind (LoadDBHelper_new po warmup_thread_num warm_capacity junk) (\<lambda>h. Returns (Some h)) else Returns None) (\<lambda>helper.
     run_bind (if \<not> preload then Returns (helper, [], e)
               else case helper of
                 None \<Rightarrow> Aborts (CheckFailed ''preload is only supported for servers'')
               | Some h \<Rightarrow> run_bind (PreLoadDB part value_size put sched False h e) (\<lambda>(h, e).
                   run_bind (CheckDBLoad part value_size get h e) (\<lambda>r. Returns (Some h, [r], e)))) (\<lambda>(helper, rs, e).
       if preload \<and> exit_flag then Returns (rs, True, e)
       else if \<not> check_all_inserted then Returns (rs, False, e)
       else case helper of
         None \<Rightarrow> Aborts (CheckFailed ''check_all_inserted is only supported for servers'')
       | Some h \<Rightarrow> run_bind (CheckDBLoad part value_size get h e) (\<lambda>r. Returns (rs @ [r], True, e))))"

section \<open>Loops over keys\<close>

lemma batch_loop_Returns: "(\<And>x. x \<in> set xs \<Longrightarrow> g x = Returns (h x)) \<Longrightarrow> batch_loop g xs = Returns (map h xs)"
  by (induction xs) simp_all

lemma unat_of_int_u64: "0 \<le> j \<Longrightarrow> j < 2 ^ 64 \<Longrightarrow> unat (of_int j :: u64) = nat j"
  by (simp add: unsigned_of_int take_bit_int_eq_self)

lemma of_int_less_u64:
  fixes bound :: u64
  assumes "0 \<le> j" "j < 2 ^ 63"
  shows "(of_int j :: u64) < bound \<longleftrightarrow> nat j < unat bound"
  using unat_of_int_u64 [of j] assms by (simp add: word_less_nat_alt)

lemma own_keys_eq:
  assumes part: "\<And>k. part k = Returns (f k)" and b: "unat bound < 2 ^ 63"
  shows "0 \<le> j \<Longrightarrow> j < 2 ^ 63 \<Longrightarrow> own_keys part sid bound j = Returns (filter (\<lambda>k. f k = sid) (map of_nat [nat j..<unat bound]))"
proof (induction "nat (2 ^ 63 - j)" arbitrary: j rule: less_induct)
  case less
  note l = of_int_less_u64 [OF less.prems, of bound]
  show ?case
  proof (cases "nat j < unat bound")
    case True
    then have "nat j < 9223372036854775807" using b by simp
    then have j: "\<not> 2 ^ 63 - 1 \<le> j" by simp
    then have "own_keys part sid bound (j + 1) = Returns (filter (\<lambda>k. f k = sid) (map of_nat [nat (j + 1)..<unat bound]))"
      using less.prems by (intro less.hyps) auto
    moreover have "[nat j..<unat bound] = nat j # [nat (j + 1)..<unat bound]"
      using True less.prems(1) by (simp add: upt_conv_Cons nat_add_distrib)
    moreover have "(of_nat (nat j) :: u64) = of_int j" using less.prems(1) by simp
    ultimately show ?thesis using l True j part by (subst own_keys.simps) simp
  next
    case False
    then show ?thesis using l by (subst own_keys.simps) simp
  qed
qed

lemma check_loop_eq:
  assumes b: "unat bound < 2 ^ 31"
  shows "0 \<le> j \<Longrightarrow> j < 2 ^ 31 \<Longrightarrow> (\<And>k. nat j \<le> k \<Longrightarrow> k < unat bound \<Longrightarrow> check_key part sid vs get e (of_nat k) = Returns (g k)) \<Longrightarrow>
    check_loop part sid vs get e bound j = Returns (\<Sum>k \<leftarrow> [nat j..<unat bound]. fst (g k), \<Sum>k \<leftarrow> [nat j..<unat bound]. snd (g k))"
proof (induction "nat (2 ^ 31 - j)" arbitrary: j rule: less_induct)
  case less
  note l = of_int_less_u64 [of j bound]
  show ?case
  proof (cases "nat j < unat bound")
    case True
    then have "nat j < 2147483647" using b by simp
    then have j: "\<not> 2 ^ 31 - 1 \<le> j" by simp
    then have "check_loop part sid vs get e bound (j + 1) =
        Returns (\<Sum>k \<leftarrow> [nat (j + 1)..<unat bound]. fst (g k), \<Sum>k \<leftarrow> [nat (j + 1)..<unat bound]. snd (g k))"
      using less.prems by (intro less.hyps) auto
    moreover have "[nat j..<unat bound] = nat j # [nat (j + 1)..<unat bound]"
      using True less.prems(1) by (simp add: upt_conv_Cons nat_add_distrib)
    moreover have "check_key part sid vs get e (of_int j) = Returns (g (nat j))"
      using less.prems(3) [of "nat j"] True less.prems(1) by simp
    ultimately show ?thesis using l True j less.prems(1,2) by (subst check_loop.simps) (simp add: case_prod_unfold)
  next
    case False
    then show ?thesis using l less.prems(1,2) by (subst check_loop.simps) simp
  qed
qed

section \<open>The ranges of the threads\<close>

definition per_thread :: "nat \<Rightarrow> nat \<Rightarrow> nat" where
  "per_thread c n = (c + n - 1) div n"

lemma key_range_eq:
  assumes "0 < n" "c + n < 2 ^ 63"
  shows "key_range (int c) (int n) = Returns (of_nat (per_thread c n), of_nat (c + 1))"
proof -
  have "(int c + int n - 1) sdiv int n = int (per_thread c n)"
    using assms(1) by (simp add: signed_divide_int_def per_thread_def sgn_if zdiv_int of_nat_diff)
  then show ?thesis using assms by (simp add: key_range_def int64_add_def)
qed

lemma per_thread_bounds:
  assumes "0 < n"
  shows "c \<le> n * per_thread c n" and "n * per_thread c n \<le> c + n - 1"
proof -
  have d: "n * per_thread c n + (c + n - 1) mod n = c + n - 1" by (simp add: per_thread_def)
  moreover have "(c + n - 1) mod n \<le> n - 1" using mod_less_divisor [OF assms, of "c + n - 1"] by linarith
  ultimately show "c \<le> n * per_thread c n" "n * per_thread c n \<le> c + n - 1" using assms by linarith+
qed

lemma thread_range:
  assumes "c + n < 2 ^ 63" "i < n" and p: "per = of_nat (per_thread c n)"
  shows "unat (thread_start per i) = 1 + i * per_thread c n"
    and "unat (thread_bound per (of_nat (c + 1)) i) = min (c + 1) (1 + (i + 1) * per_thread c n)"
    and "1 + (i + 1) * per_thread c n \<le> c + n"
proof -
  let ?P = "per_thread c n"
  have "(i + 1) * ?P \<le> n * ?P" using assms(2) by (intro mult_le_mono1) simp
  then have le: "(i + 1) * ?P \<le> c + n - 1" using per_thread_bounds(2) [of n c] assms(2) by linarith
  then show le2: "1 + (i + 1) * ?P \<le> c + n" using assms(2) by linarith
  have "1 + i * ?P < 2 ^ 64" using le2 assms(1) by simp
  moreover have "thread_start per i = of_nat (1 + i * ?P)" by (simp add: thread_start_def p)
  ultimately show "unat (thread_start per i) = 1 + i * ?P" by (simp only: unat_nat_u64)
  have "1 + (i + 1) * ?P < 2 ^ 64" "c + 1 < 2 ^ 64" using le2 assms(1,2) by simp_all
  moreover have "(1 :: u64) + of_nat (i + 1) * per = of_nat (1 + (i + 1) * ?P)" by (simp add: p algebra_simps)
  ultimately show "unat (thread_bound per (of_nat (c + 1)) i) = min (c + 1) (1 + (i + 1) * ?P)"
    unfolding thread_bound_def by (simp only: min_def word_le_nat_alt unat_nat_u64 if_distrib [of unat])
qed

lemma upt_split: "i \<le> j \<Longrightarrow> j \<le> k \<Longrightarrow> [i..<j] @ [j..<k] = [i..<k]"
  by (metis le_add_diff_inverse upt_add_eq_append)

lemma ranges_concat:
  fixes E P n :: nat
  assumes "1 \<le> E"
  shows "concat (map (\<lambda>i. [1 + i * P..<min E (1 + (i + 1) * P)]) [0..<n]) = [1..<min E (1 + n * P)]"
proof (induction n)
  case (Suc n)
  show ?case
  proof (cases "1 + n * P \<le> E")
    case True
    then have "[1..<min E (1 + n * P)] @ [1 + n * P..<min E (1 + (n + 1) * P)] = [1..<min E (1 + (n + 1) * P)]"
      using upt_split [of 1 "1 + n * P" "min E (1 + (n + 1) * P)"] by (simp add: min_absorb2)
    then show ?thesis using Suc by simp
  next
    case False
    then show ?thesis using Suc by simp
  qed
qed (use assms in simp)

lemma ranges_all:
  assumes "0 < n"
  shows "concat (map (\<lambda>i. [1 + i * per_thread c n..<min (c + 1) (1 + (i + 1) * per_thread c n)]) [0..<n]) = [1..<c + 1]"
  using ranges_concat [of "c + 1" "per_thread c n" n] per_thread_bounds(1) [OF assms, of c] by simp

section \<open>What is loaded and what is counted\<close>

abbreviation warm_bytes :: "nat \<Rightarrow> u64 \<Rightarrow> u8 list" where
  "warm_bytes vs k \<equiv> concat (replicate (vs div 4) (le_bytes 4 (f32_of_u64 k))) @ replicate (vs mod 4) 101"

text \<open>The keys from 1 to \<open>c\<close> that belong to the server.\<close>

definition warm_keys :: "(u64 \<Rightarrow> int) \<Rightarrow> int \<Rightarrow> nat \<Rightarrow> u64 list" where
  "warm_keys f sid c = filter (\<lambda>k. f k = sid) (map of_nat [1..<c + 1])"

lemma length_warm_bytes [simp]: "length (warm_bytes vs k) = vs"
  by (simp add: length_concat sum_list_replicate)

lemma warm_puts_eq: "vs \<le> 32768 \<Longrightarrow> warm_puts vs ks = Returns (map (\<lambda>k. (k, warm_bytes vs k)) ks)"
  unfolding warm_puts_def by (rule batch_loop_Returns) (simp add: warm_value_def)

lemma slice_replicate: "i < m \<Longrightarrow> length x = n \<Longrightarrow> take n (drop (n * i) (concat (replicate m x) @ ys)) = x"
proof (induction i arbitrary: m)
  case 0
  then show ?case by (cases m) simp_all
next
  case (Suc i)
  then obtain m' where "m = Suc m'" by (cases m) simp_all
  then show ?case using Suc by (simp add: add.commute flip: drop_drop)
qed

lemma value_right_warm: "value_right vs k (warm_bytes vs k) = Returns True"
proof -
  have "le_word (take 4 (drop (4 * i) (warm_bytes vs k))) = f32_of_u64 k" if "i < vs div 4" for i
    unfolding slice_replicate [OF that length_le_bytes] by (simp add: le_word_bytes)
  then have "abs_less_tolerance (emb_diff (le_word (take 4 (drop (4 * i) (warm_bytes vs k)))) k)" if "i < vs div 4" for i
    using that by (simp only: emb_diff_self abs_less_tolerance.simps) (simp add: tolerance_def)
  then show ?thesis unfolding value_right_def length_warm_bytes by (auto simp: list_all_iff)
qed

lemma PreLoadDB_puts:
  assumes part: "\<And>k. part k = Returns (f k)" and h: "ld_warm_thread_count h = int n" "ld_warm_capacity h = int c"
    and n: "0 < n" "c + n < 2 ^ 63" "shuffle \<longrightarrow> n = 1" and vs: "vs \<le> 32768"
  shows "\<exists>kvs. mset kvs = mset (map (\<lambda>k. (k, warm_bytes vs k)) (warm_keys f (ld_server_id h) c)) \<and>
    PreLoadDB part vs put sched shuffle h e = run_bind (puts_run put kvs e)
      (\<lambda>e. Returns (h\<lparr>ld_warmup_kv_count := of_nat (length (warm_keys f (ld_server_id h) c))\<rparr>, e))"
proof -
  let ?sid = "ld_server_id h" and ?per = "of_nat (per_thread c n) :: u64" and ?kv = "\<lambda>k. (k, warm_bytes vs k)"
  let ?own = "\<lambda>ks. filter (\<lambda>k. f k = ?sid) (map of_nat ks) :: u64 list"
  have k: "key_range (int c) (int n) = Returns (?per, of_nat (c + 1))" using key_range_eq n(1,2) by blast
  have "unat (of_nat (c + 1) :: u64) = c + 1" using n(1,2) by (intro unat_nat_u64) simp
  then have o: "own_keys part ?sid (of_nat (c + 1)) 1 = Returns (warm_keys f ?sid c)"
    using own_keys_eq [of part f "of_nat (c + 1)" 1 ?sid] part n(1,2) by (simp add: warm_keys_def del: of_nat_add upt_Suc)
  show ?thesis
  proof (cases shuffle)
    case True
    then show ?thesis
      by (intro exI [of _ "map ?kv (warm_keys f ?sid c)"]) (use n h k o vs in \<open>simp add: PreLoadDB_def warm_puts_eq Let_def\<close>)
  next
    case False
    let ?r = "\<lambda>i. [1 + i * per_thread c n..<min (c + 1) (1 + (i + 1) * per_thread c n)]"
    have t: "load_thread part ?sid vs ?per (of_nat (c + 1)) i = Returns (map ?kv (?own (?r i)))" if "i \<in> set [0..<n]" for i
    proof -
      note T = thread_range [OF n(2), of i ?per] 
      have i: "i < n" using that by simp
      have "unat (thread_bound ?per (of_nat (c + 1)) i) < 2 ^ 63" using T(2) [OF i refl] n(1,2) by simp
      moreover have "sint (thread_start ?per i) = int (1 + i * per_thread c n)"
        using T(1,3) [OF i refl] n(2) by (subst sint_unat) simp_all
      moreover have "1 + i * per_thread c n < 2 ^ 63" using T(3) [OF i refl] n(2) by simp
      then have "int (1 + i * per_thread c n) < 2 ^ 63" by (metis of_nat_less_iff of_nat_numeral of_nat_power)
      ultimately have "own_keys part ?sid (thread_bound ?per (of_nat (c + 1)) i) (sint (thread_start ?per i)) = Returns (?own (?r i))"
        using own_keys_eq [where part = part and f = f, OF part, where bound = "thread_bound ?per (of_nat (c + 1)) i" and j = "int (1 + i * per_thread c n)" and sid = ?sid] T(2) [OF i refl]
        by (simp only: nat_int of_nat_0_le_iff)
      then show ?thesis using warm_puts_eq [OF vs] by (simp add: load_thread_def)
    qed
    let ?qs = "map (\<lambda>i. map ?kv (?own (?r i))) [0..<n]"
    have "concat ?qs = map ?kv (?own (concat (map ?r [0..<n])))" by (simp add: map_concat filter_concat comp_def)
    then have "concat ?qs = map ?kv (warm_keys f ?sid c)" unfolding ranges_all [OF n(1)] warm_keys_def .
    moreover have "batch_loop (load_thread part ?sid vs ?per (of_nat (c + 1))) [0..<n] = Returns ?qs"
      by (rule batch_loop_Returns) (rule t)
    ultimately obtain qs where q: "batch_loop (load_thread part ?sid vs ?per (of_nat (c + 1))) [0..<n] = Returns qs"
      "mset (concat qs) = mset (map ?kv (warm_keys f ?sid c))" by auto
    have "PreLoadDB part vs put sched shuffle h e = run_bind (puts_run put (interleave sched qs) e)
        (\<lambda>e. Returns (h\<lparr>ld_warmup_kv_count := of_nat (length (warm_keys f ?sid c))\<rparr>, e))"
      unfolding PreLoadDB_def h k run_bind.simps Let_def prod.case o using False q(1) by simp
    moreover have "mset (interleave sched qs) = mset (map ?kv (warm_keys f ?sid c))" unfolding mset_interleave by (rule q(2))
    ultimately show ?thesis by blast
  qed
qed

lemma sum_list_ranges: "(\<Sum>i \<leftarrow> ts. \<Sum>k \<leftarrow> r i. g k) = (\<Sum>k \<leftarrow> concat (map r ts). g k :: nat)"
  by (induction ts) simp_all

lemma ucast_of_nat_u64: "ucast (of_nat n :: u64) = (of_nat n :: 32 word)"
  by (simp add: unsigned_of_nat word_of_nat_eq_iff take_bit_take_bit)

lemma CheckDBLoad_counts:
  assumes h: "ld_warm_capacity h = int c" and c: "c + 36 < 2 ^ 31"
    and g: "\<And>k. 1 \<le> k \<Longrightarrow> k \<le> c \<Longrightarrow> check_key part (ld_server_id h) vs get e (of_nat k) = Returns (g k)"
  shows "CheckDBLoad part vs get h e =
    (let inserted = of_nat (\<Sum>k \<leftarrow> [1..<c + 1]. fst (g k)); missing = of_nat (\<Sum>k \<leftarrow> [1..<c + 1]. snd (g k)); total = ld_warmup_kv_count h in
     if inserted = total then Returns AllInserted
     else if total = 0 then Aborts (Undefined ''division by zero'')
     else Returns (OnlyInserted inserted total (inserted * 100 div total) missing))"
proof -
  define n :: nat where "n = 36"
  let ?per = "of_nat (per_thread c n) :: u64" and ?r = "\<lambda>i. [1 + i * per_thread c n..<min (c + 1) (1 + (i + 1) * per_thread c n)]"
  have n: "0 < n" "c + n < 2 ^ 63" "c + n < 2 ^ 31" using c by (simp_all add: n_def)
  have t: "check_thread part (ld_server_id h) vs get e ?per (of_nat (c + 1)) i = Returns (\<Sum>k \<leftarrow> ?r i. fst (g k), \<Sum>k \<leftarrow> ?r i. snd (g k))"
    if "i \<in> set [0..<n]" for i
  proof -
    note T = thread_range [OF n(2), of i ?per]
    have i: "i < n" using that by simp
    have s: "1 + i * per_thread c n < 2 ^ 31" using T(3) [OF i refl] n(3) by simp
    have b: "unat (thread_bound ?per (of_nat (c + 1)) i) < 2 ^ 31" using T(2) [OF i refl] c by simp
    have "thread_start ?per i = of_nat (1 + i * per_thread c n)" by (simp add: thread_start_def)
    then have "ucast (thread_start ?per i) = (of_nat (1 + i * per_thread c n) :: 32 word)" by (simp only:) (rule ucast_of_nat_u64)
    moreover have "sint (of_nat (1 + i * per_thread c n) :: 32 word) = int (1 + i * per_thread c n)" by (rule sint_nat) (use s in simp)
    ultimately have st: "sint (ucast (thread_start ?per i) :: 32 word) = int (1 + i * per_thread c n)" by (simp only:)
    have "check_loop part (ld_server_id h) vs get e (thread_bound ?per (of_nat (c + 1)) i) (int (1 + i * per_thread c n)) =
        Returns (\<Sum>k \<leftarrow> [nat (int (1 + i * per_thread c n))..<unat (thread_bound ?per (of_nat (c + 1)) i)]. fst (g k),
          \<Sum>k \<leftarrow> [nat (int (1 + i * per_thread c n))..<unat (thread_bound ?per (of_nat (c + 1)) i)]. snd (g k))"
    proof (rule check_loop_eq [OF b])
      show "0 \<le> int (1 + i * per_thread c n)" by simp
      show "int (1 + i * per_thread c n) < 2 ^ 31" using s by (metis of_nat_less_iff of_nat_numeral of_nat_power)
      fix k assume "nat (int (1 + i * per_thread c n)) \<le> k" "k < unat (thread_bound ?per (of_nat (c + 1)) i)"
      then have "1 + i * per_thread c n \<le> k" "k < min (c + 1) (1 + (i + 1) * per_thread c n)" unfolding T(2) [OF i refl] nat_int by (simp_all only:)
      then show "check_key part (ld_server_id h) vs get e (of_nat k) = Returns (g k)" by (intro g) simp_all
    qed
    then show ?thesis unfolding check_thread_def st T(2) [OF i refl] nat_int .
  qed
  have k: "key_range (int c) 36 = Returns (?per, of_nat (c + 1))" using key_range_eq [OF n(1,2)] by (simp add: n_def)
  have "batch_loop (check_thread part (ld_server_id h) vs get e ?per (of_nat (c + 1))) [0..<n] =
      Returns (map (\<lambda>i. (\<Sum>k \<leftarrow> ?r i. fst (g k), \<Sum>k \<leftarrow> ?r i. snd (g k))) [0..<n])"
    by (rule batch_loop_Returns) (rule t)
  then obtain counts where b: "batch_loop (check_thread part (ld_server_id h) vs get e ?per (of_nat (c + 1))) [0..<36] = Returns counts"
    and f: "map fst counts = map (\<lambda>i. \<Sum>k \<leftarrow> ?r i. fst (g k)) [0..<n]" "map snd counts = map (\<lambda>i. \<Sum>k \<leftarrow> ?r i. snd (g k)) [0..<n]"
    unfolding n_def by (simp only: map_map comp_def fst_conv snd_conv run.inject)
  note S = sum_list_ranges [where r = ?r and ts = "[0..<n]", unfolded ranges_all [OF n(1)]]
  show ?thesis unfolding CheckDBLoad_def h k run_bind.simps prod.case b f S ..
qed

section \<open>Engines that keep what is loaded\<close>

lemma distinct_warm_keys: "c < 2 ^ 64 \<Longrightarrow> distinct (warm_keys f sid c)"
  unfolding warm_keys_def
  by (intro distinct_filter) (auto simp: distinct_map inj_on_def word_of_nat_eq_iff take_bit_nat_eq_self simp del: upt_Suc)

lemma length_warm_keys: "length (warm_keys f sid c) = (\<Sum>k \<leftarrow> [1..<c + 1]. of_bool (f (of_nat k) = sid))"
proof -
  have "length (filter P (map g ks)) = (\<Sum>k \<leftarrow> ks. of_bool (P (g k)))" for P :: "u64 \<Rightarrow> bool" and g and ks :: "nat list"
    by (induction ks) simp_all
  then show ?thesis unfolding warm_keys_def .
qed

text \<open>
  What loading relies on: an engine with the bindings \<open>kvs\<close> takes a new key while it has room, and gives
  back the value of every key.
\<close>

locale warm_engine =
  fixes holds :: "(u64 \<times> u8 list) list \<Rightarrow> 'e \<Rightarrow> bool" and room :: nat and vsize :: nat
    and put :: "u64 \<Rightarrow> u8 list \<Rightarrow> 'e \<Rightarrow> 'e run" and get :: "u64 \<Rightarrow> 'e \<Rightarrow> u8 list run"
  assumes put_new: "holds kvs e \<Longrightarrow> length kvs < room \<Longrightarrow> k \<notin> fst ` set kvs \<Longrightarrow> length v = vsize \<Longrightarrow>
      \<exists>e'. put k v e = Returns e' \<and> holds (kvs @ [(k, v)]) e'"
    and get_stored: "holds kvs e \<Longrightarrow> length kvs \<le> room \<Longrightarrow> (k, v) \<in> set kvs \<Longrightarrow> get k e = Returns v"
begin

lemma puts_kept:
  assumes "holds [] e" "length kvs \<le> room" "distinct (map fst kvs)" "\<forall>(k, v) \<in> set kvs. length v = vsize"
  shows "\<exists>e'. puts_run put kvs e = Returns e' \<and> holds kvs e'"
  using assms(2-)
proof (induction kvs rule: rev_induct)
  case Nil
  then show ?case using assms(1) by simp
next
  case (snoc kv kvs)
  obtain k v where kv: "kv = (k, v)" by (cases kv)
  obtain e1 where e1: "puts_run put kvs e = Returns e1" "holds kvs e1" using snoc by auto
  obtain e' where "put k v e1 = Returns e'" "holds (kvs @ [(k, v)]) e'"
    using put_new [OF e1(2), of k v] snoc.prems kv by auto
  then show ?case using e1(1) kv by (auto simp: puts_run_append)
qed

lemma load_then_check:
  assumes part: "\<And>k. part k = Returns (f k)" and h: "ld_warm_thread_count h = int n" "ld_warm_capacity h = int c"
    and n: "0 < n" "c + n < 2 ^ 63" "shuffle \<longrightarrow> n = 1" "c + 36 < 2 ^ 31" and vs: "0 < vsize" "vsize \<le> 32768"
    and e: "holds [] e" "length (warm_keys f (ld_server_id h) c) \<le> room"
  shows "\<exists>h' e'. PreLoadDB part vsize put sched shuffle h e = Returns (h', e') \<and> CheckDBLoad part vsize get h' e' = Returns AllInserted \<and>
    ld_warmup_kv_count h' = of_nat (length (warm_keys f (ld_server_id h) c)) \<and>
    (\<forall>k \<in> set (warm_keys f (ld_server_id h) c). get k e' = Returns (warm_bytes vsize k))"
proof -
  let ?ks = "warm_keys f (ld_server_id h) c" and ?kv = "\<lambda>k. (k, warm_bytes vsize k)"
  let ?h = "h\<lparr>ld_warmup_kv_count := of_nat (length ?ks)\<rparr>"
  obtain kvs where kvs: "mset kvs = mset (map ?kv ?ks)"
    "PreLoadDB part vsize put sched shuffle h e = run_bind (puts_run put kvs e) (\<lambda>e. Returns (?h, e))"
    using PreLoadDB_puts [where f = f and put = put and sched = sched and e = e, OF part h n(1,2,3) vs(2)] by (elim exE conjE) (rule that)
  have "mset (map fst kvs) = mset (map fst (map ?kv ?ks))" using arg_cong [OF kvs(1), of "image_mset fst"] by (simp only: mset_map)
  then have "distinct (map fst kvs)"
    using mset_eq_imp_distinct_iff [of "map fst kvs" "map fst (map ?kv ?ks)"] distinct_warm_keys [of c f "ld_server_id h"] n(4)
    by (simp add: comp_def)
  moreover have s: "set kvs = ?kv ` set ?ks" using arg_cong [OF kvs(1), of set_mset] by simp
  moreover have l: "length kvs = length ?ks" using arg_cong [OF kvs(1), of size] by simp
  ultimately obtain e' where e': "puts_run put kvs e = Returns e'" "holds kvs e'"
    using puts_kept [OF e(1), of kvs] e(2) length_warm_bytes by auto
  have got: "get k e' = Returns (warm_bytes vsize k)" if "k \<in> set ?ks" for k
    using get_stored [OF e'(2), of k "warm_bytes vsize k"] that s l e(2) by auto
  have ck: "check_key part (ld_server_id ?h) vsize get e' (of_nat k) = Returns (of_bool (f (of_nat k) = ld_server_id h), 0)"
    if "1 \<le> k" "k \<le> c" for k
  proof (cases "f (of_nat k) = ld_server_id h")
    case True
    then have "of_nat k \<in> set ?ks" using that by (auto simp: warm_keys_def simp del: upt_Suc)
    moreover have "warm_bytes vsize (of_nat k) \<noteq> []" using vs(1) length_warm_bytes [of vsize "of_nat k"] by (metis length_0_conv less_numeral_extra(3))
    ultimately show ?thesis using True got part value_right_warm [of vsize "of_nat k"] by (simp add: check_key_def)
  qed (simp add: check_key_def part)
  have cap: "ld_warm_capacity ?h = int c" using h(2) by simp
  have "CheckDBLoad part vsize get ?h e' = Returns AllInserted"
    using CheckDBLoad_counts [where g = "\<lambda>k. (of_bool (f (of_nat k) = ld_server_id h), 0)", OF cap n(4) ck]
      length_warm_keys [of f "ld_server_id h" c] by (simp del: upt_Suc)
  then show ?thesis using kvs(2) e'(1) got by (intro exI [of _ ?h] exI [of _ e']) simp
qed

end

text \<open>The engines over one map, and the one over 32 maps, are such engines.\<close>

definition map_holds :: "nat \<Rightarrow> PetKVConfig \<Rightarrow> nat \<Rightarrow> nat \<Rightarrow> (u64 \<times> u8 list) list \<Rightarrow> umap engine \<Rightarrow> bool" where
  "map_holds b cfg m vs kvs e \<longleftrightarrow> PetKVConfig_new b = Returns cfg \<and> 8 dvd vs \<and> vs < 2 ^ 31 \<and> m < 8 * (2 ^ b - 1) \<and> engine_holds cfg m vs kvs e"

lemma map_holds_put:
  "map_holds b cfg m vs kvs e \<Longrightarrow> length kvs < simple_slots m vs \<Longrightarrow> k \<notin> fst ` set kvs \<Longrightarrow> length v = vs \<Longrightarrow>
     \<exists>e'. KVEngineMap_Put cfg k v e = Returns e' \<and> map_holds b cfg m vs (kvs @ [(k, v)]) e'"
  unfolding map_holds_def using Put_step by blast

lemma map_holds_get:
  assumes "map_holds b cfg m vs kvs e" "length kvs \<le> simple_slots m vs" "(k, v) \<in> set kvs"
  shows "KVEngineMap_Get cfg k e = Returns v"
proof -
  obtain j where "j < length kvs" "kvs ! j = (k, v)" using assms(3) by (metis in_set_conv_nth)
  then show ?thesis using assms(1,2) holds_Get [of b cfg m vs kvs e j] by (simp add: map_holds_def)
qed

interpretation map_load: warm_engine "map_holds b cfg m vs" "simple_slots m vs" vs "KVEngineMap_Put cfg" "KVEngineMap_Get cfg" for b cfg m vs
  by unfold_locales (rule map_holds_put map_holds_get; assumption)+

interpretation mappm_load: warm_engine "map_holds b cfg m vs" "simple_slots m vs" vs "KVEngineMapPM_Put cfg" "KVEngineMapPM_Get cfg" for b cfg m vs
proof -
  have "KVEngineMapPM_Put cfg = KVEngineMap_Put cfg" "KVEngineMapPM_Get cfg = KVEngineMap_Get cfg"
    by (simp_all add: fun_eq_iff KVEngineMapPM_Put_def KVEngineMap_Put_def KVEngineMapPM_Get_def KVEngineMap_Get_def case_prod_unfold Let_def)
  then show "warm_engine (map_holds b cfg m vs) (simple_slots m vs) vs (KVEngineMapPM_Put cfg) (KVEngineMapPM_Get cfg)"
    using map_load.warm_engine_axioms by simp
qed

definition multi_holds :: "(u8 list \<Rightarrow> u64) \<Rightarrow> nat \<Rightarrow> PetKVConfig \<Rightarrow> nat \<Rightarrow> nat \<Rightarrow> (u64 \<times> u8 list) list \<Rightarrow> umap list engine \<Rightarrow> bool" where
  "multi_holds city b cfg m vs kvs e \<longleftrightarrow> (\<exists>e2. same_store city e e2 \<and> map_holds b cfg m vs kvs e2)"

interpretation multi_load: warm_engine "multi_holds city b cfg m vs" "simple_slots m vs" vs "KVEngineMultiMapPM_Put cfg city" "KVEngineMultiMapPM_Get cfg city"
  for city b cfg m vs
proof
  fix kvs e k and v :: "u8 list"
  assume h: "multi_holds city b cfg m vs kvs e" "length kvs < simple_slots m vs" "k \<notin> fst ` set kvs" "length v = vs"
  then obtain e2 e2' where "same_store city e e2" "KVEngineMapPM_Put cfg k v e2 = Returns e2'" "map_holds b cfg m vs (kvs @ [(k, v)]) e2'"
    unfolding multi_holds_def using mappm_load.put_new by blast
  then show "\<exists>e'. KVEngineMultiMapPM_Put cfg city k v e = Returns e' \<and> multi_holds city b cfg m vs (kvs @ [(k, v)]) e'"
    using Put_same [of city e e2 cfg k v] by (cases "KVEngineMultiMapPM_Put cfg city k v e") (auto simp: multi_holds_def)
next
  fix kvs e k and v :: "u8 list"
  assume h: "multi_holds city b cfg m vs kvs e" "length kvs \<le> simple_slots m vs" "(k, v) \<in> set kvs"
  then obtain e2 where e2: "same_store city e e2" "map_holds b cfg m vs kvs e2" unfolding multi_holds_def by blast
  show "KVEngineMultiMapPM_Get cfg city k e = Returns v"
    using Get_same(1) [OF e2(1), of cfg k] mappm_load.get_stored [OF e2(2) h(2,3)] by simp
qed

section \<open>Properties\<close>


definition demo_server :: XPostoffice where
  "demo_server = \<lparr>num_servers = 2, num_clients = 1, global_id = 1, server_id = Some 1, client_id = None, po_actor = ACTOR_SERVER\<rparr>"


end
