(* ===== verification/Ps_Bench.thy ===== *)
theory Ps_Bench
  imports Ps_Shards Base_Timer
begin

text \<open>
  The benchmark client (\<open>src/src/benchmark/benchmark_client_common.h\<close>): its arguments, the clients it creates, and the loop
  of a client thread, which keeps several requests in flight. The interface of a client
  (\<open>src/src/ps/base_client.h\<close>) is the locale \<open>parameter_client\<close>, interpreted for the client of one server. What a thread reads from
  outside (sampled keys, random numbers, the clock, memory written by the network, flags) is given for every step.
  Messages and the measuring of the throughput are left out.
\<close>

section \<open>Arguments and set-up\<close>

record BenchmarkClientCommonArgs =
  thread_count :: int
  async_req_num :: int
  batch_read_count :: int
  key_space_M :: int
  zipf_theta :: fp
  value_size_arg :: int
  read_ratio :: int
  dataset :: string
  server_ip :: string

text \<open>The test \<open>fabs(zipf_theta + 1) < 1e-6\<close> in double precision.\<close>

definition theta_unset :: "fp \<Rightarrow> bool" where
  "theta_unset theta = (case f64_add theta (f64_of_int 1) of Finite d \<Rightarrow> \<bar>d\<bar> < 4722366482869645 * 2 ^ 1002 | _ \<Rightarrow> False)"

definition CheckArgs :: "BenchmarkClientCommonArgs \<Rightarrow> unit run" where
  "CheckArgs a =
     run_bind (run_check (thread_count a \<noteq> 0) ''thread_count_'') (\<lambda>_.
     run_bind (run_check (async_req_num a \<noteq> 0) ''async_req_num_'') (\<lambda>_.
     run_bind (run_check (batch_read_count a \<noteq> 0) ''batch_read_count_'') (\<lambda>_.
     run_bind (run_check (key_space_M a \<noteq> 0) ''key_space_M_'') (\<lambda>_.
     run_bind (run_check (\<not> theta_unset (zipf_theta a)) ''zipf_theta_'') (\<lambda>_.
     run_bind (run_check (value_size_arg a \<noteq> 0) ''value_size_'') (\<lambda>_.
     run_bind (run_check (0 \<le> read_ratio a) ''read_ratio_ >= 0'') (\<lambda>_.
       run_check (read_ratio a \<le> 100) ''read_ratio_ <= 100'')))))))"

definition kMaxThread :: nat where
  "kMaxThread = 64"

record BenchmarkClientCommon =
  bm_args :: BenchmarkClientCommonArgs
  stop_flags :: "bool list"
  pause_flags :: bool
  start_flag :: bool
  bm_tp :: "u64 list"

text \<open>The vector of flags is built before the arguments are checked; a negative size throws.\<close>

definition BenchmarkClientCommon_new :: "BenchmarkClientCommonArgs \<Rightarrow> BenchmarkClientCommon run" where
  "BenchmarkClientCommon_new a =
     (if thread_count a < 0 then Aborts (Uncaught ''length_error'')
      else run_bind (CheckArgs a) (\<lambda>_.
        Returns \<lparr>bm_args = a, stop_flags = replicate (nat (thread_count a)) False, pause_flags = False, start_flag = False,
          bm_tp = replicate kMaxThread (- 1)\<rparr>))"

text \<open>One client for every thread: directly to the only server, or over all servers.\<close>

datatype bench_client = OneServer WqRPCParameterClient | AllServers AllShardsParameterClientWrapper

definition create_client :: "nat \<Rightarrow> bench_client" where
  "create_client servers =
     (if servers = 1 then OneServer (client_new 0) else AllServers (AllShards_new (map client_new [0..<servers]) servers))"

definition create_clients :: "nat \<Rightarrow> BenchmarkClientCommon \<Rightarrow> bench_client list run" where
  "create_clients servers b =
     run_bind (run_check (thread_count (bm_args b) \<le> int kMaxThread) ''thread_count_ <= kMaxThread'') (\<lambda>_.
       Returns (map (\<lambda>_. create_client servers) [0..<nat (thread_count (bm_args b))]))"

text \<open>Only the generated data set can be read; the other choices end the process.\<close>

definition check_dataset :: "BenchmarkClientCommonArgs \<Rightarrow> unit run" where
  "check_dataset a =
     (if dataset a = ''zipfian'' then Returns ()
      else if dataset a = ''dataset'' then Aborts (LogFatal ''We can not make the production dataset public.'')
      else Aborts (LogFatal (''dataset_ = '' @ dataset a)))"

section \<open>A client thread\<close>

record bench_thread =
  bt_keys :: "u64 list list"
  bt_recv_buffers :: "nat list"
  bt_running :: "32 word list"
  bt_isPull :: "bool list"
  bt_get_timer :: Timer
  bt_put_timer :: Timer
  bt_tp :: u64

text \<open>What a thread reads when it handles a slot; \<open>in_env\<close> is what the network has done to the client's process since.\<close>

record 'm slot_input =
  in_keys :: "u64 list"
  in_rand :: nat
  in_now :: int
  in_env :: 'm

fun get_buffers :: "nat \<Rightarrow> u64 \<Rightarrow> process \<Rightarrow> nat list \<times> process" where
  "get_buffers 0 sz p = ([], p)"
| "get_buffers (Suc n) sz p =
     (let (a, p) = GetReceiveBuffer sz p; (as, p) = get_buffers n sz p in (a # as, p))"

text \<open>The start of a thread with the client of one server.\<close>

definition thread_init ::
  "nat \<Rightarrow> nat \<Rightarrow> nat \<Rightarrow> (nat \<Rightarrow> cq_event) \<Rightarrow> int \<Rightarrow> WqRPCParameterClient \<Rightarrow> process \<Rightarrow> (bench_thread \<times> WqRPCParameterClient \<times> process) run" where
  "thread_init async batch value_size events now cl p =
     (let (bufs, p) = get_buffers async (of_nat (batch * value_size)) p in
      run_bind (InitThread events p cl) (\<lambda>(rq, cl).
      run_bind (Timer_new ''client get'' 1 now) (\<lambda>tg.
      run_bind (Timer_new ''client put'' 1 now) (\<lambda>tp.
        Returns (\<lparr>bt_keys = replicate async (replicate batch 0), bt_recv_buffers = bufs, bt_running = replicate async (- 1),
          bt_isPull = replicate async True, bt_get_timer = tg, bt_put_timer = tp, bt_tp = 0\<rparr>, cl, p)))))"

text \<open>
  Sending in a free slot. The client is given by its operations on a state of type \<open>'c\<close>:
  \<open>get keys values slot\<close> and \<open>put keys values\<close> return an identifier.
\<close>

definition bench_send ::
  "(u64 list \<Rightarrow> nat \<Rightarrow> nat \<Rightarrow> 'c \<Rightarrow> (32 word \<times> 'c) run) \<Rightarrow> (u64 list \<Rightarrow> nat \<Rightarrow> 'c \<Rightarrow> (32 word \<times> 'c) run) \<Rightarrow> nat \<Rightarrow> nat \<Rightarrow> 'm slot_input \<Rightarrow>
   bench_thread \<times> 'c \<Rightarrow> (bench_thread \<times> 'c) run" where
  "bench_send get put ratio i inp = (\<lambda>(t, c).
     let t = t\<lparr>bt_keys := (bt_keys t)[i := in_keys inp]\<rparr>; values = bt_recv_buffers t ! i in
     if in_rand inp < ratio then
       run_bind (get (in_keys inp) values i c) (\<lambda>(rpc_id, c).
       run_bind (if i = 0 then Timer_start (in_now inp) (bt_get_timer t) else Returns (bt_get_timer t)) (\<lambda>tm.
         Returns (t\<lparr>bt_isPull := (bt_isPull t)[i := True], bt_running := (bt_running t)[i := rpc_id], bt_get_timer := tm\<rparr>, c)))
     else
       run_bind (put (in_keys inp) values c) (\<lambda>(rpc_id, c).
       run_bind (if i = 0 then Timer_start (in_now inp) (bt_put_timer t) else Returns (bt_put_timer t)) (\<lambda>tm.
         Returns (t\<lparr>bt_isPull := (bt_isPull t)[i := False], bt_running := (bt_running t)[i := rpc_id], bt_put_timer := tm\<rparr>, c))))"

text \<open>The check of the embeddings of a request, compiled only with \<open>RPC_DEBUG\<close>.\<close>

fun CheckEmbDebug :: "(nat \<Rightarrow> u8) \<Rightarrow> nat \<Rightarrow> u64 list \<Rightarrow> nat \<Rightarrow> unit run" where
  "CheckEmbDebug mem emb_dim [] values = Returns ()"
| "CheckEmbDebug mem emb_dim (k # ks) values =
     run_bind (AssertTensorEq (map (\<lambda>j. le_word (mem_bytes mem (values + 4 * j) 4)) [0..<emb_dim]) k
         (''client embedding check error, key='' @ nat_digits (unat k))) (\<lambda>_.
       CheckEmbDebug mem emb_dim ks (values + 4 * emb_dim))"

definition bench_poll ::
  "(32 word \<Rightarrow> 'c \<Rightarrow> (bool \<times> 'c) run) \<Rightarrow> (32 word \<Rightarrow> 'c \<Rightarrow> 'c) \<Rightarrow> ('c \<Rightarrow> nat \<Rightarrow> u8) \<Rightarrow> bool \<Rightarrow> nat \<Rightarrow> u64 \<Rightarrow> nat \<Rightarrow> 'm slot_input \<Rightarrow>
   bench_thread \<times> 'c \<times> registry \<Rightarrow> (bench_thread \<times> 'c \<times> registry) run" where
  "bench_poll query revoke mem_of rpc_debug value_size hash i inp = (\<lambda>(t, c, reg).
     let rpc_id = bt_running t ! i in
     run_bind (query rpc_id c) (\<lambda>(finished, c).
     if \<not> finished then Returns (t, c, reg)
     else
       run_bind (if i \<noteq> 0 then Returns (t, reg)
                 else if bt_isPull t ! i
                 then run_bind (Timer_end hash (in_now inp) (bt_get_timer t) reg) (\<lambda>(tm, reg). Returns (t\<lparr>bt_get_timer := tm\<rparr>, reg))
                 else run_bind (Timer_end hash (in_now inp) (bt_put_timer t) reg) (\<lambda>(tm, reg). Returns (t\<lparr>bt_put_timer := tm\<rparr>, reg))) (\<lambda>(t, reg).
       run_bind (if rpc_debug then CheckEmbDebug (mem_of c) (value_size div 4) (bt_keys t ! i) (bt_recv_buffers t ! i) else Returns ()) (\<lambda>_.
         Returns (t\<lparr>bt_tp := bt_tp t + 1, bt_running := (bt_running t)[i := - 1]\<rparr>, revoke rpc_id c, reg)))))"

definition slot_step ::
  "('m \<Rightarrow> 'c \<Rightarrow> 'c) \<Rightarrow> (u64 list \<Rightarrow> nat \<Rightarrow> nat \<Rightarrow> 'c \<Rightarrow> (32 word \<times> 'c) run) \<Rightarrow> (u64 list \<Rightarrow> nat \<Rightarrow> 'c \<Rightarrow> (32 word \<times> 'c) run) \<Rightarrow>
   (32 word \<Rightarrow> 'c \<Rightarrow> (bool \<times> 'c) run) \<Rightarrow> (32 word \<Rightarrow> 'c \<Rightarrow> 'c) \<Rightarrow> ('c \<Rightarrow> nat \<Rightarrow> u8) \<Rightarrow> bool \<Rightarrow> nat \<Rightarrow> nat \<Rightarrow> u64 \<Rightarrow> nat \<Rightarrow> 'm slot_input \<Rightarrow>
   bench_thread \<times> 'c \<times> registry \<Rightarrow> (bench_thread \<times> 'c \<times> registry) run" where
  "slot_step env get put query revoke mem_of rpc_debug value_size ratio hash i inp = (\<lambda>(t, c, reg).
     let c = env (in_env inp) c in
     if bt_running t ! i = - 1 then run_bind (bench_send get put ratio i inp (t, c)) (\<lambda>(t, c). Returns (t, c, reg))
     else bench_poll query revoke mem_of rpc_debug value_size hash i inp (t, c, reg))"

text \<open>A pass over the slots, and the loop: one pass for every reading of the stop flag; a thread that is paused drops its timer.\<close>

fun run_pass :: "(nat \<Rightarrow> 'm slot_input \<Rightarrow> 's \<Rightarrow> 's run) \<Rightarrow> (nat \<Rightarrow> 'm slot_input) \<Rightarrow> nat list \<Rightarrow> 's \<Rightarrow> 's run" where
  "run_pass step inputs [] s = Returns s"
| "run_pass step inputs (i # is) s = run_bind (step i (inputs i) s) (run_pass step inputs is)"

fun clientThreadLoop ::
  "(nat \<Rightarrow> 'm slot_input \<Rightarrow> bench_thread \<times> 'c \<times> registry \<Rightarrow> (bench_thread \<times> 'c \<times> registry) run) \<Rightarrow> nat \<Rightarrow> (bool \<times> (nat \<Rightarrow> 'm slot_input)) list \<Rightarrow>
   bench_thread \<times> 'c \<times> registry \<Rightarrow> (bench_thread \<times> 'c \<times> registry) run" where
  "clientThreadLoop step async [] s = Returns s"
| "clientThreadLoop step async ((paused, inputs) # passes) (t, c, reg) =
     (let t = (if paused then t\<lparr>bt_get_timer := Timer_destroy (bt_get_timer t)\<rparr> else t) in
      run_bind (run_pass step inputs [0..<async] (t, c, reg)) (clientThreadLoop step async passes))"

section \<open>The contract of a client\<close>

text \<open>
  What the loop relies on. \<open>cinv ids n c\<close> says that the client has sent \<open>n\<close> requests, of which those with the
  identifiers \<open>ids\<close> are not revoked.
\<close>

locale parameter_client =
  fixes cinv :: "32 word set \<Rightarrow> nat \<Rightarrow> 'c \<Rightarrow> bool"
    and env :: "'m \<Rightarrow> 'c \<Rightarrow> 'c"
    and get :: "u64 list \<Rightarrow> nat \<Rightarrow> nat \<Rightarrow> 'c \<Rightarrow> (32 word \<times> 'c) run"
    and put :: "u64 list \<Rightarrow> nat \<Rightarrow> 'c \<Rightarrow> (32 word \<times> 'c) run"
    and query :: "32 word \<Rightarrow> 'c \<Rightarrow> (bool \<times> 'c) run"
    and revoke :: "32 word \<Rightarrow> 'c \<Rightarrow> 'c"
  assumes env_law: "cinv ids n c \<Longrightarrow> cinv ids n (env m c)"
    and get_law: "cinv ids n c \<Longrightarrow> n + 1 < 2 ^ 31 \<Longrightarrow> length keys \<le> 509 \<Longrightarrow>
      \<exists>rpc_id c'. get keys values i c = Returns (rpc_id, c') \<and> rpc_id \<notin> ids \<and> rpc_id \<noteq> - 1 \<and> cinv (insert rpc_id ids) (n + 1) c'"
    and put_law: "cinv ids n c \<Longrightarrow> n + 1 < 2 ^ 31 \<Longrightarrow> length keys \<le> 509 \<Longrightarrow>
      \<exists>rpc_id c'. put keys values c = Returns (rpc_id, c') \<and> rpc_id \<notin> ids \<and> rpc_id \<noteq> - 1 \<and> cinv (insert rpc_id ids) (n + 1) c'"
    and query_law: "cinv ids n c \<Longrightarrow> rpc_id \<in> ids \<Longrightarrow> \<exists>b c'. query rpc_id c = Returns (b, c') \<and> cinv ids n c'"
    and revoke_law: "cinv ids n c \<Longrightarrow> rpc_id \<in> ids \<Longrightarrow> cinv (ids - {rpc_id}) n (revoke rpc_id c)"

text \<open>The requests in flight.\<close>

definition in_flight :: "bench_thread \<Rightarrow> 32 word list" where
  "in_flight t = filter (\<lambda>x. x \<noteq> - 1) (bt_running t)"

definition timer_ok :: "nat \<Rightarrow> Timer \<Rightarrow> bool" where
  "timer_ok n tm \<longleftrightarrow> tm_sample_rate tm = 1 \<and> 0 \<le> tm_sampled_count tm \<and> tm_sampled_count tm \<le> int n + 1"

text \<open>The invariant of a thread after \<open>n\<close> requests: none of them is lost, and the identifiers in flight are different.\<close>

definition thread_inv :: "nat \<Rightarrow> nat \<Rightarrow> bench_thread \<Rightarrow> registry \<Rightarrow> bool" where
  "thread_inv async n t reg \<longleftrightarrow> length (bt_running t) = async \<and> distinct (in_flight t) \<and> n = unat (bt_tp t) + length (in_flight t) \<and>
     timer_ok n (bt_get_timer t) \<and> timer_ok n (bt_put_timer t) \<and> (\<exists>evs. registry_holds evs reg)"

lemma timer_ok_start: "timer_ok n tm \<Longrightarrow> n + 2 < 2 ^ 31 \<Longrightarrow> \<exists>tm'. Timer_start now tm = Returns tm' \<and> timer_ok (n + 1) tm'"
  by (auto simp: timer_ok_def Timer_start_def Let_def)

lemma timer_ok_mono: "timer_ok n tm \<Longrightarrow> timer_ok (n + 1) tm" by (auto simp: timer_ok_def)

lemma timer_ok_end:
  assumes "timer_ok n tm" "registry_holds evs reg"
  shows "\<exists>tm' reg' evs'. Timer_end h now tm reg = Returns (tm', reg') \<and> timer_ok n tm' \<and> registry_holds evs' reg'"
proof (cases "tm_isEnd tm")
  case False
  obtain reg' where "PerfCounter_Record h (tm_timerName tm) (f64_of_int (now - tm_start tm)) reg = Returns reg'"
    "registry_holds (evs @ [(h, tm_timerName tm, f64_of_int (now - tm_start tm))]) reg'"
    using PerfCounter_Record_holds [OF assms(2)] by blast
  then show ?thesis using False assms(1) by (auto simp: Timer_end_def timer_ok_def)
qed (use assms in \<open>auto simp: Timer_end_def\<close>)

lemma split_at: "i < length xs \<Longrightarrow> xs = take i xs @ xs ! i # drop (Suc i) xs \<and> xs[i := x] = take i xs @ x # drop (Suc i) xs"
  by (simp add: id_take_nth_drop upd_conv_take_nth_drop)

lemma in_flight_send:
  assumes "i < length xs" "xs ! i = (- 1 :: 32 word)" "x \<noteq> - 1" "x \<notin> set xs"
  shows "length (filter (\<lambda>x. x \<noteq> - 1) (xs[i := x])) = Suc (length (filter (\<lambda>x. x \<noteq> - 1) xs))"
    and "set (filter (\<lambda>x. x \<noteq> - 1) (xs[i := x])) = insert x (set (filter (\<lambda>x. x \<noteq> - 1) xs))"
    and "distinct (filter (\<lambda>x. x \<noteq> - 1) xs) \<Longrightarrow> distinct (filter (\<lambda>x. x \<noteq> - 1) (xs[i := x]))"
proof -
  obtain a b where x: "xs = a @ (- 1) # b" "xs[i := x] = a @ x # b" using split_at [OF assms(1), of x] assms(2) by metis
  show "length (filter (\<lambda>x. x \<noteq> - 1) (xs[i := x])) = Suc (length (filter (\<lambda>x. x \<noteq> - 1) xs))"
    "set (filter (\<lambda>x. x \<noteq> - 1) (xs[i := x])) = insert x (set (filter (\<lambda>x. x \<noteq> - 1) xs))"
    unfolding x(2) using assms(3) by (simp_all add: x(1))
  show "distinct (filter (\<lambda>x. x \<noteq> - 1) (xs[i := x]))" if "distinct (filter (\<lambda>x. x \<noteq> - 1) xs)"
    unfolding x(2) using that assms(3,4) by (auto simp: x(1))
qed

lemma in_flight_done:
  assumes "i < length xs" "xs ! i \<noteq> (- 1 :: 32 word)" "distinct (filter (\<lambda>x. x \<noteq> - 1) xs)"
  shows "length (filter (\<lambda>x. x \<noteq> - 1) xs) = Suc (length (filter (\<lambda>x. x \<noteq> - 1) (xs[i := - 1])))"
    and "set (filter (\<lambda>x. x \<noteq> - 1) (xs[i := - 1])) = set (filter (\<lambda>x. x \<noteq> - 1) xs) - {xs ! i}"
    and "distinct (filter (\<lambda>x. x \<noteq> - 1) (xs[i := - 1]))"
proof -
  obtain a b where x: "xs = a @ xs ! i # b" "xs[i := - 1] = a @ (- 1) # b" using split_at [OF assms(1), of "- 1"] by metis
  let ?y = "xs ! i"
  have f: "filter (\<lambda>x. x \<noteq> - 1) xs = filter (\<lambda>x. x \<noteq> - 1) a @ ?y # filter (\<lambda>x. x \<noteq> - 1) b" using assms(2) by (subst x(1)) simp
  show "length (filter (\<lambda>x. x \<noteq> - 1) xs) = Suc (length (filter (\<lambda>x. x \<noteq> - 1) (xs[i := - 1])))" unfolding f x(2) by simp
  show "set (filter (\<lambda>x. x \<noteq> - 1) (xs[i := - 1])) = set (filter (\<lambda>x. x \<noteq> - 1) xs) - {xs ! i}"
    using assms(3) unfolding f x(2) by auto
  show "distinct (filter (\<lambda>x. x \<noteq> - 1) (xs[i := - 1]))" using assms(3) unfolding f x(2) by simp
qed

lemma poll_timers:
  assumes "timer_ok n (bt_get_timer t)" "timer_ok n (bt_put_timer t)" "registry_holds evs reg"
  shows "\<exists>t1 r1. (if i \<noteq> 0 then Returns (t, reg)
      else if bt_isPull t ! i then run_bind (Timer_end hash now (bt_get_timer t) reg) (\<lambda>(tm, reg). Returns (t\<lparr>bt_get_timer := tm\<rparr>, reg))
      else run_bind (Timer_end hash now (bt_put_timer t) reg) (\<lambda>(tm, reg). Returns (t\<lparr>bt_put_timer := tm\<rparr>, reg))) = Returns (t1, r1) \<and>
    bt_running t1 = bt_running t \<and> bt_tp t1 = bt_tp t \<and> timer_ok n (bt_get_timer t1) \<and> timer_ok n (bt_put_timer t1) \<and> (\<exists>evs. registry_holds evs r1)"
proof -
  obtain tg rg eg where g: "Timer_end hash now (bt_get_timer t) reg = Returns (tg, rg)" "timer_ok n tg" "registry_holds eg rg"
    using timer_ok_end [OF assms(1,3)] by blast
  obtain tp rp ep where p: "Timer_end hash now (bt_put_timer t) reg = Returns (tp, rp)" "timer_ok n tp" "registry_holds ep rp"
    using timer_ok_end [OF assms(2,3)] by blast
  show ?thesis using assms g p by (cases "i = 0"; cases "bt_isPull t ! i") auto
qed

section \<open>The loop keeps its requests\<close>

context parameter_client
begin

lemma send_step:
  assumes c: "cinv (set (in_flight t)) n c" and t: "thread_inv async n t reg" and n: "n + 2 < 2 ^ 31" and i: "i < async" "bt_running t ! i = - 1"
    and k: "length (in_keys inp) \<le> 509"
  shows "\<exists>t' c'. bench_send get put ratio i inp (t, c) = Returns (t', c') \<and> cinv (set (in_flight t')) (n + 1) c' \<and> thread_inv async (n + 1) t' reg"
proof -
  let ?t = "t\<lparr>bt_keys := (bt_keys t)[i := in_keys inp]\<rparr>" and ?v = "bt_recv_buffers t ! i"
  have T: "length (bt_running t) = async" "distinct (in_flight t)" "n = unat (bt_tp t) + length (in_flight t)"
    "timer_ok n (bt_get_timer t)" "timer_ok n (bt_put_timer t)" "\<exists>evs. registry_holds evs reg" using t by (auto simp: thread_inv_def)
  have fresh: "x \<notin> set (bt_running t)" if "x \<notin> set (in_flight t)" "x \<noteq> - 1" for x using that by (simp add: in_flight_def)
  have fl: "set (in_flight t') = insert x (set (in_flight t)) \<and> distinct (in_flight t') \<and> length (in_flight t') = Suc (length (in_flight t))"
    if "bt_running t' = (bt_running t)[i := x]" "x \<notin> set (in_flight t)" "x \<noteq> - 1" for t' x
    using in_flight_send [of i "bt_running t" x] T(1,2) i fresh [OF that(2,3)] that by (simp add: in_flight_def)
  have n1: "n + 1 < 2 ^ 31" using n by simp
  have timer: "\<exists>tm'. (if i = 0 then Timer_start (in_now inp) tm else Returns tm) = Returns tm' \<and> timer_ok (n + 1) tm'" if "timer_ok n tm" for tm
    using timer_ok_start [OF that n] timer_ok_mono [OF that] by auto
  show ?thesis
  proof (cases "in_rand inp < ratio")
    case True
    obtain x c' where g: "get (in_keys inp) ?v i c = Returns (x, c')" "x \<notin> set (in_flight t)" "x \<noteq> - 1" "cinv (insert x (set (in_flight t))) (n + 1) c'"
      using get_law [OF c n1 k] by blast
    obtain tm where tm: "(if i = 0 then Timer_start (in_now inp) (bt_get_timer t) else Returns (bt_get_timer t)) = Returns tm" "timer_ok (n + 1) tm"
      using timer [OF T(4)] by blast
    let ?t' = "?t\<lparr>bt_isPull := (bt_isPull t)[i := True], bt_running := (bt_running t)[i := x], bt_get_timer := tm\<rparr>"
    have "bench_send get put ratio i inp (t, c) = Returns (?t', c')" using True g(1) tm(1) by (cases "i = 0"; cases t) (auto simp: bench_send_def Let_def)
    moreover have "set (in_flight ?t') = insert x (set (in_flight t)) \<and> distinct (in_flight ?t') \<and> length (in_flight ?t') = Suc (length (in_flight t))"
      by (rule fl [OF _ g(2,3)]) simp
    ultimately show ?thesis using g(4) tm(2) T timer_ok_mono [OF T(5)] by (intro exI [of _ ?t'] exI [of _ c']) (simp add: thread_inv_def)
  next
    case False
    obtain x c' where g: "put (in_keys inp) ?v c = Returns (x, c')" "x \<notin> set (in_flight t)" "x \<noteq> - 1" "cinv (insert x (set (in_flight t))) (n + 1) c'"
      using put_law [OF c n1 k] by blast
    obtain tm where tm: "(if i = 0 then Timer_start (in_now inp) (bt_put_timer t) else Returns (bt_put_timer t)) = Returns tm" "timer_ok (n + 1) tm"
      using timer [OF T(5)] by blast
    let ?t' = "?t\<lparr>bt_isPull := (bt_isPull t)[i := False], bt_running := (bt_running t)[i := x], bt_put_timer := tm\<rparr>"
    have "bench_send get put ratio i inp (t, c) = Returns (?t', c')" using False g(1) tm(1) by (cases "i = 0"; cases t) (auto simp: bench_send_def Let_def)
    moreover have "set (in_flight ?t') = insert x (set (in_flight t)) \<and> distinct (in_flight ?t') \<and> length (in_flight ?t') = Suc (length (in_flight t))"
      by (rule fl [OF _ g(2,3)]) simp
    ultimately show ?thesis using g(4) tm(2) T timer_ok_mono [OF T(4)] by (intro exI [of _ ?t'] exI [of _ c']) (simp add: thread_inv_def)
  qed
qed

lemma poll_step:
  assumes c: "cinv (set (in_flight t)) n c" and t: "thread_inv async n t reg" and n: "n < 2 ^ 31" and i: "i < async" "bt_running t ! i \<noteq> - 1"
  shows "\<exists>t' c' reg'. bench_poll query revoke mem_of False vs hash i inp (t, c, reg) = Returns (t', c', reg') \<and>
    cinv (set (in_flight t')) n c' \<and> thread_inv async n t' reg'"
proof -
  let ?id = "bt_running t ! i"
  have T: "length (bt_running t) = async" "distinct (in_flight t)" "n = unat (bt_tp t) + length (in_flight t)"
    "timer_ok n (bt_get_timer t)" "timer_ok n (bt_put_timer t)" using t by (auto simp: thread_inv_def)
  obtain evs where evs: "registry_holds evs reg" using t by (auto simp: thread_inv_def)
  have m: "?id \<in> set (in_flight t)" using i T(1) by (auto simp: in_flight_def)
  obtain b c1 where q: "query ?id c = Returns (b, c1)" "cinv (set (in_flight t)) n c1" using query_law [OF c m] by blast
  show ?thesis
  proof (cases b)
    case True
    obtain t1 r1 where e: "(if i \<noteq> 0 then Returns (t, reg)
        else if bt_isPull t ! i then run_bind (Timer_end hash (in_now inp) (bt_get_timer t) reg) (\<lambda>(tm, reg). Returns (t\<lparr>bt_get_timer := tm\<rparr>, reg))
        else run_bind (Timer_end hash (in_now inp) (bt_put_timer t) reg) (\<lambda>(tm, reg). Returns (t\<lparr>bt_put_timer := tm\<rparr>, reg))) = Returns (t1, r1)"
      and t1: "bt_running t1 = bt_running t" "bt_tp t1 = bt_tp t" "timer_ok n (bt_get_timer t1)" "timer_ok n (bt_put_timer t1)" "\<exists>evs. registry_holds evs r1"
      using poll_timers [OF T(4,5) evs, of i hash "in_now inp"] by (elim exE conjE) (rule that, assumption+, rule exI)
    let ?t = "t1\<lparr>bt_tp := bt_tp t1 + 1, bt_running := (bt_running t1)[i := - 1]\<rparr>"
    have r: "bench_poll query revoke mem_of False vs hash i inp (t, c, reg) = Returns (?t, revoke ?id c1, r1)"
      unfolding bench_poll_def Let_def prod.case q(1) run_bind.simps using True e by simp
    have f: "length (in_flight t) = Suc (length (in_flight ?t))" "set (in_flight ?t) = set (in_flight t) - {?id}" "distinct (in_flight ?t)"
      using in_flight_done [of i "bt_running t"] T(1,2) i t1(1) by (simp_all add: in_flight_def)
    have "unat (bt_tp t1) + 1 < 2 ^ 31" using T(3) f(1) n t1(2) by simp
    then have "unat (bt_tp t1 + 1) = unat (bt_tp t1) + 1" by (subst unat_plus) simp_all
    then have "thread_inv async n ?t r1" using T(1,3) f(1,3) t1 by (simp add: thread_inv_def)
    moreover have "cinv (set (in_flight ?t)) n (revoke ?id c1)" unfolding f(2) by (rule revoke_law [OF q(2) m])
    ultimately show ?thesis using r by blast
  next
    case False
    then have "bench_poll query revoke mem_of False vs hash i inp (t, c, reg) = Returns (t, c1, reg)" using q(1) by (simp add: bench_poll_def Let_def)
    then show ?thesis using q(2) t by blast
  qed
qed

lemma slot_keeps:
  assumes "cinv (set (in_flight t)) n c" "thread_inv async n t reg" "n + 2 < 2 ^ 31" "i < async" "length (in_keys inp) \<le> 509"
  shows "\<exists>t' c' reg' n'. slot_step env get put query revoke mem_of False vs ratio hash i inp (t, c, reg) = Returns (t', c', reg') \<and>
    cinv (set (in_flight t')) n' c' \<and> thread_inv async n' t' reg' \<and> n' \<le> n + 1"
proof -
  have e: "cinv (set (in_flight t)) n (env (in_env inp) c)" by (rule env_law [OF assms(1)])
  show ?thesis
  proof (cases "bt_running t ! i = - 1")
    case True
    obtain t' c' where "bench_send get put ratio i inp (t, env (in_env inp) c) = Returns (t', c')" "cinv (set (in_flight t')) (n + 1) c'" "thread_inv async (n + 1) t' reg"
      using send_step [OF e assms(2-4) True assms(5)] by blast
    then show ?thesis using True by (intro exI [of _ t'] exI [of _ c'] exI [of _ reg] exI [of _ "n + 1"]) (simp add: slot_step_def Let_def)
  next
    case False
    have "n < 2 ^ 31" using assms(3) by simp
    then obtain t' c' reg' where "bench_poll query revoke mem_of False vs hash i inp (t, env (in_env inp) c, reg) = Returns (t', c', reg')"
      "cinv (set (in_flight t')) n c'" "thread_inv async n t' reg'"
      using poll_step [OF e assms(2) _ assms(4) False] by blast
    then show ?thesis using False by (intro exI [of _ t'] exI [of _ c'] exI [of _ reg'] exI [of _ n]) (simp add: slot_step_def Let_def)
  qed
qed

lemma pass_keeps:
  "cinv (set (in_flight t)) n c \<Longrightarrow> thread_inv async n t reg \<Longrightarrow> n + length is + 2 < 2 ^ 31 \<Longrightarrow> \<forall>i \<in> set is. i < async \<and> length (in_keys (inputs i)) \<le> 509 \<Longrightarrow>
   \<exists>t' c' reg' n'. run_pass (slot_step env get put query revoke mem_of False vs ratio hash) inputs is (t, c, reg) = Returns (t', c', reg') \<and>
     cinv (set (in_flight t')) n' c' \<and> thread_inv async n' t' reg' \<and> n' \<le> n + length is"
proof (induction "is" arbitrary: t c reg n)
  case Nil
  then show ?case by (intro exI [of _ t] exI [of _ c] exI [of _ reg] exI [of _ n]) simp
next
  case (Cons i "is")
  have i: "n + 2 < 2 ^ 31" "i < async" "length (in_keys (inputs i)) \<le> 509" using Cons.prems(3,4) by simp_all
  obtain t1 c1 r1 n1 where s: "slot_step env get put query revoke mem_of False vs ratio hash i (inputs i) (t, c, reg) = Returns (t1, c1, r1)"
    "cinv (set (in_flight t1)) n1 c1" "thread_inv async n1 t1 r1" "n1 \<le> n + 1" using slot_keeps [OF Cons.prems(1,2) i] by blast
  have "n1 + length is + 2 < 2 ^ 31" "\<forall>i \<in> set is. i < async \<and> length (in_keys (inputs i)) \<le> 509" using Cons.prems(3,4) s(4) by simp_all
  from Cons.IH [OF s(2,3) this] obtain t' c' reg' n' where r: "run_pass (slot_step env get put query revoke mem_of False vs ratio hash) inputs is (t1, c1, r1) = Returns (t', c', reg')"
    "cinv (set (in_flight t')) n' c'" "thread_inv async n' t' reg'" "n' \<le> n1 + length is" by blast
  then show ?case using s(1,4) by (intro exI [of _ t'] exI [of _ c'] exI [of _ reg'] exI [of _ n']) simp
qed

lemma loop_keeps:
  "cinv (set (in_flight t)) n c \<Longrightarrow> thread_inv async n t reg \<Longrightarrow> n + length passes * async + 2 < 2 ^ 31 \<Longrightarrow>
   \<forall>(paused, inputs) \<in> set passes. \<forall>i < async. length (in_keys (inputs i)) \<le> 509 \<Longrightarrow>
   \<exists>t' c' reg' n'. clientThreadLoop (slot_step env get put query revoke mem_of False vs ratio hash) async passes (t, c, reg) = Returns (t', c', reg') \<and>
     cinv (set (in_flight t')) n' c' \<and> thread_inv async n' t' reg' \<and> n' < 2 ^ 31"
proof (induction passes arbitrary: t c reg n)
  case Nil
  then show ?case by (intro exI [of _ t] exI [of _ c] exI [of _ reg] exI [of _ n]) simp
next
  case (Cons pass passes)
  obtain paused inputs where p: "pass = (paused, inputs)" by (cases pass)
  let ?t = "if paused then t\<lparr>bt_get_timer := Timer_destroy (bt_get_timer t)\<rparr> else t"
  have "in_flight ?t = in_flight t" by (simp add: in_flight_def)
  then have cf: "cinv (set (in_flight ?t)) n c" using Cons.prems(1) by (simp only:)
  have t: "thread_inv async n ?t reg" using Cons.prems(2) by (auto simp: thread_inv_def in_flight_def timer_ok_def Timer_destroy_def)
  have l: "n + length [0..<async] + 2 < 2 ^ 31" using Cons.prems(3) by simp
  have k: "\<forall>i \<in> set [0..<async]. i < async \<and> length (in_keys (inputs i)) \<le> 509" using Cons.prems(4) p by auto
  obtain t1 c1 r1 n1 where s: "run_pass (slot_step env get put query revoke mem_of False vs ratio hash) inputs [0..<async] (?t, c, reg) = Returns (t1, c1, r1)"
    "cinv (set (in_flight t1)) n1 c1" "thread_inv async n1 t1 r1" "n1 \<le> n + length [0..<async]"
    using pass_keeps [OF cf t l k, where mem_of = mem_of and vs = vs and ratio = ratio and hash = hash] by (elim exE conjE) (rule that)
  have "n1 + length passes * async + 2 < 2 ^ 31" "\<forall>(paused, inputs) \<in> set passes. \<forall>i < async. length (in_keys (inputs i)) \<le> 509"
    using Cons.prems(3,4) s(4) by auto
  from Cons.IH [OF s(2,3) this] show ?case using s(1) p by simp
qed

end

section \<open>The client of one server\<close>

definition wq_env :: "(nat \<Rightarrow> u8) \<Rightarrow> WqRPCParameterClient \<times> process \<Rightarrow> WqRPCParameterClient \<times> process" where
  "wq_env mem = (\<lambda>(cl, p). (cl, p\<lparr>memory := mem\<rparr>))"

definition wq_get :: "nat \<Rightarrow> u64 list \<Rightarrow> nat \<Rightarrow> nat \<Rightarrow> WqRPCParameterClient \<times> process \<Rightarrow> (32 word \<times> WqRPCParameterClient \<times> process) run" where
  "wq_get value_size keys values i = (\<lambda>(cl, p).
     run_bind (GetParameter value_size (\<lambda>_. memory p) True (Some keys) values cl p) (\<lambda>(rq, rpc_id, cl, p). Returns (rpc_id, cl, p)))"

definition wq_put :: "u64 list \<Rightarrow> nat \<Rightarrow> WqRPCParameterClient \<times> process \<Rightarrow> (32 word \<times> WqRPCParameterClient \<times> process) run" where
  "wq_put keys values = (\<lambda>(cl, p).
     run_bind (FakePutParameter (Some keys) values cl p) (\<lambda>(rq, rpc_id, cl, p). Returns (rpc_id, cl, p)))"

definition wq_query :: "32 word \<Rightarrow> WqRPCParameterClient \<times> process \<Rightarrow> (bool \<times> WqRPCParameterClient \<times> process) run" where
  "wq_query rpc_id = (\<lambda>(cl, p). run_bind (QueryRPCFinished rpc_id (memory p) cl) (\<lambda>b. Returns (b, cl, p)))"

definition wq_revoke :: "32 word \<Rightarrow> WqRPCParameterClient \<times> process \<Rightarrow> WqRPCParameterClient \<times> process" where
  "wq_revoke rpc_id = (\<lambda>(cl, p). (RevokeRPCResource rpc_id cl, p))"

definition wq_memory :: "WqRPCParameterClient \<times> process \<Rightarrow> nat \<Rightarrow> u8" where
  "wq_memory = (\<lambda>(cl, p). memory p)"

definition wq_inv :: "32 word set \<Rightarrow> nat \<Rightarrow> WqRPCParameterClient \<times> process \<Rightarrow> bool" where
  "wq_inv ids n = (\<lambda>(cl, p). rpcIDAcc cl = of_nat n \<and> n < 2 ^ 31 \<and> round_robin p < length (serverThreadIdsRoutedTo cl) \<and>
     dom (rpcId2PollMap cl) = scast ` ids \<and> ids \<subseteq> (\<lambda>k. ucast (of_nat k :: u64)) ` {..<n})"

lemma send_request_Returns:
  assumes "client_ready cl p" "length ks \<le> 509"
  shows "\<exists>rq p'. send_request ty (Some ks) values poll cl p = Returns (rq, ucast (rpcIDAcc cl),
      cl\<lparr>rpcIDAcc := rpcIDAcc cl + 1, rpcId2PollMap := (rpcId2PollMap cl)(rpcIDAcc cl \<mapsto> poll)\<rparr>, p') \<and>
    round_robin p' < length (serverThreadIdsRoutedTo cl)"
proof -
  let ?m = "\<lparr>msg_type = ty, msg_node = 0, msg_thread = 0, receive_gaddr = gaddr p values, msg_body = []\<rparr>"
  have "length (concat (map (le_bytes 8) ks)) \<le> 4078" using assms(2) by (simp add: length_keys_sent)
  then obtain m where "rpc_call (my_node p) (my_thread p) ?m (Some (concat (map (le_bytes 8) ks))) = Returns m"
    using rpc_call_get_string [of ?m "concat (map (le_bytes 8) ks)" "my_node p" "my_thread p"] by auto
  moreover have "Suc (round_robin p) mod length (serverThreadIdsRoutedTo cl) < length (serverThreadIdsRoutedTo cl)"
    using assms(1) by (intro mod_less_divisor) (auto simp: client_ready_def)
  ultimately show ?thesis
    using assms(1) by (simp add: send_request_def client_ready_def SelectServerThreadID_def Let_def not_le)
qed

lemma scast_id_inj:
  assumes "a < 2 ^ 31" "b < 2 ^ 31" "scast (ucast (of_nat a :: u64) :: 32 word) = (scast (ucast (of_nat b :: u64) :: 32 word) :: u64)"
  shows "a = b"
proof -
  have "unat (of_nat k :: u64) = k" if "k < 2 ^ 31" for k using that by (intro unat_nat_u64) simp
  then have "(of_nat a :: u64) = of_nat b" using assms by (simp add: scast_ucast_id)
  then have "unat (of_nat a :: u64) = unat (of_nat b :: u64)" by (rule arg_cong)
  moreover have "unat (of_nat a :: u64) = a" "unat (of_nat b :: u64) = b" using assms(1,2) by (intro unat_nat_u64, simp)+
  ultimately show ?thesis by (simp only:)
qed

lemma wq_ids_small: "wq_inv ids n (cl, p) \<Longrightarrow> x \<in> ids \<Longrightarrow> \<exists>k < n. k < 2 ^ 31 \<and> x = ucast (of_nat k :: u64)"
  by (force simp: wq_inv_def)

lemma wq_sent:
  assumes inv: "wq_inv ids n (cl, p)" and n: "n + 1 < 2 ^ 31" and k: "length keys \<le> 509"
  shows "\<exists>rq rpc_id cl' p'. send_request ty (Some keys) values poll cl p = Returns (rq, rpc_id, cl', p') \<and>
    rpc_id \<notin> ids \<and> rpc_id \<noteq> - 1 \<and> wq_inv (insert rpc_id ids) (n + 1) (cl', p')"
proof -
  let ?id = "ucast (of_nat n :: u64) :: 32 word"
  let ?cl = "cl\<lparr>rpcIDAcc := rpcIDAcc cl + 1, rpcId2PollMap := (rpcId2PollMap cl)(rpcIDAcc cl \<mapsto> poll)\<rparr>"
  have i: "rpcIDAcc cl = of_nat n" "n < 2 ^ 31" "round_robin p < length (serverThreadIdsRoutedTo cl)" "dom (rpcId2PollMap cl) = scast ` ids"
    "ids \<subseteq> (\<lambda>k. ucast (of_nat k :: u64)) ` {..<n}" using inv by (simp_all add: wq_inv_def)
  have u: "unat (of_nat n :: u64) = n" using i(2) by (intro unat_nat_u64) simp
  then have "client_ready cl p" using i by (simp add: client_ready_def)
  then obtain rq p' where s: "send_request ty (Some keys) values poll cl p = Returns (rq, ?id, ?cl, p')" "round_robin p' < length (serverThreadIdsRoutedTo cl)"
    using send_request_Returns [of cl p keys ty "values" poll] k i(1) by auto
  have sc: "(scast ?id :: u64) = of_nat n" using u i(2) by (intro scast_ucast_id) simp
  have "?id \<notin> ids"
  proof
    assume "?id \<in> ids"
    then obtain k where "k < n" "k < 2 ^ 31" "?id = ucast (of_nat k :: u64)" using wq_ids_small [OF inv] by blast
    then show False using scast_id_inj [of n k] i(2) by simp
  qed
  moreover have "?id \<noteq> - 1"
  proof
    assume "?id = - 1"
    then have "of_nat n = (- 1 :: u64)" using sc by simp
    then have "unat (of_nat n :: u64) = unat (- 1 :: u64)" by (rule arg_cong)
    then show False using u i(2) by (simp add: unsigned_minus_1_eq_mask mask_eq_exp_minus_1)
  qed
  moreover have "wq_inv (insert ?id ids) (n + 1) (?cl, p')"
    using i n s(2) sc by (auto simp: wq_inv_def lessThan_Suc)
  ultimately show ?thesis using s(1) by blast
qed

interpretation wq_client: parameter_client wq_inv wq_env "wq_get vsz" wq_put wq_query wq_revoke for vsz
proof
  fix ids n c m
  assume "wq_inv ids n c"
  then show "wq_inv ids n (wq_env m c)" by (cases c) (simp add: wq_inv_def wq_env_def)
next
  fix ids n and c :: "WqRPCParameterClient \<times> process" and keys :: "u64 list" and buf i
  assume a: "wq_inv ids n c" "n + 1 < 2 ^ 31" "length keys \<le> 509"
  show "\<exists>rpc_id c'. wq_get vsz keys buf i c = Returns (rpc_id, c') \<and> rpc_id \<notin> ids \<and> rpc_id \<noteq> - 1 \<and> wq_inv (insert rpc_id ids) (n + 1) c'"
  proof -
    obtain cl p where c: "c = (cl, p)" by (cases c)
    obtain rq rpc_id cl' p' where s: "send_request GET (Some keys) buf (poll_address vsz (Some keys) buf) cl p = Returns (rq, rpc_id, cl', p')"
      "rpc_id \<notin> ids" "rpc_id \<noteq> - 1" "wq_inv (insert rpc_id ids) (n + 1) (cl', p')"
      using wq_sent [OF a(1) [unfolded c] a(2,3)] by blast
    then show ?thesis by (intro exI [of _ rpc_id] exI [of _ "(cl', p')"]) (simp add: wq_get_def GetParameter_def GetParameter_send_def c)
  qed
next
  fix ids n and c :: "WqRPCParameterClient \<times> process" and keys :: "u64 list" and buf
  assume a: "wq_inv ids n c" "n + 1 < 2 ^ 31" "length keys \<le> 509"
  show "\<exists>rpc_id c'. wq_put keys buf c = Returns (rpc_id, c') \<and> rpc_id \<notin> ids \<and> rpc_id \<noteq> - 1 \<and> wq_inv (insert rpc_id ids) (n + 1) c'"
  proof -
    obtain cl p where c: "c = (cl, p)" by (cases c)
    obtain rq rpc_id cl' p' where s: "send_request PUT (Some keys) buf buf cl p = Returns (rq, rpc_id, cl', p')"
      "rpc_id \<notin> ids" "rpc_id \<noteq> - 1" "wq_inv (insert rpc_id ids) (n + 1) (cl', p')"
      using wq_sent [OF a(1) [unfolded c] a(2,3)] by blast
    then show ?thesis by (intro exI [of _ rpc_id] exI [of _ "(cl', p')"]) (simp add: wq_put_def FakePutParameter_def c)
  qed
next
  fix ids n and c :: "WqRPCParameterClient \<times> process" and rpc_id
  assume a: "wq_inv ids n c" "rpc_id \<in> ids"
  then have "scast rpc_id \<in> dom (rpcId2PollMap (fst c))" by (cases c) (simp add: wq_inv_def)
  then show "\<exists>b c'. wq_query rpc_id c = Returns (b, c') \<and> wq_inv ids n c'"
    using a(1) by (cases c) (auto simp: wq_query_def QueryRPCFinished_def poll_word_def)
next
  fix ids n and c :: "WqRPCParameterClient \<times> process" and rpc_id
  assume a: "wq_inv ids n c" "rpc_id \<in> ids"
  obtain cl p where c: "c = (cl, p)" by (cases c)
  have "(scast x :: u64) \<noteq> scast rpc_id" if "x \<in> ids" "x \<noteq> rpc_id" for x
    using wq_ids_small [of ids n cl p x] wq_ids_small [of ids n cl p rpc_id] a c that scast_id_inj by metis
  then have "scast ` ids - {scast rpc_id :: u64} = scast ` (ids - {rpc_id})" by auto
  then show "wq_inv (ids - {rpc_id}) n (wq_revoke rpc_id c)"
    using a c by (auto simp: wq_inv_def wq_revoke_def RevokeRPCResource_def)
qed

section \<open>Properties\<close>

lemma get_buffers_same: "snd (get_buffers n sz p) = p\<lparr>client_memory_offset_acc := client_memory_offset_acc (snd (get_buffers n sz p))\<rparr>"
  by (induction n arbitrary: p) (auto simp: GetReceiveBuffer_def Let_def split: prod.splits, metis process.surjective process.update_convs(6) snd_conv)

lemma thread_init_inv:
  assumes "thread_init async batch vs events now (client_new shard) p = Returns (t, cl, p')" and "round_robin p < length (serverThreadIdsRoutedTo cl)"
  shows "wq_inv (set (in_flight t)) 0 (cl, p')" and "thread_inv async 0 t registry_Init"
proof -
  have b: "round_robin (snd (get_buffers n sz p)) = round_robin p" for n sz by (subst get_buffers_same) simp
  have t: "bt_running t = replicate async (- 1)" "bt_tp t = 0" "timer_ok 0 (bt_get_timer t)" "timer_ok 0 (bt_put_timer t)"
    "rpcIDAcc cl = 0" "rpcId2PollMap cl = Map.empty" "round_robin p' = round_robin p"
    using assms(1) b by (auto simp: thread_init_def InitThread_def client_new_def Timer_new_def Timer_start_def timer_ok_def
        run_bind_eq_Returns Let_def split: prod.splits) (metis snd_conv)
  then have f: "in_flight t = []" by (simp add: in_flight_def)
  then show "wq_inv (set (in_flight t)) 0 (cl, p')" using t assms(2) by (simp add: wq_inv_def)
  have "registry_holds [] registry_Init" by (simp add: registry_holds_def registry_Init_def names_of_def)
  then show "thread_inv async 0 t registry_Init" using t f by (auto simp: thread_inv_def)
qed

text \<open>
  (C40) The loop of a client thread keeps its requests, whenever and in whatever order replies arrive: it does not
  fail, the number of requests it has sent is the number it has counted as finished plus those in
  flight, the identifiers in flight are different, and the client remembers a word to poll for exactly
  these. The bound is on the number of requests, whose identifiers are returned as \<open>int\<close>.
\<close>

theorem clientThreadLoop_keeps_requests:
  assumes "thread_init async batch vs events now (client_new shard) p = Returns (t, cl, p')" and "round_robin p < length (serverThreadIdsRoutedTo cl)"
    and "\<forall>(paused, inputs) \<in> set passes. \<forall>i < async. length (in_keys (inputs i)) \<le> 509" and "length passes * async + 2 < 2 ^ 31"
  shows "\<exists>t' cl' p'' reg'. clientThreadLoop (slot_step wq_env (wq_get vs) wq_put wq_query wq_revoke wq_memory False vs ratio hash) async passes
      (t, (cl, p'), registry_Init) = Returns (t', (cl', p''), reg') \<and>
    rpcIDAcc cl' = bt_tp t' + of_nat (length (filter (\<lambda>x. x \<noteq> - 1) (bt_running t'))) \<and>
    distinct (filter (\<lambda>x. x \<noteq> - 1) (bt_running t')) \<and>
    dom (rpcId2PollMap cl') = scast ` set (filter (\<lambda>x. x \<noteq> - 1) (bt_running t'))"
proof -
  note init = thread_init_inv [OF assms(1,2)]
  have l: "0 + length passes * async + 2 < 2 ^ 31" using assms(4) by simp
  obtain t' c' reg' n where r: "clientThreadLoop (slot_step wq_env (wq_get vs) wq_put wq_query wq_revoke wq_memory False vs ratio hash) async passes
      (t, (cl, p'), registry_Init) = Returns (t', c', reg')"
    "wq_inv (set (in_flight t')) n c'" "thread_inv async n t' reg'"
    using wq_client.loop_keeps [OF init l assms(3), where mem_of = wq_memory and vs = vs and vsz = vs and ratio = ratio and hash = hash]
    by (elim exE conjE) (rule that)
  obtain cl' p'' where c: "c' = (cl', p'')" by (cases c')
  have n: "n = unat (bt_tp t') + length (in_flight t')" "distinct (in_flight t')" using r(3) by (simp_all add: thread_inv_def)
  have "rpcIDAcc cl' = of_nat n" "dom (rpcId2PollMap cl') = scast ` set (in_flight t')" using r(2) c by (simp_all add: wq_inv_def)
  moreover have "(of_nat n :: u64) = bt_tp t' + of_nat (length (in_flight t'))" unfolding n(1) by simp
  ultimately show ?thesis using r(1) n(2) c unfolding in_flight_def by auto
qed

definition demo_input :: "nat \<Rightarrow> u8 \<Rightarrow> (nat \<Rightarrow> u8) slot_input" where
  "demo_input r x = \<lparr>in_keys = [4, 5], in_rand = r, in_now = 0, in_env = (\<lambda>a. x)\<rparr>"

definition demo_idle :: process where
  "demo_idle = \<lparr>my_node = 1, my_thread = 0, dsm_base = 4096, memory = (\<lambda>a. 0), round_robin = 0, client_memory_offset_acc = 0\<rparr>"

theorem clientThreadLoop_keeps_requests_witness:
  "\<exists>events t cl p t' cl' p' reg'. thread_init 2 2 8 events 0 (client_new 0) demo_idle = Returns (t, cl, p) \<and>
     clientThreadLoop (slot_step wq_env (wq_get 8) wq_put wq_query wq_revoke wq_memory False 8 50 3) 2
       [(False, \<lambda>i. demo_input (i * 60) 0), (True, \<lambda>i. demo_input 0 7)] (t, (cl, p), registry_Init) = Returns (t', (cl', p'), reg') \<and>
     rpcIDAcc cl' = bt_tp t' + of_nat (length (filter (\<lambda>x. x \<noteq> - 1) (bt_running t')))"
proof -
  let ?m = "\<lparr>msg_type = RESP_GET_SERVER_THREADIDS, msg_node = 0, msg_thread = 0, receive_gaddr = null_gaddr, msg_body = []\<rparr>"
  obtain m where m: "get_string m = Returns [0, 0, 0, 0]" "msg_type m = RESP_GET_SERVER_THREADIDS"
    using rpc_call_get_string [of ?m "[0, 0, 0, 0]" 0 0] by auto
  let ?ev = "\<lambda>n :: nat. Recv m"
  have w: "wait_message ?ev 0 = Some m" by (subst wait_message.simps) simp
  obtain t cl p where i: "thread_init 2 2 8 ?ev 0 (client_new 0) demo_idle = Returns (t, cl, p)" "serverThreadIdsRoutedTo cl = [0]"
    using w m by (simp add: thread_init_def InitThread_def GetServerThreadIDs_def rpc_call_def MESSAGE_SIZE_def sizeof_RawMessage_def run_of_option_def
        Timer_new_def Timer_start_def numeral_2_eq_2 GetReceiveBuffer_def client_new_def run_simps le_word_def Let_def)
  have "\<exists>t' cl' p'' reg'. clientThreadLoop (slot_step wq_env (wq_get 8) wq_put wq_query wq_revoke wq_memory False 8 50 3) 2
       [(False, \<lambda>i. demo_input (i * 60) 0), (True, \<lambda>i. demo_input 0 7)] (t, (cl, p), registry_Init) = Returns (t', (cl', p''), reg') \<and>
    rpcIDAcc cl' = bt_tp t' + of_nat (length (filter (\<lambda>x. x \<noteq> - 1) (bt_running t'))) \<and>
    distinct (filter (\<lambda>x. x \<noteq> - 1) (bt_running t')) \<and>
    dom (rpcId2PollMap cl') = scast ` set (filter (\<lambda>x. x \<noteq> - 1) (bt_running t'))"
    by (rule clientThreadLoop_keeps_requests [OF i(1)]) (simp_all add: i(2) demo_idle_def demo_input_def)
  then obtain t' cl' p'' reg' where l: "clientThreadLoop (slot_step wq_env (wq_get 8) wq_put wq_query wq_revoke wq_memory False 8 50 3) 2
       [(False, \<lambda>i. demo_input (i * 60) 0), (True, \<lambda>i. demo_input 0 7)] (t, (cl, p), registry_Init) = Returns (t', (cl', p''), reg')"
    "rpcIDAcc cl' = bt_tp t' + of_nat (length (filter (\<lambda>x. x \<noteq> - 1) (bt_running t')))" by (elim exE conjE)
  show ?thesis by (intro exI conjI) (rule i(1), rule l(1), rule l(2))
qed

end
