(* ===== verification/Spec2Isabelle.thy ===== *)
theory Spec2Isabelle
  imports Pet_Recovery Pet_Valid Pet_Hotness Mem_Recycle Mem_Simple Mem_Epoch_Steps Shm_File Base_Timer Ps_Load Ps_Bench
begin

text \<open>
  PetPS is a parameter server for embedding tables in persistent memory. A training client asks for the
  values of a list of keys; the request goes over RDMA to the servers that own the keys; a server looks
  the keys up in a storage engine and writes the values straight into the memory of the client. The
  main engine consists of the hash index PetHash, a persistent memory pool for the values, and a
  recycler that frees replaced values when no reader can hold them any more. This library models these parts
  function by function after the C++ sources under \<open>src/src\<close> and proves what they promise to each other.

  \<^bold>\<open>Conventions.\<close> \<open>Pet_Prelude\<close> has the machine integers (\<open>u8\<close>, \<open>u32\<close>, \<open>u64\<close> are words of that width, with
  wrap-around) and the outcome \<open>run\<close> of an operation: \<open>Returns\<close> with a result, \<open>Aborts\<close> for a failed
  \<open>CHECK\<close>, \<open>LOG(FATAL)\<close>, a null pointer, an uncaught exception or undefined behaviour, or \<open>Diverges\<close>. Objects are
  records that operations return updated. A pointer into a file is an offset, a pointer into memory a natural
  number or a 64 bit word, and memory a function from addresses to bytes where the code shares it. A loop
  with a bound is structural recursion or recursion on the remaining iterations that the code itself counts, so
  no bound is chosen by the model. A loop without a bound (retries of a lookup, waiting for a reply,
  waiting for memcached) is a \<open>partial_function (option)\<close> or is followed for as long as its input lasts, and
  returning from it is a theorem, not an assumption.

  \<^bold>\<open>The index\<close> (\<open>src/src/pet_kv/pet_hash.h\<close>). \<open>Pet_Chunk\<close>: entries and chunks of fourteen slots.
  \<open>Pet_Hash\<close>: the table and its operations. \<open>Pet_Probe\<close>: probe sequences and the invariant of the table, an overflow
  counter counts the keys that passed a chunk or is stuck at 255. \<open>Pet_Lookup\<close>, \<open>Pet_Delete\<close>, \<open>Pet_Insert\<close>,
  \<open>Pet_Insert_Loop\<close>, \<open>Pet_Set\<close>: every operation keeps the invariant and does to the abstract map what it
  should. \<open>Pet_Init\<close>: sizing, with the double precision division of the code carried out bit by bit.
  \<open>Index_Spec\<close> and \<open>Pet_Dict\<close>: the contract \<open>index_spec\<close> of an index and PetHash as its implementation: any
  sequence of operations answers like a map, \<open>Insert\<close> runs out of memory exactly in the stated case.
  \<open>Pet_Recovery\<close>: \<open>Reload\<close> after a crash, for every interleaving of its threads. \<open>Pet_Valid\<close>: the
  consistency check. \<open>Pet_Migration\<close>, \<open>Pet_Migrated\<close>, \<open>Pet_Hot\<close>, \<open>Pet_Hotness\<close>: migration of hot keys, which keeps
  the table when it replaces a victim and can lose another key when it uses a free slot.

  \<^bold>\<open>Memory\<close> (\<open>src/src/memory\<close>, \<open>src/src/base/bitmap.h\<close>). \<open>Base_BitMap\<close>: the bitmap as an allocator of slots.
  \<open>Mem_Pool\<close>, \<open>Mem_Pool_Inv\<close>, \<open>Mem_Pool_Ops\<close>: \<open>PersistMemoryPool\<close>, whose blocks never overlap. \<open>Mem_Api\<close>: the contract
  of \<open>MallocApi\<close> and the pool as its implementation. \<open>Mem_Recover\<close>: opening the file again. \<open>Mem_Simple\<close>:
  the bump allocator \<open>PersistSimpleMalloc\<close> and the addresses it hands out. \<open>Mem_Epoch\<close> and \<open>Mem_Epoch_Steps\<close>:
  \<open>epoch_manager.h\<close> as functions and as a step relation of readers and writers, with the safety of
  reclamation as an invariant. \<open>Mem_Recycle\<close>: the three recyclers of \<open>malloc.h\<close> over any allocator. \<open>Shm_File\<close>:
  the register center of named regions and the two kinds of files (\<open>shm_file.h\<close>, \<open>shm_file.cc\<close>, \<open>pm_command.cc\<close>).

  \<^bold>\<open>Stores\<close> (\<open>src/src/pet_kv\<close>, \<open>src/src/kv_engine\<close>). \<open>Shm_Common\<close>: the packed word of the index, cache line flushes, the
  database interface. \<open>Pet_KV\<close>, \<open>Pet_KV_Open\<close>: one shard of index, pool and recycler; an update is seen by
  lookups, replaced blocks are recycled, a closed store opens with the same contents. \<open>Kv_Spec\<close>,
  \<open>Pet_MultiKV\<close>: the contract of a store and the sharded store, which behaves like one map.
  \<open>Kv_Engines\<close>: the engines behind \<open>BaseKV\<close> with construction, lookup, insertion and batches.

  \<^bold>\<open>Parameter server\<close> (\<open>src/src/ps\<close>). \<open>Ps_Message\<close>: roles and retry loops of \<open>Postoffice.cc\<close>, the partition of keys,
  messages and remote writes of the network layer. \<open>Ps_Server\<close>: the service, its handlers and the polling
  thread. \<open>Ps_Client\<close>: the client of one server, and a request through client, server and engine and
  back. \<open>Ps_Shards\<close>: the client of all servers, which splits requests and puts replies in order.
  \<open>Ps_Load\<close>: \<open>load_db.h\<close>, which fills the store on several threads and checks it. The contract \<open>warm_engine\<close> says what it
  needs of an engine; three engines are shown to meet it. \<open>Ps_Bench\<close>: the thread of the benchmark client
  (\<open>src/src/benchmark/benchmark_client_common.h\<close>) against the contract \<open>parameter_client\<close> of a client.

  \<^bold>\<open>Base library\<close> (\<open>src/src/base\<close>). \<open>Base_Files\<close>: files and temporary directories over a model of
  \<open>std::filesystem\<close>, formatting, locks, hashing, clock, class factory. \<open>Base_Array\<close>: array views over memory.
  \<open>Base_Float\<close>: the \<open>float\<close> arithmetic of embeddings, with its rounding.
  \<open>Base_Timer\<close>: counters, timers, tables and histograms of \<open>timer.h\<close> over a model of \<open>double\<close>.

  \<^bold>\<open>Parameters.\<close> Code outside \<open>src/src\<close> is an argument of the definitions that use it: CityHash, the tables of Dash and
  of the hash interface, the answers of the operating system, of memcached and of the network, readings of the
  clock. Theorems hold for every such argument unless a hypothesis says what is needed of it.

  \<^bold>\<open>Concurrency.\<close> The threads of the epoch manager and of \<open>Reload\<close> are interleaved, with
  sequentially consistent steps. Other operations are taken as atomic; locks, prefetches, fences and
  flushes change no value and are left out, except where a theorem is about the flushed addresses.

  \<^bold>\<open>Not modelled.\<close> The RDMA transport, the start of the processes and the command line
  (\<open>main\<close> functions, \<open>gflags\<close>) are input and output. The other benchmark programs and scripts
  measure the system and change none of its state. \<open>Histogram::ToString\<close> calls a function that has no definition. The hash tables under
  \<open>src/third_party\<close> and the generated test framework are not part of PetPS.
\<close>

end
